(* ===== verification/Blaze_Prelude.thy ===== *)
theory Blaze_Prelude
  imports Main "HOL-Library.Word" "HOL-Library.Finite_Map" "HOL-Library.Monad_Syntax"
    "HOL-Library.Product_Lexorder"
begin

text \<open>
  Shared vocabulary of the development: the machine types of the program, the collections its
  proofs draw on, and two generic theories the components share. The first is about
  \<^emph>\<open>parent functions\<close>: partial maps from a node to a strictly smaller node, the shape of every
  union-find forest of the program, with the effect of linking two roots and of pointing a node
  at another member of its tree. The second is the specification side of connectivity: the
  equivalence closure of a set of edges and the lowest node of each class.
\<close>

section \<open>Machine types and fact collections\<close>

type_synonym u8 = "8 word"
type_synonym u32 = "32 word"
type_synonym u64 = "64 word"
type_synonym i64 = "64 word"
type_synonym bytes = "u8 list"

named_theorems root_rules \<open>facts that compute representatives of a parent function\<close>
named_theorems forest_defs \<open>unfoldings of the forest model\<close>

text \<open>
  Domains of finite maps stay in the form \<^term>\<open>dom (fmlookup m)\<close>, so that the facts about parent
  functions apply to the maps of the program.
\<close>

declare dom_fmlookup [simp del]

lemma fmlookup_empty_fun [simp]: "fmlookup fmempty = (\<lambda>_. None)"
  by (rule ext) simp

lemma sorted_keys:
  "distinct (sorted_list_of_fset (fmdom m))" "set (sorted_list_of_fset (fmdom m)) = dom (fmlookup m)"
  "sorted_wrt (<) (sorted_list_of_fset (fmdom m))"
  by (simp_all add: sorted_list_of_fset.rep_eq dom_fmlookup fmdom'_alt_def)

lemma fcard_dom: "fcard (fmdom m) = card (dom (fmlookup m))"
  by (simp add: fcard.rep_eq dom_fmlookup fmdom'_alt_def)

section \<open>Sorted, duplicate-free lists\<close>

text \<open>
  The code brings a vector into canonical form with \<^verbatim>\<open>sort_unstable\<close> and \<^verbatim>\<open>dedup\<close>. On a totally
  ordered element type an unstable sort returns the same vector as a stable one, and \<^verbatim>\<open>dedup\<close>
  drops adjacent repetitions, which is \<^const>\<open>remdups_adj\<close>.
\<close>

definition sort_dedup :: "'a::linorder list \<Rightarrow> 'a list" where
  "sort_dedup xs = remdups_adj (sort xs)"

lemma strict_sorted_remdups_adj: "sorted xs \<Longrightarrow> sorted_wrt (<) (remdups_adj xs)"
proof (induction xs rule: remdups_adj.induct)
  case (3 x y xs)
  then show ?case by (cases "x = y") (auto simp: less_le)
qed auto

lemma set_sort_dedup [simp]: "set (sort_dedup xs) = set xs"
  by (simp add: sort_dedup_def)

lemma sorted_sort_dedup [simp]: "sorted_wrt (<) (sort_dedup xs)"
  by (simp add: sort_dedup_def strict_sorted_remdups_adj)

lemma distinct_sort_dedup [simp]: "distinct (sort_dedup xs)"
  using sorted_sort_dedup [of xs] strict_sorted_iff by blast

lemma strict_sorted_unique:
  fixes xs :: "'a::linorder list"
  assumes "sorted_wrt (<) xs" and "sorted_wrt (<) ys" and "set xs = set ys"
  shows "xs = ys"
  using assms by (metis strict_sorted_iff sorted_distinct_set_unique)

lemma sort_dedup_id: "sorted_wrt (<) xs \<Longrightarrow> sort_dedup xs = xs"
  by (rule strict_sorted_unique) auto

section \<open>Parent functions and their roots\<close>

definition decreasing :: "('a::order \<Rightarrow> 'a option) \<Rightarrow> bool" where
  "decreasing par \<longleftrightarrow> (\<forall>k p. par k = Some p \<longrightarrow> p < k)"

lemma decreasingD: "decreasing par \<Longrightarrow> par k = Some p \<Longrightarrow> p < k"
  by (simp add: decreasing_def)

lemma decreasing_empty [simp]: "decreasing (\<lambda>_. None)"
  by (simp add: decreasing_def)

lemma decreasing_upd: "decreasing par \<Longrightarrow> q < x \<Longrightarrow> decreasing (par(x \<mapsto> q))"
  by (auto simp: decreasing_def)

text \<open>The end of the chain that starts at a node: the component representative.\<close>

function root_of :: "('a::wellorder \<Rightarrow> 'a option) \<Rightarrow> 'a \<Rightarrow> 'a" where
  "root_of par x = (case par x of None \<Rightarrow> x | Some p \<Rightarrow> if p < x then root_of par p else x)"
  by pat_completeness auto
termination
  by (relation "inv_image {(x, y). x < y} snd") (auto simp: wf)

declare root_of.simps [simp del]

lemma root_of_None [root_rules]: "par x = None \<Longrightarrow> root_of par x = x"
  by (simp add: root_of.simps [of par x])

lemma root_of_empty [simp]: "root_of (\<lambda>_. None) = (\<lambda>x. x)"
  by (simp add: root_of_None fun_eq_iff)

lemma root_of_Some [root_rules]:
  "decreasing par \<Longrightarrow> par x = Some p \<Longrightarrow> root_of par x = root_of par p"
  by (auto simp: root_of.simps [of par x] dest: decreasingD)

lemma root_of_le: "root_of par x \<le> x"
proof (induction par x rule: root_of.induct)
  case (1 par x)
  show ?case
  proof (cases "par x")
    case None
    then show ?thesis by (simp add: root_of_None)
  next
    case (Some p)
    show ?thesis
    proof (cases "p < x")
      case True
      with Some 1 have "root_of par p \<le> p" by blast
      with True Some show ?thesis by (auto simp: root_of.simps [of par x])
    next
      case False
      with Some show ?thesis by (simp add: root_of.simps [of par x])
    qed
  qed
qed

text \<open>Induction along a decreasing chain, the rule the union-find proofs use.\<close>

lemma chain_induct [consumes 1, case_names root step]:
  assumes "decreasing par"
    and "\<And>x. par x = None \<Longrightarrow> P x"
    and "\<And>x p. par x = Some p \<Longrightarrow> p < x \<Longrightarrow> P p \<Longrightarrow> P x"
  shows "P (x :: 'a::wellorder)"
proof (induction x rule: less_induct)
  case (less x)
  show ?case
  proof (cases "par x")
    case None
    then show ?thesis by (rule assms(2))
  next
    case (Some p)
    with assms(1) have "p < x" by (rule decreasingD)
    with Some less show ?thesis by (blast intro: assms(3))
  qed
qed

lemma root_of_is_root [root_rules]:
  assumes dec: "decreasing par"
  shows "par (root_of par x) = None"
  using dec
proof (induction x rule: chain_induct)
  case (root x)
  then show ?case by (simp add: root_of_None)
next
  case (step x p)
  then show ?case by (simp add: root_of_Some [OF dec])
qed

lemma root_of_idem [root_rules]:
  "decreasing par \<Longrightarrow> root_of par (root_of par x) = root_of par x"
  by (simp add: root_of_None root_of_is_root)

lemma root_of_eq_self_iff: "decreasing par \<Longrightarrow> root_of par x = x \<longleftrightarrow> par x = None"
  by (metis root_of_None root_of_is_root)

lemma root_of_less: "decreasing par \<Longrightarrow> par x = Some p \<Longrightarrow> root_of par x < x"
  by (metis root_of_Some root_of_le decreasingD order_le_less_trans)

lemma root_of_eqI:
  "decreasing par \<Longrightarrow> root_of par x = r \<Longrightarrow> root_of par r = r"
  by (auto simp: root_of_idem)

subsection \<open>Linking two roots\<close>

lemma root_of_link:
  assumes dec: "decreasing par" and c: "par c = None" and p: "par p = None" and less: "p < c"
  shows "root_of (par(c \<mapsto> p)) x = (if root_of par x = c then p else root_of par x)"
proof -
  define par' where "par' = par(c \<mapsto> p)"
  have dec': "decreasing par'"
    unfolding par'_def using dec less by (rule decreasing_upd)
  have at: "par' c = Some p" and other: "\<And>y. y \<noteq> c \<Longrightarrow> par' y = par y"
    by (auto simp: par'_def)
  have p': "root_of par' p = p"
    using p less other by (simp add: root_of_None)
  have "root_of par' x = (if root_of par x = c then p else root_of par x)"
    using dec
  proof (induction x rule: chain_induct)
    case (root x)
    then show ?case
      using root_of_Some [OF dec' at] p' other by (cases "x = c") (auto simp: root_of_None)
  next
    case (step x q)
    with c have "x \<noteq> c" by auto
    with step show ?case
      using root_of_Some [OF dec', of x q] root_of_Some [OF dec, of x q] other by simp
  qed
  then show ?thesis by (simp only: par'_def)
qed

subsection \<open>Pointing a node at another member of its tree\<close>

text \<open>
  Path halving and the query path's repair write replace the parent of a node by a smaller node
  with the same root. Nothing else has to be known about the new parent: it need not be an
  ancestor on the current chain, which is what makes a late repair write harmless.
\<close>

lemma root_of_shortcut:
  assumes dec: "decreasing par" and less: "q < x" and same: "root_of par q = root_of par x"
  shows "root_of (par(x \<mapsto> q)) y = root_of par y"
proof -
  define par' where "par' = par(x \<mapsto> q)"
  have dec': "decreasing par'"
    unfolding par'_def using dec less by (rule decreasing_upd)
  have at: "par' x = Some q" and other: "\<And>y. y \<noteq> x \<Longrightarrow> par' y = par y"
    by (auto simp: par'_def)
  have below: "z < x \<longrightarrow> root_of par' z = root_of par z" for z
    using dec
  proof (induction z rule: chain_induct)
    case (root z)
    then show ?case using other by (auto simp: root_of_None)
  next
    case (step z p)
    then show ?case
      using root_of_Some [OF dec', of z p] root_of_Some [OF dec, of z p] other by auto
  qed
  have at_x: "root_of par' x = root_of par x"
    using same below less root_of_Some [OF dec' at] by simp
  have "root_of par' y = root_of par y"
    using dec
  proof (induction y rule: chain_induct)
    case (root y)
    then show ?case using at_x other by (cases "y = x") (auto simp: root_of_None)
  next
    case (step y p)
    then show ?case
      using root_of_Some [OF dec', of y p] root_of_Some [OF dec, of y p] at_x other
      by (cases "y = x") auto
  qed
  then show ?thesis by (simp only: par'_def)
qed

section \<open>Representatives and merging two classes\<close>

text \<open>
  A representative function maps a node to the smallest node of its class. Merging the classes of
  two nodes keeps the smaller of the two representatives.
\<close>

definition merge_rep :: "('a \<Rightarrow> 'b::linorder) \<Rightarrow> 'a \<Rightarrow> 'a \<Rightarrow> 'a \<Rightarrow> 'b" where
  "merge_rep f u v x = (if f x = f u \<or> f x = f v then min (f u) (f v) else f x)"

lemma merge_rep_same [simp]: "f u = f v \<Longrightarrow> merge_rep f u v = f"
  by (auto simp: merge_rep_def)

lemma merge_rep_commute: "merge_rep f u v = merge_rep f v u"
  by (auto simp: merge_rep_def min.commute)

lemma merge_rep_le: "merge_rep f u v x \<le> f x"
  by (auto simp: merge_rep_def)

lemma merge_rep_joins [simp]: "merge_rep f u v u = merge_rep f u v v"
  by (simp add: merge_rep_def)

lemma merge_rep_cong: "f x = f y \<Longrightarrow> merge_rep f u v x = merge_rep f u v y"
  by (simp add: merge_rep_def)

text \<open>Linking the larger root under the smaller one merges the two classes.\<close>

lemma root_of_link_merge_rep:
  assumes dec: "decreasing par" and a: "root_of par u = a" and b: "root_of par v = b"
    and ne: "a \<noteq> b"
  shows "root_of (par(max a b \<mapsto> min a b)) = merge_rep (root_of par) u v"
proof
  fix x
  have "par a = None" and "par b = None"
    using root_of_is_root [OF dec, of u] root_of_is_root [OF dec, of v] a b by simp_all
  then have "par (max a b) = None" "par (min a b) = None" "min a b < max a b"
    using ne by (auto simp: max_def min_def)
  from root_of_link [OF dec this, of x]
  show "root_of (par(max a b \<mapsto> min a b)) x = merge_rep (root_of par) u v x"
    using a b ne by (auto simp: merge_rep_def max_def min_def)
qed

section \<open>A parent function layered over a resolved one\<close>

text \<open>
  Newer state over committed state: \<open>q\<close> is the committed layer, fully resolved, and the newer
  layer \<open>p\<close> mentions only nodes that \<open>q\<close> stores no parent for. Then a probe of \<open>q\<close> followed by a
  walk of \<open>p\<close> is the walk of the two layers together.
\<close>

definition layered :: "('a::order \<Rightarrow> 'a option) \<Rightarrow> ('a \<Rightarrow> 'a option) \<Rightarrow> bool" where
  "layered q p \<longleftrightarrow> decreasing q \<and> decreasing p \<and> ran q \<inter> dom q = {} \<and> dom p \<inter> dom q = {} \<and>
     ran p \<inter> dom q = {}"

lemma layeredD:
  assumes "layered q p"
  shows "decreasing q" and "decreasing p" and "decreasing (q ++ p)"
  using assms by (auto simp: layered_def decreasing_def map_add_Some_iff)

lemma layered_empty [simp]: "layered Map.empty p \<longleftrightarrow> decreasing p"
  "layered q Map.empty \<longleftrightarrow> decreasing q \<and> ran q \<inter> dom q = {}"
  by (auto simp: layered_def decreasing_def)

lemma layered_off:
  assumes "layered q p" and "q x = None"
  shows "root_of (q ++ p) x = root_of p x"
proof -
  have dec: "decreasing p" and dec': "decreasing (q ++ p)"
    using layeredD [OF assms(1)] by simp_all
  have "q x = None \<longrightarrow> root_of (q ++ p) x = root_of p x"
    using dec
  proof (induction x rule: chain_induct)
    case (root x)
    then show ?case by (simp add: root_of_None map_add_def)
  next
    case (step x y)
    then have "q y = None"
      using assms(1) by (auto simp: layered_def ran_def dom_def)
    with step show ?case
      using root_of_Some [OF dec, of x y] root_of_Some [OF dec', of x y] by (simp add: map_add_def)
  qed
  with assms(2) show ?thesis by simp
qed

lemma layered_root:
  assumes "layered q p"
  shows "root_of (q ++ p) x = (case q x of None \<Rightarrow> root_of p x | Some b \<Rightarrow> root_of p b)"
proof (cases "q x")
  case (Some b)
  then have "p x = None" "q b = None"
    using assms by (auto simp: layered_def ran_def dom_def)
  with Some have "root_of (q ++ p) x = root_of (q ++ p) b"
    by (intro root_of_Some layeredD(3) [OF assms]) (simp add: map_add_def)
  then show ?thesis using Some \<open>q b = None\<close> layered_off [OF assms] by simp
qed (simp add: layered_off [OF assms])

lemma layered_link:
  assumes l: "layered q p" and c: "(q ++ p) c = None" and d: "(q ++ p) d = None" and less: "d < c"
  shows "layered q (p(c \<mapsto> d))"
proof -
  have "q c = None" "q d = None" using c d by (auto simp: map_add_def split: option.splits)
  then show ?thesis
    using l less by (auto simp: layered_def decreasing_def ran_def dom_def split: if_splits)
qed

lemma layered_compress:
  assumes "layered q p" and "decreasing p'" and "dom p' = dom p" and "ran p' \<subseteq> ran p"
    and "root_of p' = root_of p"
  shows "layered q p'" and "root_of (q ++ p') = root_of (q ++ p)"
proof -
  show l: "layered q p'" using assms by (auto simp: layered_def)
  show "root_of (q ++ p') = root_of (q ++ p)"
    by (rule ext) (simp add: layered_root [OF l] layered_root [OF assms(1)] assms(5) split: option.split)
qed

section \<open>Classes of a representative function\<close>

text \<open>
  A representative function is idempotent and moves down. A node is an \<^emph>\<open>element\<close> when its class
  has another node: for the roots of a parent function these are the nodes the map mentions.
\<close>

definition rep_fun :: "('a::order \<Rightarrow> 'a) \<Rightarrow> bool" where
  "rep_fun r \<longleftrightarrow> (\<forall>x. r (r x) = r x \<and> r x \<le> x)"

definition element :: "('a \<Rightarrow> 'a) \<Rightarrow> 'a \<Rightarrow> bool" where
  "element r x \<longleftrightarrow> (\<exists>y. y \<noteq> x \<and> r y = r x)"

lemma rep_funD: "rep_fun r \<Longrightarrow> r (r x) = r x" "rep_fun r \<Longrightarrow> r x \<le> x"
  by (simp_all add: rep_fun_def)

lemma rep_fun_root_of: "decreasing p \<Longrightarrow> rep_fun (root_of p)"
  by (simp add: rep_fun_def root_of_idem root_of_le)

lemma rep_fun_id [simp]: "rep_fun (\<lambda>x. x)"
  by (simp add: rep_fun_def)

lemma not_elementD:
  assumes "rep_fun r" and "\<not> element r x"
  shows "r x = x" and "r y = x \<Longrightarrow> y = x"
  using assms unfolding rep_fun_def element_def by metis+

lemma element_merge_rep:
  assumes "element (merge_rep r a b) x"
  shows "element r x \<or> r x = r a \<or> r x = r b"
  using assms unfolding element_def merge_rep_def by (auto simp: min_def split: if_splits)

lemma new_element_merge_rep:
  "element (merge_rep r a b) x \<Longrightarrow> \<not> element r x \<Longrightarrow> x = a \<or> x = b"
  using element_merge_rep [of r a b x] unfolding element_def by metis

section \<open>Connectivity: the specification\<close>

definition conn :: "('a \<times> 'a) set \<Rightarrow> ('a \<times> 'a) set" where
  "conn E = (E \<union> E\<inverse>)\<^sup>*"

text \<open>The lowest node of the component of \<open>x\<close> in the graph with edge set \<open>E\<close>.\<close>

definition lowest :: "('a::wellorder \<times> 'a) set \<Rightarrow> 'a \<Rightarrow> 'a" where
  "lowest E x = (LEAST y. (x, y) \<in> conn E)"

lemma conn_refl [simp]: "(x, x) \<in> conn E"
  by (simp add: conn_def)

lemma conn_sym: "(x, y) \<in> conn E \<Longrightarrow> (y, x) \<in> conn E"
  unfolding conn_def by (metis sym_Un_converse sym_rtrancl symD)

lemma conn_trans: "(x, y) \<in> conn E \<Longrightarrow> (y, z) \<in> conn E \<Longrightarrow> (x, z) \<in> conn E"
  unfolding conn_def by (rule rtrancl_trans)

lemma conn_mono: "E \<subseteq> F \<Longrightarrow> conn E \<subseteq> conn F"
  unfolding conn_def by (rule rtrancl_mono) auto

lemma conn_edge: "(u, v) \<in> E \<Longrightarrow> (u, v) \<in> conn E"
  unfolding conn_def by auto

lemma lowest_conn: "(x, lowest E x) \<in> conn E"
  unfolding lowest_def by (rule LeastI [of _ x]) simp

lemma lowest_least: "(x, y) \<in> conn E \<Longrightarrow> lowest E x \<le> y"
  unfolding lowest_def by (rule Least_le)

lemma conn_iff_lowest: "(x, y) \<in> conn E \<longleftrightarrow> lowest E x = lowest E y"
proof
  assume xy: "(x, y) \<in> conn E"
  have "lowest E x \<le> lowest E y" and "lowest E y \<le> lowest E x"
    using xy lowest_conn conn_sym conn_trans lowest_least by metis+
  then show "lowest E x = lowest E y" by simp
next
  assume "lowest E x = lowest E y"
  then show "(x, y) \<in> conn E"
    by (metis conn_sym conn_trans lowest_conn)
qed

lemma conn_empty: "(x, y) \<in> conn {} \<longleftrightarrow> x = y"
  by (simp add: conn_def)

lemma lowest_empty [simp]: "lowest {} x = x"
  by (simp add: lowest_def conn_empty Least_equality)

lemma conn_insert:
  "(x, y) \<in> conn (insert (u, v) E) \<longleftrightarrow>
     (x, y) \<in> conn E \<or> (x, u) \<in> conn E \<and> (v, y) \<in> conn E \<or> (x, v) \<in> conn E \<and> (u, y) \<in> conn E"
    (is "?L \<longleftrightarrow> ?R x y")
proof
  assume ?L
  then have "(x, y) \<in> (insert (u, v) E \<union> (insert (u, v) E)\<inverse>)\<^sup>*"
    by (simp add: conn_def)
  then show "?R x y"
  proof (induction rule: rtrancl_induct)
    case base
    then show ?case by simp
  next
    case (step y z)
    from step.hyps(2) consider "(y, z) \<in> conn E" | "y = u" "z = v" | "y = v" "z = u"
      by (auto simp: conn_def)
    then show ?case
      using step.IH by cases (meson conn_refl conn_sym conn_trans)+
  qed
next
  assume R: "?R x y"
  have E: "(a, b) \<in> conn E \<Longrightarrow> (a, b) \<in> conn (insert (u, v) E)" for a b
    using conn_mono [of E "insert (u, v) E"] by auto
  have uv: "(u, v) \<in> conn (insert (u, v) E)"
    by (rule conn_edge) simp
  from R show ?L
    by (meson E uv conn_sym conn_trans)
qed

text \<open>Adding an edge merges the classes of its endpoints and nothing else.\<close>

lemma lowest_idem [simp]: "lowest E (lowest E x) = lowest E x"
  using conn_iff_lowest lowest_conn by metis

lemma lowest_insert: "lowest (insert (u, v) E) = merge_rep (lowest E) u v"
proof
  fix x
  let ?E = "insert (u, v) E"
  let ?m = "merge_rep (lowest E) u v x"
  have "(x, ?m) \<in> conn ?E"
    unfolding merge_rep_def min_def conn_insert
    by (auto simp: conn_iff_lowest)
  moreover have "?m \<le> y" if "(x, y) \<in> conn ?E" for y
  proof -
    from that have "lowest E y \<in> {lowest E x, lowest E u, lowest E v}"
      and "lowest E y \<noteq> lowest E x \<Longrightarrow> lowest E x \<in> {lowest E u, lowest E v}"
      unfolding conn_insert by (auto simp: conn_iff_lowest)
    moreover have "lowest E y \<le> y"
      by (rule lowest_least) simp
    ultimately show ?thesis
      by (auto simp: merge_rep_def min_def)
  qed
  ultimately show "lowest ?E x = ?m"
    unfolding lowest_def [of ?E] by (rule Least_equality)
qed

lemma lowest_le: "lowest E x \<le> x"
  by (rule lowest_least) simp

lemma rep_fun_lowest: "rep_fun (lowest E)"
  by (simp add: rep_fun_def lowest_le)

lemma rep_fun_merge_rep: "rep_fun r \<Longrightarrow> rep_fun (merge_rep r u v)"
  using merge_rep_le [of r u v]
  by (auto simp: rep_fun_def intro: order_trans) (auto simp: merge_rep_def min_def)

end
