(* ===== verification/Types.thy ===== *)
theory Types
  imports Blaze_Prelude
begin

text \<open>
  The identifier types and the edge event of \<^verbatim>\<open>src/core/types.rs\<close>. A visibility is either global
  or a list of scopes; \<open>normalize\<close> brings it into the canonical form the rest of the program works
  on. The lemmas say that the canonical form is canonical and that it shows the edge to exactly
  the same scopes.
\<close>

type_synonym node_id = u64
type_synonym scope_id = u32

definition GLOBAL_SCOPE :: scope_id where
  "GLOBAL_SCOPE = 0"

datatype visibility = Global | Scoped "scope_id list"

fun normalize :: "visibility \<Rightarrow> visibility" where
  "normalize (Scoped s) =
     (if s = [] \<or> GLOBAL_SCOPE \<in> set s then Global else Scoped (sort_dedup s))"
| "normalize Global = Global"

record edge_event =
  src :: node_id
  dst :: node_id
  ev_visibility :: visibility
  event_time_ms :: i64
  props :: "string option"

section \<open>Who sees an edge\<close>

text \<open>
  The documented contract: an empty list and a list holding the global scope mean global, and a
  global edge is seen by every scope.
\<close>

fun visible_to :: "visibility \<Rightarrow> scope_id \<Rightarrow> bool" where
  "visible_to Global s = True"
| "visible_to (Scoped ss) s = (ss = [] \<or> GLOBAL_SCOPE \<in> set ss \<or> s \<in> set ss)"

fun canonical :: "visibility \<Rightarrow> bool" where
  "canonical Global = True"
| "canonical (Scoped ss) = (ss \<noteq> [] \<and> GLOBAL_SCOPE \<notin> set ss \<and> sorted_wrt (<) ss)"

lemma canonical_normalize [simp]: "canonical (normalize v)"
proof (cases v)
  case (Scoped s)
  then show ?thesis
    by (auto simp: set_empty [symmetric] simp del: set_empty)
qed simp

lemma visible_to_normalize [simp]: "visible_to (normalize v) s = visible_to v s"
proof (cases v)
  case (Scoped ss)
  then show ?thesis
    by (auto simp: set_empty [symmetric] simp del: set_empty)
qed simp

lemma normalize_canonical: "canonical v \<Longrightarrow> normalize v = v"
  by (cases v) (auto simp: sort_dedup_id)

lemma normalize_ScopedD:
  "normalize v = Scoped ss \<Longrightarrow> ss \<noteq> [] \<and> GLOBAL_SCOPE \<notin> set ss \<and> distinct ss"
  using canonical_normalize [of v] strict_sorted_iff by (auto simp del: canonical_normalize)

text \<open>
  Two visibilities that show an edge to the same scopes have the same canonical form, so no two
  spellings of one visibility can produce different rows or unions downstream.
\<close>

lemma normalize_eq_iff:
  "normalize v = normalize w \<longleftrightarrow> (\<forall>s. visible_to v s = visible_to w s)"
proof
  assume "normalize v = normalize w"
  then show "\<forall>s. visible_to v s = visible_to w s"
    by (metis visible_to_normalize)
next
  assume same: "\<forall>s. visible_to v s = visible_to w s"
  have "canonical a \<Longrightarrow> canonical b \<Longrightarrow> \<forall>s. visible_to a s = visible_to b s \<Longrightarrow> a = b" for a b
  proof (cases a; cases b)
    fix ss assume "canonical a" "\<forall>s. visible_to a s = visible_to b s" "a = Global" "b = Scoped ss"
    then show "canonical b \<Longrightarrow> a = b" by (auto dest: spec [of _ GLOBAL_SCOPE])
  next
    fix ss assume "canonical a" "\<forall>s. visible_to a s = visible_to b s" "a = Scoped ss" "b = Global"
    then show "canonical b \<Longrightarrow> a = b" by (auto dest: spec [of _ GLOBAL_SCOPE])
  next
    fix ss ts assume "canonical a" "canonical b" "\<forall>s. visible_to a s = visible_to b s"
      and "a = Scoped ss" "b = Scoped ts"
    then have "set ss = set ts" "sorted_wrt (<) ss" "sorted_wrt (<) ts" by auto
    with \<open>a = Scoped ss\<close> \<open>b = Scoped ts\<close> show "a = b"
      by (simp add: strict_sorted_unique)
  qed auto
  then show "normalize v = normalize w" using same by simp
qed

end
