(* ===== verification/Dsu.thy ===== *)
theory Dsu
  imports Types
begin

text \<open>
  The union-find of \<^verbatim>\<open>src/core/dsu.rs\<close>. The concurrent hash maps are finite maps; a walk that
  follows a chain of parents is a \<^theory_text>\<open>partial_function (option)\<close>, so that a walk that never
  ends is the value \<^const>\<open>None\<close> and its termination is a theorem. Operations that write (path
  halving, the repair write of the query path) return the new structure.

  The file shows that every walk returns the lowest id of the component, that the writes of the
  walks change no answer, and that a union merges exactly two components. These laws are the
  interface the forest relies on, stated as the locale \<open>disjoint_sets\<close> and interpreted on the
  definitions below. A last section lets readers race the writer one probe at a time.
\<close>

section \<open>The structure and its operations\<close>

definition RO_COMPRESS_DEPTH :: nat where
  "RO_COMPRESS_DEPTH = 8"

record merge =
  m_child :: node_id
  m_parent :: node_id

record dsu =
  parents :: "(node_id, node_id) fmap"
  children :: "(node_id, node_id list) fmap option"
  merges :: u64

definition dsu_new :: dsu where
  "dsu_new = \<lparr>parents = fmempty, children = None, merges = 0\<rparr>"

definition tracking_members :: "bool \<Rightarrow> dsu" where
  "tracking_members track = dsu_new\<lparr>children := (if track then Some fmempty else None)\<rparr>"

definition tracks_members :: "dsu \<Rightarrow> bool" where
  "tracks_members d = (children d \<noteq> None)"

definition children_of :: "dsu \<Rightarrow> node_id \<Rightarrow> nat \<Rightarrow> node_id list \<Rightarrow> node_id list" where
  "children_of d parent limit out =
     (case children d of
        None \<Rightarrow> out
      | Some ch \<Rightarrow> (case fmlookup ch parent of
            None \<Rightarrow> out
          | Some kids \<Rightarrow> out @ take (min (length kids) limit) kids))"

definition link :: "dsu \<Rightarrow> node_id \<Rightarrow> node_id \<Rightarrow> dsu" where
  "link d child parent =
     d\<lparr>parents := fmupd child parent (parents d),
       children := map_option
         (\<lambda>ch. fmupd parent ((case fmlookup ch parent of None \<Rightarrow> [] | Some kids \<Rightarrow> kids) @ [child]) ch)
         (children d)\<rparr>"

text \<open>The write path: path halving.\<close>

partial_function (option) dsu_find :: "dsu \<Rightarrow> node_id \<Rightarrow> (node_id \<times> dsu) option" where
  "dsu_find d x =
     (case fmlookup (parents d) x of
        None \<Rightarrow> Some (x, d)
      | Some p \<Rightarrow> (case fmlookup (parents d) p of
            None \<Rightarrow> Some (p, d)
          | Some gp \<Rightarrow> dsu_find (d\<lparr>parents := fmupd x gp (parents d)\<rparr>) gp))"

declare dsu_find.simps [code]

text \<open>The query path: a read-only walk that counts its steps, then at most one repair write.\<close>

partial_function (option) ro_walk ::
  "(node_id, node_id) fmap \<Rightarrow> node_id \<Rightarrow> nat \<Rightarrow> (node_id \<times> nat) option" where
  "ro_walk ps cur depth =
     (case fmlookup ps cur of
        None \<Rightarrow> Some (cur, depth)
      | Some p \<Rightarrow> ro_walk ps p (depth + 1))"

declare ro_walk.simps [code]

definition find_ro :: "dsu \<Rightarrow> node_id \<Rightarrow> (node_id \<times> dsu) option" where
  "find_ro d x =
     do { (cur, depth) \<leftarrow> ro_walk (parents d) x 0;
          if depth > RO_COMPRESS_DEPTH
          then Some (cur, d\<lparr>parents := fmupd x cur (parents d)\<rparr>)
          else Some (cur, d) }"

definition dsu_union :: "dsu \<Rightarrow> node_id \<Rightarrow> node_id \<Rightarrow> (merge option \<times> dsu) option" where
  "dsu_union d u v =
     do { (ru, d) \<leftarrow> dsu_find d u;
          (rv, d) \<leftarrow> dsu_find d v;
          if ru = rv then Some (None, d)
          else let (child, parent) = (if ru < rv then (rv, ru) else (ru, rv));
                   d = link d child parent;
                   d = d\<lparr>merges := merges d + 1\<rparr>
               in Some (Some \<lparr>m_child = child, m_parent = parent\<rparr>, d) }"

definition dsu_connected :: "dsu \<Rightarrow> node_id \<Rightarrow> node_id \<Rightarrow> (bool \<times> dsu) option" where
  "dsu_connected d u v =
     do { (ru, d) \<leftarrow> find_ro d u; (rv, d) \<leftarrow> find_ro d v; Some (ru = rv, d) }"

definition len_links :: "dsu \<Rightarrow> nat" where
  "len_links d = fcard (fmdom (parents d))"

text \<open>
  The hash map yields its keys in an unspecified order. The callers that look at the order sort
  the vector first, so the model lists the keys in ascending order.
\<close>

definition dsu_keys :: "dsu \<Rightarrow> node_id list" where
  "dsu_keys d = sorted_list_of_fset (fmdom (parents d))"

fun snapshot_keys :: "dsu \<Rightarrow> node_id list \<Rightarrow> ((node_id \<times> node_id) list \<times> dsu) option" where
  "snapshot_keys d [] = Some ([], d)"
| "snapshot_keys d (k # ks) =
     do { (r, d) \<leftarrow> dsu_find d k; (rest, d) \<leftarrow> snapshot_keys d ks; Some ((k, r) # rest, d) }"

definition dsu_snapshot :: "dsu \<Rightarrow> ((node_id \<times> node_id) list \<times> dsu) option" where
  "dsu_snapshot d = snapshot_keys d (dsu_keys d)"

fun hydrate_links :: "dsu \<Rightarrow> (node_id \<times> node_id) list \<Rightarrow> dsu" where
  "hydrate_links d [] = d"
| "hydrate_links d ((node, root) # rest) =
     hydrate_links (if node \<noteq> root then link d node root else d) rest"

definition dsu_hydrate :: "dsu \<Rightarrow> (node_id \<times> node_id) list \<Rightarrow> dsu" where
  "dsu_hydrate d pairs =
     (let d = hydrate_links d pairs in d\<lparr>merges := word_of_nat (len_links d)\<rparr>)"

section \<open>Well-formedness, and what a compressing write may change\<close>

abbreviation par :: "dsu \<Rightarrow> node_id \<Rightarrow> node_id option" where
  "par d \<equiv> fmlookup (parents d)"

abbreviation rep :: "dsu \<Rightarrow> node_id \<Rightarrow> node_id" where
  "rep d \<equiv> root_of (par d)"

definition dsu_ok :: "dsu \<Rightarrow> bool" where
  "dsu_ok d \<longleftrightarrow> decreasing (par d)"

text \<open>A compressed structure has the same keys, the same representatives and the same counters.\<close>

definition compresses :: "dsu \<Rightarrow> dsu \<Rightarrow> bool" where
  "compresses d d' \<longleftrightarrow>
     dsu_ok d' \<and> dom (par d') = dom (par d) \<and> ran (par d') \<subseteq> ran (par d) \<and> rep d' = rep d \<and>
     children d' = children d \<and> merges d' = merges d"

lemma compresses_refl: "dsu_ok d \<Longrightarrow> compresses d d"
  by (simp add: compresses_def)

lemma compresses_trans: "compresses a b \<Longrightarrow> compresses b c \<Longrightarrow> compresses a c"
  by (auto simp: compresses_def)

lemma compressesD:
  assumes "compresses d d'"
  shows "dsu_ok d'" and "rep d' = rep d" and "dom (par d') = dom (par d)"
    and "ran (par d') \<subseteq> ran (par d)"
  using assms by (simp_all add: compresses_def)

lemma compresses_shortcut:
  assumes ok: "dsu_ok d" and x: "par d x \<noteq> None" and q: "q \<in> ran (par d)"
    and less: "q < x" and same: "rep d q = rep d x"
  shows "compresses d (d\<lparr>parents := fmupd x q (parents d)\<rparr>)"
proof -
  have dec: "decreasing (par d)" using ok by (simp add: dsu_ok_def)
  have "root_of ((par d)(x \<mapsto> q)) = rep d"
    using root_of_shortcut [OF dec less same] by (rule ext)
  moreover have "decreasing ((par d)(x \<mapsto> q))"
    using dec less by (rule decreasing_upd)
  moreover have "ran ((par d)(x \<mapsto> q)) \<subseteq> ran (par d)"
    using q by (auto simp: ran_def split: if_splits)
  moreover have "dom ((par d)(x \<mapsto> q)) = dom (par d)"
    using x by (auto simp: fmdom'I)
  ultimately show ?thesis
    by (simp add: compresses_def dsu_ok_def fmupd.rep_eq map_upd_def)
qed

section \<open>The walks return the representative\<close>

lemma dsu_find_spec:
  assumes "dsu_ok d"
  shows "\<exists>d'. dsu_find d x = Some (rep d x, d') \<and> compresses d d'"
  using assms
proof (induction x arbitrary: d rule: less_induct)
  case (less x)
  then have dec: "decreasing (par d)" by (simp add: dsu_ok_def)
  show ?case
  proof (cases "par d x")
    case None
    with less.prems show ?thesis
      by (simp add: dsu_find.simps [of d x] root_of_None compresses_refl)
  next
    case (Some p)
    show ?thesis
    proof (cases "par d p")
      case None
      with Some dec less.prems show ?thesis
        by (simp add: dsu_find.simps [of d x] root_of_None root_of_Some compresses_refl)
    next
      case (Some gp)
      let ?d = "d\<lparr>parents := fmupd x gp (parents d)\<rparr>"
      have "gp < x"
        using decreasingD [OF dec] \<open>par d x = Some p\<close> Some by (meson order_less_trans)
      moreover have "rep d gp = rep d x"
        using \<open>par d x = Some p\<close> Some dec by (simp add: root_of_Some)
      ultimately have c: "compresses d ?d"
        using Some \<open>par d x = Some p\<close> less.prems by (intro compresses_shortcut) (auto simp: ran_def)
      from less.IH [OF \<open>gp < x\<close> compressesD(1) [OF c]]
      obtain d' where "dsu_find ?d gp = Some (rep ?d gp, d')" "compresses ?d d'" by blast
      moreover have "rep ?d gp = rep d x"
        using compressesD(2) [OF c] \<open>rep d gp = rep d x\<close> by simp
      moreover have "dsu_find d x = dsu_find ?d gp"
        using Some \<open>par d x = Some p\<close> by (simp add: dsu_find.simps [of d x])
      ultimately show ?thesis
        using c by (auto intro: compresses_trans)
    qed
  qed
qed

lemma ro_walk_spec:
  assumes "decreasing (fmlookup ps)"
  shows "\<exists>k. ro_walk ps x n = Some (root_of (fmlookup ps) x, n + k) \<and>
     (k = 0 \<longleftrightarrow> fmlookup ps x = None)"
  using assms
proof (induction x arbitrary: n rule: chain_induct)
  case (root x)
  then show ?case by (simp add: ro_walk.simps [of ps x] root_of_None)
next
  case (step x p)
  from step.IH [of "n + 1"]
  obtain k where "ro_walk ps p (n + 1) = Some (root_of (fmlookup ps) p, n + 1 + k)" by blast
  with step.hyps show ?case
    using root_of_Some [OF assms step.hyps(1)]
    by (intro exI [of _ "k + 1"]) (simp add: ro_walk.simps [of ps x])
qed

lemma root_in_ran:
  assumes dec: "decreasing p" and x: "p x \<noteq> None"
  shows "root_of p x \<in> ran p"
proof -
  have "p x \<noteq> None \<longrightarrow> root_of p x \<in> ran p"
    using dec
  proof (induction x rule: chain_induct)
    case (step x q)
    then show ?case
      using root_of_Some [OF dec step.hyps(1)]
      by (cases "p q") (auto simp: root_of_None ran_def)
  qed simp
  with x show ?thesis by simp
qed

lemma find_ro_spec:
  assumes ok: "dsu_ok d"
  shows "\<exists>d'. find_ro d x = Some (rep d x, d') \<and> compresses d d'"
proof -
  have dec: "decreasing (par d)" using ok by (simp add: dsu_ok_def)
  from ro_walk_spec [OF dec, of x 0] obtain k where
    walk: "ro_walk (parents d) x 0 = Some (rep d x, k)" and k: "k = 0 \<longleftrightarrow> par d x = None" by auto
  show ?thesis
  proof (cases "k > RO_COMPRESS_DEPTH")
    case True
    with k have x: "par d x \<noteq> None" by auto
    then have "rep d x < x" using root_of_less [OF dec] by auto
    then have "compresses d (d\<lparr>parents := fmupd x (rep d x) (parents d)\<rparr>)"
      using ok x root_in_ran [OF dec x] root_of_idem [OF dec] by (intro compresses_shortcut) auto
    with True walk show ?thesis by (simp add: find_ro_def)
  next
    case False
    with walk ok show ?thesis by (simp add: find_ro_def compresses_refl)
  qed
qed

section \<open>Linking and union\<close>

lemma par_link [simp]: "par (link d c p) = (par d)(c \<mapsto> p)"
  by (auto simp: link_def)

lemma par_merges_upd [simp]: "par (d\<lparr>merges := n\<rparr>) = par d"
  by simp

lemma dsu_ok_link: "dsu_ok d \<Longrightarrow> p < c \<Longrightarrow> dsu_ok (link d c p)"
  unfolding dsu_ok_def par_link by (rule decreasing_upd)

text \<open>What a union that joined two components did, in terms of the parent function.\<close>

lemma union_spec:
  assumes ok: "dsu_ok d"
  shows "rep d u = rep d v \<Longrightarrow> \<exists>d'. dsu_union d u v = Some (None, d') \<and> compresses d d'"
    and "rep d u \<noteq> rep d v \<Longrightarrow>
      \<exists>d1 d'. compresses d d1 \<and>
        dsu_union d u v = Some (Some \<lparr>m_child = max (rep d u) (rep d v),
                                   m_parent = min (rep d u) (rep d v)\<rparr>, d') \<and>
        d' = (link d1 (max (rep d u) (rep d v)) (min (rep d u) (rep d v)))
               \<lparr>merges := merges d + 1\<rparr>"
proof -
  from dsu_find_spec [OF ok, of u] obtain da where
    fu: "dsu_find d u = Some (rep d u, da)" and ca: "compresses d da" by blast
  from dsu_find_spec [OF compressesD(1) [OF ca], of v] obtain db where
    fv: "dsu_find da v = Some (rep d v, db)" and cb: "compresses da db"
    using compressesD(2) [OF ca] by auto
  have c: "compresses d db" using ca cb by (rule compresses_trans)
  then have mb: "merges (link db a b) = merges d" for a b
    by (simp add: link_def compresses_def)
  show "\<exists>d'. dsu_union d u v = Some (None, d') \<and> compresses d d'" if "rep d u = rep d v"
    using fu fv c that by (simp add: dsu_union_def)
  show "\<exists>d1 d'. compresses d d1 \<and>
        dsu_union d u v = Some (Some \<lparr>m_child = max (rep d u) (rep d v),
                                   m_parent = min (rep d u) (rep d v)\<rparr>, d') \<and>
        d' = (link d1 (max (rep d u) (rep d v)) (min (rep d u) (rep d v)))
               \<lparr>merges := merges d + 1\<rparr>" if "rep d u \<noteq> rep d v"
    using fu fv c that mb by (auto simp: dsu_union_def max_def min_def Let_def intro!: exI [of _ db])
qed

lemma union_total: "dsu_ok d \<Longrightarrow> \<exists>m d'. dsu_union d u v = Some (m, d')"
  using union_spec by blast

text \<open>
  The effect of a union on the representatives, on well-formedness and on the set of nodes the
  structure mentions.
\<close>

lemma union_rep:
  assumes ok: "dsu_ok d" and u: "dsu_union d u v = Some (m, d')"
  defines "a \<equiv> rep d u" and "b \<equiv> rep d v"
  shows "dsu_ok d' \<and> rep d' = merge_rep (rep d) u v \<and>
    m = (if a = b then None else Some \<lparr>m_child = max a b, m_parent = min a b\<rparr>) \<and>
    dom (par d') = dom (par d) \<union> (if a = b then {} else {max a b}) \<and>
    ran (par d') \<subseteq> ran (par d) \<union> (if a = b then {} else {min a b})"
proof (cases "a = b")
  case True
  with union_spec(1) [OF ok, of u v] u show ?thesis by (auto simp: compresses_def a_def b_def)
next
  case False
  from union_spec(2) [OF ok, of u v] False u obtain d1 where c: "compresses d d1"
    and m: "m = Some \<lparr>m_child = max a b, m_parent = min a b\<rparr>"
    and d': "d' = (link d1 (max a b) (min a b))\<lparr>merges := merges d + 1\<rparr>"
    by (auto simp: a_def b_def)
  have par': "par d' = (par d1)(max a b \<mapsto> min a b)" by (simp add: d')
  have less: "min a b < max a b" using False by (auto simp: min_def max_def)
  have "root_of ((par d1)(max a b \<mapsto> min a b)) = merge_rep (rep d1) u v"
    using c False compressesD(2) [OF c]
    by (intro root_of_link_merge_rep) (auto simp: compresses_def dsu_ok_def a_def b_def)
  then have "rep d' = merge_rep (rep d) u v"
    using compressesD(2) [OF c] by (simp only: par')
  moreover have "dsu_ok d'"
    using c less decreasing_upd [of "par d1" "min a b" "max a b"]
    by (simp add: dsu_ok_def compresses_def par')
  moreover have "dom (par d') = insert (max a b) (dom (par d))"
    unfolding par' using compressesD(3) [OF c] by simp
  moreover have "ran (par d') \<subseteq> insert (min a b) (ran (par d))"
    unfolding par' using compressesD(4) [OF c] by (auto simp: ran_def split: if_splits)
  ultimately show ?thesis using False m by simp
qed

section \<open>The interface of a union-find\<close>

text \<open>
  What a client may rely on: every operation returns, the walks return the representative and
  change no representative, a union merges the classes of its arguments. The client lemma of the
  interface: a structure that starts with singletons and applies a list of edges answers with the
  lowest node of each connected component.
\<close>

locale disjoint_sets =
  fixes invar :: "'d \<Rightarrow> bool"
    and repr :: "'d \<Rightarrow> 'n::wellorder \<Rightarrow> 'n"
    and empty :: "'d"
    and find :: "'d \<Rightarrow> 'n \<Rightarrow> ('n \<times> 'd) option"
    and join :: "'d \<Rightarrow> 'n \<Rightarrow> 'n \<Rightarrow> ('m \<times> 'd) option"
  assumes invar_empty: "invar empty"
    and repr_empty: "repr empty x = x"
    and find_returns: "invar d \<Longrightarrow> \<exists>d'. find d x = Some (repr d x, d')"
    and find_keeps: "invar d \<Longrightarrow> find d x = Some (r, d') \<Longrightarrow> invar d' \<and> repr d' = repr d"
    and join_returns: "invar d \<Longrightarrow> \<exists>m d'. join d u v = Some (m, d')"
    and join_merges: "invar d \<Longrightarrow> join d u v = Some (m, d') \<Longrightarrow>
      invar d' \<and> repr d' = merge_rep (repr d) u v"
begin

fun join_all :: "'d \<Rightarrow> ('n \<times> 'n) list \<Rightarrow> 'd option" where
  "join_all d [] = Some d"
| "join_all d ((u, v) # es) = Option.bind (join d u v) (\<lambda>(_, d'). join_all d' es)"

lemma join_all_lowest:
  assumes "invar d" and "repr d = lowest E"
  shows "\<exists>d'. join_all d es = Some d' \<and> invar d' \<and> repr d' = lowest (E \<union> set es)"
  using assms
proof (induction es arbitrary: d E)
  case (Cons e es)
  obtain u v where e: "e = (u, v)" by (cases e)
  from join_returns [OF Cons.prems(1)] obtain m d1 where j: "join d u v = Some (m, d1)" by blast
  from join_merges [OF Cons.prems(1) j] Cons.prems(2)
  have "invar d1" "repr d1 = lowest (insert (u, v) E)" by (auto simp: lowest_insert)
  from Cons.IH [OF this] show ?case by (auto simp: e j)
qed simp

lemma join_all_components:
  "\<exists>d'. join_all empty es = Some d' \<and> invar d' \<and> repr d' = lowest (set es)"
  using join_all_lowest [OF invar_empty, of "{}" es] by (auto simp: repr_empty fun_eq_iff)

end

lemma dsu_ok_new [simp]: "dsu_ok (tracking_members t)" "dsu_ok dsu_new"
  by (simp_all add: dsu_ok_def decreasing_def tracking_members_def dsu_new_def)

lemma rep_new [simp]: "rep (tracking_members t) x = x"
  by (simp add: tracking_members_def dsu_new_def root_of_None)

interpretation write_path: disjoint_sets dsu_ok rep "tracking_members t" dsu_find dsu_union
proof (unfold_locales, goal_cases)
  case (3 d x)
  then show ?case using dsu_find_spec by blast
next
  case (4 d x r d')
  then show ?case using dsu_find_spec [of d x] by (auto simp: compresses_def)
next
  case (5 d u v)
  then show ?case by (rule union_total)
next
  case (6 d u v m d')
  then show ?case using union_rep by blast
qed simp_all

interpretation query_path: disjoint_sets dsu_ok rep "tracking_members t" find_ro dsu_union
proof (unfold_locales, goal_cases)
  case (3 d x)
  then show ?case using find_ro_spec by blast
next
  case (4 d x r d')
  then show ?case using find_ro_spec [of d x] by (auto simp: compresses_def)
next
  case (5 d u v)
  then show ?case by (rule union_total)
next
  case (6 d u v m d')
  then show ?case using union_rep by blast
qed simp_all

section \<open>Counters\<close>

text \<open>Every merge adds exactly one parent link, so the merge counter is the number of links.\<close>

definition counter_ok :: "dsu \<Rightarrow> bool" where
  "counter_ok d \<longleftrightarrow> merges d = word_of_nat (len_links d)"

lemma len_links_card: "len_links d = card (dom (par d))"
  by (simp add: len_links_def fcard_dom)

lemma compresses_counter: "compresses d d' \<Longrightarrow> counter_ok d \<Longrightarrow> counter_ok d'"
  by (simp add: compresses_def counter_ok_def len_links_card)

lemma union_counter:
  assumes ok: "dsu_ok d" and c: "counter_ok d" and u: "dsu_union d u v = Some (m, d')"
  shows "counter_ok d' \<and> len_links d' = len_links d + (if m = None then 0 else 1)"
proof (cases "rep d u = rep d v")
  case True
  from union_spec(1) [OF ok True] u have "m = None" "compresses d d'" by auto
  with c show ?thesis
    by (simp add: compresses_counter) (simp add: compresses_def len_links_card)
next
  case False
  from union_spec(2) [OF ok False] u have m: "merges d' = merges d + 1" "m \<noteq> None" by auto
  have "par d (max (rep d u) (rep d v)) = None"
    using ok root_of_is_root [of "par d"] by (auto simp: dsu_ok_def max_def)
  then have "max (rep d u) (rep d v) \<notin> dom (par d)" by (simp only: domIff not_not)
  moreover have "dom (par d') = insert (max (rep d u) (rep d v)) (dom (par d))"
    using union_rep [OF ok u] False by simp
  ultimately have "len_links d' = Suc (len_links d)"
    unfolding len_links_card by simp
  with m c show ?thesis by (simp add: counter_ok_def)
qed

section \<open>The downward index\<close>

definition kids :: "dsu \<Rightarrow> node_id \<Rightarrow> node_id list" where
  "kids d p = (case children d of
     None \<Rightarrow> []
   | Some ch \<Rightarrow> (case fmlookup ch p of None \<Rightarrow> [] | Some ks \<Rightarrow> ks))"

lemma take_min_length: "take (min (length xs) n) xs = take n xs"
  by (cases "n \<le> length xs") (simp_all add: min_def)

lemma children_of_kids: "children_of d p limit out = out @ take limit (kids d p)"
  by (simp add: children_of_def kids_def take_min_length split: option.split)

text \<open>
  The merge-edge index: a recorded child is larger than its recorded parent and belongs to the
  same component, every node that was absorbed is recorded, and it is recorded exactly once.
\<close>

definition index_ok :: "dsu \<Rightarrow> bool" where
  "index_ok d \<longleftrightarrow> children d \<noteq> None \<and>
     (\<forall>p c. c \<in> set (kids d p) \<longrightarrow> p < c \<and> rep d p = rep d c \<and> par d c \<noteq> None) \<and>
     (\<forall>c. par d c \<noteq> None \<longrightarrow> (\<exists>!p. c \<in> set (kids d p))) \<and>
     (\<forall>p. distinct (kids d p))"

lemma index_ok_new: "index_ok (tracking_members True)"
  by (simp add: index_ok_def kids_def tracking_members_def dsu_new_def)

lemma compresses_kids: "compresses d d' \<Longrightarrow> kids d' = kids d"
  by (rule ext) (simp add: kids_def compresses_def)

lemma compresses_index:
  assumes c: "compresses d d'" and i: "index_ok d"
  shows "index_ok d'"
proof -
  have "par d' x = None \<longleftrightarrow> par d x = None" for x
    using compressesD(3) [OF c] by (metis domIff)
  with c i show ?thesis
    by (simp add: index_ok_def compresses_kids [OF c] compressesD(2) [OF c]) (simp add: compresses_def)
qed

lemma kids_link:
  "children d \<noteq> None \<Longrightarrow> kids (link d c p) q = (if q = p then kids d p @ [c] else kids d q)"
  by (auto simp: kids_def link_def split: option.split)

lemma kids_merges [simp]: "kids (d\<lparr>merges := n\<rparr>) = kids d"
  by (rule ext) (simp add: kids_def)

lemma index_ok_link:
  assumes ok: "dsu_ok d" and i: "index_ok d" and c: "par d c = None" and p: "par d p = None"
    and less: "p < c"
  shows "index_ok ((link d c p)\<lparr>merges := n\<rparr>)" (is "index_ok ?d")
proof -
  have ch: "children d \<noteq> None" using i by (simp add: index_ok_def)
  have k: "kids ?d q = (if q = p then kids d p @ [c] else kids d q)" for q
    using kids_link [OF ch] by simp
  note k' = k [unfolded kids_merges]
  have fresh: "c \<notin> set (kids d q)" for q
    using i c unfolding index_ok_def by (metis)
  have par': "par ?d = (par d)(c \<mapsto> p)" by simp
  have rep': "rep ?d x = (if rep d x = c then p else rep d x)" for x
    unfolding par' using root_of_link [of "par d" c p x] ok c p less by (simp add: dsu_ok_def)
  have roots: "rep d c = c" "rep d p = p"
    using c p by (simp_all add: root_of_None)
  have old: "q < x \<and> rep d q = rep d x \<and> par d x \<noteq> None" if "x \<in> set (kids d q)" for q x
    using i that unfolding index_ok_def by blast
  have "q < x \<and> rep ?d q = rep ?d x \<and> par ?d x \<noteq> None" if "x \<in> set (kids ?d q)" for q x
    using that old [of x q] roots less unfolding k rep' by (auto split: if_splits)
  moreover have "\<exists>!q. x \<in> set (kids ?d q)" if "par ?d x \<noteq> None" for x
  proof (cases "x = c")
    case True
    then show ?thesis using fresh by (intro ex1I [of _ p]) (auto simp: k' split: if_splits)
  next
    case False
    with that i have "\<exists>!q. x \<in> set (kids d q)" by (simp add: index_ok_def)
    moreover have "x \<in> set (kids ?d q) \<longleftrightarrow> x \<in> set (kids d q)" for q
      using False by (auto simp: k')
    ultimately show ?thesis by simp
  qed
  moreover have "distinct (kids ?d q)" for q
    using i fresh by (auto simp: k' index_ok_def)
  moreover have "children ?d \<noteq> None" using ch by (auto simp: link_def)
  ultimately show ?thesis unfolding index_ok_def by blast
qed

lemma union_index:
  assumes ok: "dsu_ok d" and i: "index_ok d" and u: "dsu_union d u v = Some (m, d')"
  shows "index_ok d'"
proof (cases "rep d u = rep d v")
  case True
  with union_spec(1) [OF ok True] u i show ?thesis by (auto intro: compresses_index)
next
  case False
  let ?c = "max (rep d u) (rep d v)" and ?p = "min (rep d u) (rep d v)"
  from union_spec(2) [OF ok False] u obtain d1 where c: "compresses d d1"
    and d': "d' = (link d1 ?c ?p)\<lparr>merges := merges d + 1\<rparr>" by auto
  have dec: "decreasing (par d1)" using c by (simp add: compresses_def dsu_ok_def)
  have "par d1 (rep d x) = None" for x
    using root_of_is_root [OF dec, of x] compressesD(2) [OF c] by simp
  then have "par d1 ?c = None" "par d1 ?p = None" by (simp_all add: max_def min_def)
  moreover have "?p < ?c" using False by (auto simp: min_def max_def)
  ultimately show ?thesis
    unfolding d' using compresses_index [OF c i] compressesD(1) [OF c] by (intro index_ok_link)
qed

text \<open>Walking the recorded merge edges down from the root reaches the whole component.\<close>

lemma index_reaches:
  assumes i: "index_ok d"
  shows "(rep d x, x) \<in> {(p, c). c \<in> set (kids d p)}\<^sup>*"
proof (induction x rule: less_induct)
  case (less x)
  show ?case
  proof (cases "par d x")
    case None
    then show ?thesis by (simp add: root_of_None)
  next
    case (Some q)
    with i obtain p where p: "x \<in> set (kids d p)" by (auto simp: index_ok_def)
    with i have "p < x" "rep d p = rep d x" by (auto simp: index_ok_def)
    with less.IH [of p] p show ?thesis by (auto intro: rtrancl_into_rtrancl)
  qed
qed

lemma index_sound:
  assumes i: "index_ok d" and "(r, x) \<in> {(p, c). c \<in> set (kids d p)}\<^sup>*"
  shows "rep d x = rep d r"
  using assms(2) by (induction rule: rtrancl_induct) (use i in \<open>auto simp: index_ok_def\<close>)

section \<open>Snapshot and hydration\<close>

lemma snapshot_keys_spec:
  assumes "dsu_ok d"
  shows "\<exists>d'. snapshot_keys d ks = Some (map (\<lambda>k. (k, rep d k)) ks, d') \<and> compresses d d'"
  using assms
proof (induction ks arbitrary: d)
  case Nil
  then show ?case by (simp add: compresses_refl)
next
  case (Cons k ks)
  from dsu_find_spec [OF Cons.prems, of k] obtain d1 where
    1: "dsu_find d k = Some (rep d k, d1)" "compresses d d1" by blast
  from Cons.IH [OF compressesD(1) [OF 1(2)]] obtain d2 where
    2: "snapshot_keys d1 ks = Some (map (\<lambda>k. (k, rep d k)) ks, d2)" "compresses d1 d2"
    using compressesD(2) [OF 1(2)] by auto
  from 1 2 show ?case by (auto intro: compresses_trans)
qed

text \<open>Fully resolved pairs: a node appears once, and its root is smaller and not itself a key.\<close>

definition resolved :: "('a::linorder \<times> 'a) list \<Rightarrow> bool" where
  "resolved ps \<longleftrightarrow> distinct (map fst ps) \<and> (\<forall>(k, r) \<in> set ps. r < k \<and> r \<notin> fst ` set ps)"

lemma par_hydrate_links:
  "\<forall>(k, r) \<in> set ps. k \<noteq> r \<Longrightarrow> distinct (map fst ps) \<Longrightarrow>
     par (hydrate_links d ps) = par d ++ map_of ps"
proof (induction d ps rule: hydrate_links.induct)
  case (2 d k r ps)
  then have "par (hydrate_links (link d k r) ps) = (par d)(k \<mapsto> r) ++ map_of ps" by auto
  moreover have "map_of ps k = None" using 2 by (simp add: map_of_eq_None_iff)
  ultimately show ?case using 2 by (auto simp: map_add_def fun_eq_iff split: option.split)
qed simp

lemma root_of_resolved:
  assumes "resolved ps"
  shows "decreasing (map_of ps)" and "root_of (map_of ps) x = (case map_of ps x of None \<Rightarrow> x | Some r \<Rightarrow> r)"
proof -
  show dec: "decreasing (map_of ps)"
    using assms by (auto simp: decreasing_def resolved_def dest!: map_of_SomeD)
  have "map_of ps r = None" if "map_of ps x = Some r" for r
    using assms that by (auto simp: resolved_def map_of_eq_None_iff dest!: map_of_SomeD)
  then show "root_of (map_of ps) x = (case map_of ps x of None \<Rightarrow> x | Some r \<Rightarrow> r)"
    by (auto simp: root_of_None root_of_Some [OF dec] split: option.split)
qed

lemma par_hydrate:
  assumes "resolved ps"
  shows "par (dsu_hydrate (tracking_members t) ps) = map_of ps"
proof -
  have "\<forall>(k, r) \<in> set ps. k \<noteq> r" "distinct (map fst ps)"
    using assms by (auto simp: resolved_def)
  from par_hydrate_links [OF this, of "tracking_members t"] show ?thesis
    by (simp add: dsu_hydrate_def Let_def tracking_members_def dsu_new_def map_add_def fun_eq_iff
        split: option.split)
qed

lemma resolved_reps:
  assumes dec: "decreasing p" and "distinct ks" and "set ks = dom p"
  shows "resolved (map (\<lambda>k. (k, root_of p k)) ks)"
  using assms root_of_less [OF dec] root_of_is_root [OF dec]
  by (force simp: resolved_def comp_def)

lemma map_of_reps: "map_of (map (\<lambda>k. (k, f k)) ks) x = (if x \<in> set ks then Some (f x) else None)"
  by (induction ks) auto

lemma dsu_keys_spec: "distinct (dsu_keys d)" "set (dsu_keys d) = dom (par d)"
  by (simp_all only: dsu_keys_def sorted_keys)

lemma snapshot_hydrate:
  assumes "dsu_ok d"
  shows "\<exists>ps d'. dsu_snapshot d = Some (ps, d') \<and> compresses d d' \<and> resolved ps \<and>
    rep (dsu_hydrate (tracking_members t) ps) = rep d \<and>
    dom (par (dsu_hydrate (tracking_members t) ps)) = dom (par d)"
proof -
  from snapshot_keys_spec [OF assms, of "dsu_keys d"] obtain d' where
    d': "dsu_snapshot d = Some (map (\<lambda>k. (k, rep d k)) (dsu_keys d), d')" "compresses d d'"
    by (auto simp: dsu_snapshot_def)
  let ?ps = "map (\<lambda>k. (k, rep d k)) (dsu_keys d)"
  have r: "resolved ?ps"
    using assms dsu_keys_spec by (intro resolved_reps) (auto simp: dsu_ok_def)
  have "root_of (map_of ?ps) x = rep d x" for x
    using root_of_resolved(2) [OF r, of x] dsu_keys_spec(2) [of d]
    by (auto simp: map_of_reps domIff root_of_None)
  moreover have "dom (map_of ?ps) = dom (par d)"
    by (simp add: dom_map_of_conv_image_fst image_image dsu_keys_spec(2))
  ultimately show ?thesis using d' r par_hydrate [OF r, of t] by auto
qed

lemma par_tracking_members [simp]: "par (tracking_members t) = Map.empty"
  by (simp add: tracking_members_def dsu_new_def)

lemma hydrate_links_index:
  assumes "dsu_ok d" and "index_ok d" and "distinct (map fst ps)"
    and "\<And>k r. (k, r) \<in> set ps \<Longrightarrow> r < k \<and> par d k = None \<and> par d r = None \<and> r \<notin> fst ` set ps"
  shows "index_ok (hydrate_links d ps)"
  using assms
proof (induction d ps rule: hydrate_links.induct)
  case (2 d k r ps)
  have kr: "r < k" "par d k = None" "par d r = None" "r \<notin> fst ` set ((k, r) # ps)"
    using "2.prems"(4) [of k r] by auto
  have i: "index_ok (link d k r)"
    using index_ok_link [OF "2.prems"(1,2) kr(2,3,1), of "merges (link d k r)"] by simp
  have step: "r' < k' \<and> par (link d k r) k' = None \<and> par (link d k r) r' = None \<and> r' \<notin> fst ` set ps"
    if "(k', r') \<in> set ps" for k' r'
  proof -
    have "k' \<noteq> k" using "2.prems"(3) that by force
    moreover have "r' \<noteq> k" using "2.prems"(4) [of k' r'] that by auto
    ultimately show ?thesis using "2.prems"(4) [of k' r'] that by auto
  qed
  have e: "(if k \<noteq> r then link d k r else d) = link d k r" using kr(1) by auto
  have "index_ok (hydrate_links (link d k r) ps)"
    using dsu_ok_link [OF "2.prems"(1) kr(1)] i _ step
    by (rule "2.IH" [unfolded e]) (use "2.prems"(3) in simp)
  then show ?case by (simp only: hydrate_links.simps e)
qed simp

lemma hydrate_index:
  assumes r: "resolved ps"
  shows "index_ok (dsu_hydrate (tracking_members True) ps)"
proof -
  have "index_ok (hydrate_links (tracking_members True) ps)"
    using r by (intro hydrate_links_index)
      (auto simp: resolved_def index_ok_new)
  then show ?thesis
    by (simp add: dsu_hydrate_def Let_def index_ok_def)
qed

section \<open>Correctness of the union-find\<close>

text \<open>The unions of a list of edges, one after the other.\<close>

fun dsu_unions :: "dsu \<Rightarrow> (node_id \<times> node_id) list \<Rightarrow> dsu option" where
  "dsu_unions d [] = Some d"
| "dsu_unions d ((u, v) # es) = do { (_, d) \<leftarrow> dsu_union d u v; dsu_unions d es }"

lemma dsu_unions_join_all: "dsu_unions d es = write_path.join_all d es"
  by (induction d es rule: dsu_unions.induct) (auto split: option.split simp: Option.bind_eq_Some_conv
      intro!: Option.bind_cong)

lemma unions_lowest:
  "\<exists>d. dsu_unions (tracking_members t) es = Some d \<and> dsu_ok d \<and> rep d = lowest (set es)"
  unfolding dsu_unions_join_all by (rule write_path.join_all_components)

lemma dsu_connected_spec:
  assumes ok: "dsu_ok d"
  shows "\<exists>d'. dsu_connected d u v = Some (rep d u = rep d v, d') \<and> compresses d d'"
proof -
  from find_ro_spec [OF ok, of u] obtain d1 where
    1: "find_ro d u = Some (rep d u, d1)" "compresses d d1" by blast
  from find_ro_spec [OF compressesD(1) [OF 1(2)], of v] obtain d2 where
    2: "find_ro d1 v = Some (rep d v, d2)" "compresses d1 d2"
    using compressesD(2) [OF 1(2)] by auto
  from 1 2 show ?thesis by (auto simp: dsu_connected_def intro: compresses_trans)
qed

text \<open>
  C2: from an empty structure, every list of unions returns, and afterwards both walks (the
  path-halving write path and the query path) return for every node the lowest id of its connected
  component, and the connectivity query answers exactly whether two nodes are connected.
\<close>

theorem dsu_finds_lowest_id:
  "\<exists>d. dsu_unions (tracking_members t) es = Some d \<and>
     (\<forall>x. \<exists>d'. dsu_find d x = Some (lowest (set es) x, d')) \<and>
     (\<forall>x. \<exists>d'. find_ro d x = Some (lowest (set es) x, d')) \<and>
     (\<forall>x y. \<exists>d'. dsu_connected d x y = Some ((x, y) \<in> conn (set es), d'))"
proof -
  from unions_lowest obtain d where d: "dsu_unions (tracking_members t) es = Some d" "dsu_ok d"
    and r: "rep d = lowest (set es)" by blast
  have "\<exists>d'. dsu_connected d x y = Some ((x, y) \<in> conn (set es), d')" for x y
    using dsu_connected_spec [OF d(2), of x y] r by (auto simp: conn_iff_lowest)
  with d r show ?thesis
    using write_path.find_returns [OF d(2)] query_path.find_returns [OF d(2)] by auto
qed

lemma unions_counted:
  "dsu_ok d \<Longrightarrow> counter_ok d \<Longrightarrow> dsu_unions d es = Some d' \<Longrightarrow> counter_ok d' \<and> dsu_ok d'"
proof (induction d es rule: dsu_unions.induct)
  case (2 d u v es)
  then obtain m d1 where u: "dsu_union d u v = Some (m, d1)" "dsu_unions d1 es = Some d'"
    by (auto simp: bind_eq_Some_conv)
  with 2 show ?case using union_rep [OF 2(2) u(1)] union_counter [OF 2(2,3) u(1)] by blast
qed simp

text \<open>
  C8: snapshot then hydrate is the identity on answers. The pairs a snapshot returns are fully
  resolved, a fresh structure (tracking members or not) hydrated from them finds the same
  representative for every node as the original, and its merge counter is the number of links.
\<close>

theorem snapshot_hydrate_roundtrip:
  assumes "dsu_unions (tracking_members t) es = Some d"
  shows "\<exists>ps d'. dsu_snapshot d = Some (ps, d') \<and> resolved ps \<and>
    (let h = dsu_hydrate (tracking_members t') ps in
      (\<forall>x. \<exists>h'. find_ro h x = Some (lowest (set es) x, h')) \<and> len_links h = len_links d \<and>
      merges h = merges d)"
proof -
  have ok: "dsu_ok d" "rep d = lowest (set es)" using unions_lowest [of t es] assms by auto
  have c: "counter_ok (tracking_members t)"
    by (simp add: counter_ok_def len_links_card tracking_members_def dsu_new_def)
  from snapshot_hydrate [OF ok(1), of t'] obtain ps d' where
    s: "dsu_snapshot d = Some (ps, d')" "resolved ps" and
    h: "rep (dsu_hydrate (tracking_members t') ps) = rep d"
      "dom (par (dsu_hydrate (tracking_members t') ps)) = dom (par d)" by blast
  let ?h = "dsu_hydrate (tracking_members t') ps"
  have "dsu_ok ?h"
    using root_of_resolved(1) [OF s(2)] by (simp add: dsu_ok_def par_hydrate [OF s(2)])
  moreover have l: "len_links ?h = len_links d" by (simp only: len_links_card h(2))
  moreover have "merges ?h = word_of_nat (len_links ?h)"
    by (simp add: dsu_hydrate_def Let_def len_links_def)
  moreover have "counter_ok d" using unions_counted [OF dsu_ok_new(1) c assms] by blast
  ultimately show ?thesis
    using s h(1) ok(2) query_path.find_returns [of ?h] by (auto simp: Let_def counter_ok_def)
qed

theorem snapshot_hydrate_roundtrip_witness:
  "\<exists>d ps d'. dsu_unions (tracking_members True) [(3, 5), (5, 9)] = Some d \<and>
     dsu_snapshot d = Some (ps, d') \<and> resolved ps"
proof -
  obtain d where d: "dsu_unions (tracking_members True) [(3, 5), (5, 9)] = Some d"
    using unions_lowest by blast
  from snapshot_hydrate_roundtrip [OF this, of False] d show ?thesis by blast
qed

end
