(* ===== verification/Dsu_Race.thy ===== *)
theory Dsu_Race
  imports Dsu
begin

text \<open>
  Queries racing the writer. Unions are serialized by the caller, but the read-only walk of
  \<^verbatim>\<open>Dsu::find_ro\<close> runs at any time, on any number of threads, against a map that changes under
  it: between two probes of one query the writer may halve paths and link roots, and other
  queries may store repair writes. The map operations are atomic, so a step of this model is one
  map operation of one thread, and the threads are the program counters of the two loops of
  \<^verbatim>\<open>src/core/dsu.rs\<close>. A ghost component records the edges the writer has merged so far.

  The file shows that every answer is the lowest id of the component at the instant of the
  walk's last probe, that no repair write ever changes an answer, however late it lands, and that
  a query ends after finitely many steps of its own whatever the others do.
\<close>

section \<open>Threads\<close>

text \<open>The loop of \<^verbatim>\<open>find_ro\<close>: probing, or about to store the repair write.\<close>

datatype reader =
    RIdle
  | RWalk node_id node_id nat
  | RRepair node_id node_id

text \<open>The loop of \<^verbatim>\<open>find\<close>: probing a node, probing its parent, or about to halve the path.\<close>

datatype finder =
    FAt node_id
  | FParent node_id node_id
  | FHalve node_id node_id

text \<open>
  The body of \<^verbatim>\<open>union\<close>: the two finds, the comparison of the roots, and the writes of the link
  and of the counter.
\<close>

datatype writer =
    WIdle
  | WFindU node_id node_id finder
  | WFindV node_id node_id node_id finder
  | WCompare node_id node_id node_id node_id
  | WLink node_id node_id node_id node_id
  | WIndex node_id node_id
  | WCount

record race =
  shared :: dsu
  writer_at :: writer
  readers_at :: "nat \<Rightarrow> reader"
  merged :: "(node_id \<times> node_id) set"

datatype event = Quiet | Answer nat node_id node_id

definition put_parent :: "node_id \<Rightarrow> node_id \<Rightarrow> dsu \<Rightarrow> dsu" where
  "put_parent x p d = d\<lparr>parents := fmupd x p (parents d)\<rparr>"

definition push_child :: "node_id \<Rightarrow> node_id \<Rightarrow> dsu \<Rightarrow> dsu" where
  "push_child c p d = d\<lparr>children := children (link d c p)\<rparr>"

text \<open>One step of the find loop: the root it returns, or the next program point and the map.\<close>

fun find_step :: "dsu \<Rightarrow> finder \<Rightarrow> node_id + (finder \<times> dsu)" where
  "find_step d (FAt x) =
     (case fmlookup (parents d) x of None \<Rightarrow> Inl x | Some p \<Rightarrow> Inr (FParent x p, d))"
| "find_step d (FParent x p) =
     (case fmlookup (parents d) p of None \<Rightarrow> Inl p | Some gp \<Rightarrow> Inr (FHalve x gp, d))"
| "find_step d (FHalve x gp) = Inr (FAt gp, put_parent x gp d)"

definition writer_step :: "race \<Rightarrow> race" where
  "writer_step s = (case writer_at s of
     WIdle \<Rightarrow> s
   | WFindU u v f \<Rightarrow> (case find_step (shared s) f of
         Inl ru \<Rightarrow> s\<lparr>writer_at := WFindV u v ru (FAt v)\<rparr>
       | Inr (f', d) \<Rightarrow> s\<lparr>shared := d, writer_at := WFindU u v f'\<rparr>)
   | WFindV u v ru f \<Rightarrow> (case find_step (shared s) f of
         Inl rv \<Rightarrow> s\<lparr>writer_at := WCompare u v ru rv\<rparr>
       | Inr (f', d) \<Rightarrow> s\<lparr>shared := d, writer_at := WFindV u v ru f'\<rparr>)
   | WCompare u v ru rv \<Rightarrow>
       (if ru = rv then s\<lparr>writer_at := WIdle, merged := insert (u, v) (merged s)\<rparr>
        else if ru < rv then s\<lparr>writer_at := WLink u v rv ru\<rparr>
        else s\<lparr>writer_at := WLink u v ru rv\<rparr>)
   | WLink u v c p \<Rightarrow>
       s\<lparr>shared := put_parent c p (shared s), writer_at := WIndex c p,
         merged := insert (u, v) (merged s)\<rparr>
   | WIndex c p \<Rightarrow> s\<lparr>shared := push_child c p (shared s), writer_at := WCount\<rparr>
   | WCount \<Rightarrow> s\<lparr>shared := (shared s)\<lparr>merges := merges (shared s) + 1\<rparr>, writer_at := WIdle\<rparr>)"

text \<open>One step of a query.\<close>

fun reader_step :: "dsu \<Rightarrow> nat \<Rightarrow> reader \<Rightarrow> event \<times> reader \<times> dsu" where
  "reader_step d i RIdle = (Quiet, RIdle, d)"
| "reader_step d i (RWalk x cur depth) =
     (case fmlookup (parents d) cur of
        Some p \<Rightarrow> (Quiet, RWalk x p (depth + 1), d)
      | None \<Rightarrow> (Answer i x cur, (if depth > RO_COMPRESS_DEPTH then RRepair x cur else RIdle), d))"
| "reader_step d i (RRepair x cur) = (Quiet, RIdle, put_parent x cur d)"

inductive race_step :: "race \<Rightarrow> event \<Rightarrow> race \<Rightarrow> bool" where
  begin_union: "writer_at s = WIdle \<Longrightarrow>
    race_step s Quiet (s\<lparr>writer_at := WFindU u v (FAt u)\<rparr>)"
| writes: "race_step s Quiet (writer_step s)"
| begin_query: "readers_at s i = RIdle \<Longrightarrow>
    race_step s Quiet (s\<lparr>readers_at := (readers_at s)(i := RWalk x x 0)\<rparr>)"
| query: "reader_step (shared s) i (readers_at s i) = (e, r, d) \<Longrightarrow>
    race_step s e (s\<lparr>shared := d, readers_at := (readers_at s)(i := r)\<rparr>)"

definition race_init :: "bool \<Rightarrow> race" where
  "race_init t = \<lparr>shared = tracking_members t, writer_at = WIdle, readers_at = (\<lambda>_. RIdle),
     merged = {}\<rparr>"

inductive race_reaches :: "race \<Rightarrow> race \<Rightarrow> bool" where
  here: "race_reaches s s"
| later: "race_reaches s s' \<Longrightarrow> race_step s' e s'' \<Longrightarrow> race_reaches s s''"

section \<open>The invariant\<close>

fun reader_ok :: "dsu \<Rightarrow> reader \<Rightarrow> bool" where
  "reader_ok d RIdle = True"
| "reader_ok d (RWalk x cur depth) =
     (rep d cur = rep d x \<and> (if depth = 0 then cur = x else cur < x \<and> par d x \<noteq> None))"
| "reader_ok d (RRepair x cur) = (rep d cur = rep d x \<and> cur < x \<and> par d x \<noteq> None)"

fun finder_ok :: "dsu \<Rightarrow> node_id \<Rightarrow> finder \<Rightarrow> bool" where
  "finder_ok d r (FAt x) = (rep d x = r)"
| "finder_ok d r (FParent x p) = (rep d x = r \<and> rep d p = r \<and> p < x \<and> par d x \<noteq> None)"
| "finder_ok d r (FHalve x gp) = (rep d x = r \<and> rep d gp = r \<and> gp < x \<and> par d x \<noteq> None)"

fun writer_ok :: "dsu \<Rightarrow> writer \<Rightarrow> bool" where
  "writer_ok d (WFindU u v f) = finder_ok d (rep d u) f"
| "writer_ok d (WFindV u v ru f) = (ru = rep d u \<and> finder_ok d (rep d v) f)"
| "writer_ok d (WCompare u v ru rv) = (ru = rep d u \<and> rv = rep d v)"
| "writer_ok d (WLink u v c p) =
     (rep d u \<noteq> rep d v \<and> c = max (rep d u) (rep d v) \<and> p = min (rep d u) (rep d v))"
| "writer_ok d _ = True"

definition race_ok :: "race \<Rightarrow> bool" where
  "race_ok s \<longleftrightarrow> dsu_ok (shared s) \<and> rep (shared s) = lowest (merged s) \<and>
     writer_ok (shared s) (writer_at s) \<and> (\<forall>i. reader_ok (shared s) (readers_at s i))"

text \<open>
  What a query in flight needs from a step of anybody else: nodes with a parent keep having one,
  and nodes of one component stay in one component.
\<close>

definition grows :: "dsu \<Rightarrow> dsu \<Rightarrow> bool" where
  "grows d d' \<longleftrightarrow> (\<forall>x. par d x \<noteq> None \<longrightarrow> par d' x \<noteq> None) \<and>
     (\<forall>x y. rep d x = rep d y \<longrightarrow> rep d' x = rep d' y)"

lemma grows_rep: "grows d d' \<Longrightarrow> rep d x = rep d y \<Longrightarrow> rep d' x = rep d' y"
  unfolding grows_def by blast

lemma grows_par: "grows d d' \<Longrightarrow> par d x = Some p \<Longrightarrow> \<exists>q. par d' x = Some q"
  unfolding grows_def by blast

lemma reader_ok_grows: "grows d d' \<Longrightarrow> reader_ok d r \<Longrightarrow> reader_ok d' r"
  by (cases r) (auto intro: grows_rep dest: grows_par)

definition same_answers :: "dsu \<Rightarrow> dsu \<Rightarrow> bool" where
  "same_answers d d' \<longleftrightarrow> dsu_ok d' \<and> rep d' = rep d \<and> (\<forall>x. par d' x = None \<longleftrightarrow> par d x = None)"

lemma same_answers_grows: "same_answers d d' \<Longrightarrow> grows d d'"
  unfolding same_answers_def grows_def by simp

lemma same_answers_refl: "dsu_ok d \<Longrightarrow> same_answers d d"
  by (simp add: same_answers_def)

lemma finder_ok_same: "same_answers d d' \<Longrightarrow> finder_ok d' r f = finder_ok d r f"
  by (cases f) (auto simp: same_answers_def)

lemma same_answers_rep: "same_answers d d' \<Longrightarrow> rep d' = rep d"
  by (simp add: same_answers_def)

lemma writer_ok_same: "same_answers d d' \<Longrightarrow> writer_ok d w \<Longrightarrow> writer_ok d' w"
  by (cases w) (auto simp: finder_ok_same same_answers_rep)

lemma par_put_parent: "par (put_parent x p d) = (par d)(x \<mapsto> p)"
  by (rule ext) (simp add: put_parent_def)

lemma put_parent_same:
  assumes "dsu_ok d" and "rep d q = rep d x" and "q < x" and "par d x \<noteq> None"
  shows "same_answers d (put_parent x q d)"
proof -
  note p = par_put_parent [of x q d]
  have dec: "decreasing (par d)" using assms by (simp add: dsu_ok_def)
  have "rep (put_parent x q d) = rep d"
    unfolding p using root_of_shortcut [OF dec assms(3,2)] by auto
  then show ?thesis
    using assms decreasing_upd [OF dec assms(3)] by (auto simp: same_answers_def dsu_ok_def p)
qed

lemma find_step_ok:
  assumes ok: "dsu_ok d" and f: "finder_ok d r f"
  shows "case find_step d f of
      Inl y \<Rightarrow> y = r
    | Inr (f', d') \<Rightarrow> same_answers d d' \<and> finder_ok d' r f'"
proof -
  have dec: "decreasing (par d)" using ok by (simp add: dsu_ok_def)
  show ?thesis
  proof (cases f)
    case (FAt x)
    then show ?thesis
      using f root_of_Some [OF dec, of x] decreasingD [OF dec, of x] same_answers_refl [OF ok]
      by (auto simp: root_of_None split: option.split)
  next
    case (FParent x p)
    then show ?thesis
      using f root_of_Some [OF dec, of p] decreasingD [OF dec, of p] same_answers_refl [OF ok]
      by (auto simp: root_of_None split: option.split)
  next
    case (FHalve x gp)
    with f ok have "same_answers d (put_parent x gp d)" by (intro put_parent_same) auto
    with FHalve f show ?thesis by (auto simp: same_answers_def)
  qed
qed

section \<open>Every step keeps the invariant\<close>

lemma reader_step_ok:
  assumes ok: "dsu_ok d" and r: "reader_ok d r" and s: "reader_step d i r = (e, r', d')"
  shows "same_answers d d' \<and> reader_ok d' r' \<and> (\<forall>j x y. e = Answer j x y \<longrightarrow> y = rep d x)"
proof (cases r)
  case (RWalk x cur depth)
  have dec: "decreasing (par d)" using ok by (simp add: dsu_ok_def)
  show ?thesis
  proof (cases "par d cur")
    case None
    with RWalk r s ok show ?thesis
      by (auto simp: same_answers_refl root_of_None RO_COMPRESS_DEPTH_def split: if_splits)
  next
    case (Some p)
    then have "p < cur" "rep d p = rep d cur"
      using decreasingD [OF dec] root_of_Some [OF dec] by auto
    with RWalk r s Some ok show ?thesis
      by (auto simp: same_answers_refl split: if_splits)
  qed
next
  case (RRepair x cur)
  with r s ok show ?thesis using put_parent_same [OF ok] by auto
qed (use s same_answers_refl [OF ok] in auto)

lemma race_ok_same:
  assumes "race_ok s" and "same_answers (shared s) d" and "writer_ok d w"
  shows "race_ok (s\<lparr>shared := d, writer_at := w\<rparr>)"
  using assms reader_ok_grows [OF same_answers_grows [OF assms(2)]]
  by (auto simp: race_ok_def same_answers_def)

lemma writer_link_ok:
  assumes ok: "race_ok s" and w: "writer_at s = WLink u v c p"
  shows "race_ok (writer_step s)"
proof -
  let ?d = "shared s" and ?d' = "put_parent c p (shared s)"
  have dec: "decreasing (par ?d)" and r: "rep ?d = lowest (merged s)"
    and ne: "rep ?d u \<noteq> rep ?d v"
    and cp: "c = max (rep ?d u) (rep ?d v)" "p = min (rep ?d u) (rep ?d v)"
    using ok w by (auto simp: race_ok_def dsu_ok_def)
  note par' = par_put_parent [of c p ?d]
  have rep': "rep ?d' = merge_rep (rep ?d) u v"
    unfolding cp par_put_parent using dec ne by (intro root_of_link_merge_rep) auto
  have "p < c" using ne by (auto simp: cp min_def max_def)
  then have "dsu_ok ?d'" using decreasing_upd [OF dec] by (simp add: dsu_ok_def par')
  moreover have "grows ?d ?d'"
    unfolding grows_def rep' by (auto simp: par' merge_rep_def)
  moreover have "rep ?d' = lowest (insert (u, v) (merged s))"
    by (simp only: rep' r lowest_insert)
  ultimately show ?thesis
    using ok w reader_ok_grows [of ?d ?d'] by (auto simp: race_ok_def writer_step_def)
qed

lemma same_answers_fields:
  "dsu_ok d \<Longrightarrow> same_answers d (push_child c p d)"
  "dsu_ok d \<Longrightarrow> same_answers d (d\<lparr>merges := n\<rparr>)"
  by (simp_all add: same_answers_def dsu_ok_def push_child_def)

lemma writer_step_ok:
  assumes ok: "race_ok s"
  shows "race_ok (writer_step s)"
proof -
  have d: "dsu_ok (shared s)" and w: "writer_ok (shared s) (writer_at s)"
    using ok by (simp_all add: race_ok_def)
  note same = race_ok_same [OF ok]
  show ?thesis
  proof (cases "writer_at s")
    case (WFindU u v f)
    with w have f: "finder_ok (shared s) (rep (shared s) u) f" by simp
    show ?thesis
    proof (cases "find_step (shared s) f")
      case (Inl r)
      with find_step_ok [OF d f] WFindU w ok show ?thesis by (auto simp: race_ok_def writer_step_def)
    next
      case (Inr fd)
      with find_step_ok [OF d f] WFindU w same [of "snd fd" "WFindU u v (fst fd)"] show ?thesis
        by (auto simp: same_answers_rep writer_step_def split: prod.splits)
    qed
  next
    case (WFindV u v ru f)
    with w have f: "finder_ok (shared s) (rep (shared s) v) f" by simp
    show ?thesis
    proof (cases "find_step (shared s) f")
      case (Inl r)
      with find_step_ok [OF d f] WFindV w ok show ?thesis by (auto simp: race_ok_def writer_step_def)
    next
      case (Inr fd)
      with find_step_ok [OF d f] WFindV w same [of "snd fd" "WFindV u v ru (fst fd)"] show ?thesis
        by (auto simp: same_answers_rep writer_step_def split: prod.splits)
    qed
  next
    case (WCompare u v ru rv)
    with ok w show ?thesis
      by (auto simp: race_ok_def lowest_insert max_def min_def writer_step_def)
  next
    case (WLink u v c p)
    then show ?thesis by (rule writer_link_ok [OF ok])
  next
    case (WIndex c p)
    with same same_answers_fields(1) [OF d] show ?thesis by (simp add: writer_step_def)
  next
    case WCount
    with same same_answers_fields(2) [OF d] show ?thesis by (simp add: writer_step_def)
  qed (use ok in \<open>simp add: writer_step_def\<close>)
qed

lemma race_step_ok:
  assumes "race_step s e s'" and ok: "race_ok s"
  shows "race_ok s' \<and> (\<forall>i x y. e = Answer i x y \<longrightarrow> y = lowest (merged s) x)"
  using assms(1)
proof (cases rule: race_step.cases)
  case (query i r d)
  have same: "same_answers (shared s) d" and r: "reader_ok d r"
    and e: "\<forall>j x y. e = Answer j x y \<longrightarrow> y = rep (shared s) x"
    using reader_step_ok [OF _ _ query(2)] ok by (auto simp: race_ok_def)
  have w: "writer_ok d (writer_at s)" and o: "\<forall>j. reader_ok d (readers_at s j)"
    using ok writer_ok_same [OF same] reader_ok_grows [OF same_answers_grows [OF same]]
    by (auto simp: race_ok_def)
  have "race_ok s'"
    unfolding query(1) using ok same r w o by (simp add: race_ok_def same_answers_def)
  moreover have "rep (shared s) = lowest (merged s)" using ok by (simp add: race_ok_def)
  ultimately show ?thesis using e by simp
next
  case (begin_union u v)
  with ok show ?thesis by (simp add: race_ok_def)
next
  case writes
  with writer_step_ok [OF ok] show ?thesis by simp
next
  case (begin_query i x)
  with ok show ?thesis by (simp add: race_ok_def)
qed

lemma race_ok_init: "race_ok (race_init t)"
  by (simp add: race_ok_def race_init_def fun_eq_iff)

lemma race_reaches_ok: "race_reaches s s' \<Longrightarrow> race_ok s \<Longrightarrow> race_ok s'"
proof (induction rule: race_reaches.induct)
  case (later s s' e s'')
  then show ?case using race_step_ok [OF later.hyps(2)] by blast
qed

text \<open>
  C3: queries that race the writer are linearizable. In every state reachable from an empty
  structure by any interleaving of the map operations of one writer and any number of queries, an
  answer for a node is the lowest id of the node's component in the graph of the edges merged at
  the instant of the query's last probe. The repair writes of queries and the path halving of the
  writer may land at any time in between.
\<close>

theorem racing_query_answers_current_component:
  assumes "race_reaches (race_init t) s" and "race_step s (Answer i x r) s'"
  shows "r = lowest (merged s) x"
  using race_step_ok [OF assms(2) race_reaches_ok [OF assms(1) race_ok_init]] by blast

theorem racing_query_answers_current_component_witness:
  "\<exists>s s'. race_reaches (race_init False) s \<and> race_step s (Answer 0 7 7) s' \<and>
     7 = lowest (merged s) 7"
proof -
  let ?s = "(race_init False)\<lparr>readers_at := (readers_at (race_init False))(0 := RWalk 7 7 0)\<rparr>"
  have r: "race_reaches (race_init False) ?s"
    by (rule race_reaches.later [OF race_reaches.here race_step.begin_query])
      (simp add: race_init_def)
  have "reader_step (shared ?s) 0 (readers_at ?s 0) = (Answer 0 7 7, RIdle, shared ?s)"
    by (simp add: race_init_def tracking_members_def dsu_new_def)
  from race_step.query [OF this] obtain s' where s: "race_step ?s (Answer 0 7 7) s'" by blast
  from racing_query_answers_current_component [OF r s] r s show ?thesis by blast
qed

text \<open>A query is wait-free: each of its own steps that does not end the walk moves to a smaller id.\<close>

lemma reader_step_progress:
  assumes "dsu_ok d" and "reader_step d i (RWalk x cur depth) = (e, r, d')"
  shows "(\<exists>y. e = Answer i x y) \<or> (\<exists>p. r = RWalk x p (depth + 1) \<and> p < cur)"
  using assms by (auto simp: dsu_ok_def dest: decreasingD split: option.splits)

end
