(* ===== verification/Stream_Position.thy ===== *)
theory Stream_Position
  imports Blaze_Prelude "HOL-Library.Multiset"
begin

text \<open>
  Where a worker stands in its input: \<^verbatim>\<open>src/core/stream.rs\<close>. A position is a map from partition
  to highest applied offset, iterated in ascending key order. The file shows that an absent
  partition and offset zero agree, that domination is the pointwise order on offsets, that merging
  is its least upper bound, that a position does not depend on the order in which records are
  observed, and that a scalar exists only where it says everything the position says.
\<close>

section \<open>Positions\<close>

type_synonym partition_id = u32

type_synonym stream_position = "(partition_id, u64) fmap"

definition sp_new :: stream_position where
  "sp_new = fmempty"

definition sp_get :: "stream_position \<Rightarrow> partition_id \<Rightarrow> u64" where
  "sp_get p k = (case fmlookup p k of None \<Rightarrow> 0 | Some off \<Rightarrow> off)"

definition advance :: "stream_position \<Rightarrow> partition_id \<Rightarrow> u64 \<Rightarrow> stream_position" where
  "advance p k off =
     (let slot = (case fmlookup p k of None \<Rightarrow> 0 | Some v \<Rightarrow> v)
      in fmupd k (max slot off) p)"

definition single :: "u64 \<Rightarrow> stream_position" where
  "single off = advance sp_new 0 off"

definition partitions :: "stream_position \<Rightarrow> partition_id list" where
  "partitions p = sorted_list_of_fset (fmdom p)"

definition sp_iter :: "stream_position \<Rightarrow> (partition_id \<times> u64) list" where
  "sp_iter p = map (\<lambda>k. (k, sp_get p k)) (partitions p)"

definition advance_all :: "stream_position \<Rightarrow> (partition_id \<times> u64) list \<Rightarrow> stream_position" where
  "advance_all p recs = fold (\<lambda>(k, off) p. advance p k off) recs p"

definition sp_merge :: "stream_position \<Rightarrow> stream_position \<Rightarrow> stream_position" where
  "sp_merge p other = advance_all p (sp_iter other)"

definition dominates :: "stream_position \<Rightarrow> stream_position \<Rightarrow> bool" where
  "dominates p other = list_all (\<lambda>(k, off). sp_get p k \<ge> off) (sp_iter other)"

definition sp_is_empty :: "stream_position \<Rightarrow> bool" where
  "sp_is_empty p = (partitions p = [])"

definition sp_len :: "stream_position \<Rightarrow> nat" where
  "sp_len p = length (partitions p)"

definition as_scalar :: "stream_position \<Rightarrow> u64 option" where
  "as_scalar p =
     (if sp_len p = 0 then Some 0
      else if sp_len p = 1 then fmlookup p 0
      else None)"

definition from_iter :: "(partition_id \<times> u64) list \<Rightarrow> stream_position" where
  "from_iter recs = advance_all sp_new recs"

section \<open>Stream identities\<close>

record stream_id =
  source :: string
  name :: string
  group :: "string option"

definition stream_id_new :: "string \<Rightarrow> string \<Rightarrow> stream_id" where
  "stream_id_new src nm = \<lparr>source = src, name = nm, group = None\<rparr>"

definition with_group :: "stream_id \<Rightarrow> string \<Rightarrow> stream_id" where
  "with_group i g = i\<lparr>group := Some g\<rparr>"

definition same_stream :: "stream_id \<Rightarrow> stream_id \<Rightarrow> bool" where
  "same_stream i other = (source i = source other \<and> name i = name other)"

lemma same_stream_equiv:
  "same_stream i i" "same_stream i j \<Longrightarrow> same_stream j i"
  "same_stream i j \<Longrightarrow> same_stream j k \<Longrightarrow> same_stream i k"
  by (auto simp: same_stream_def)

lemma same_stream_group [simp]: "same_stream (with_group i g) j = same_stream i j"
  by (simp add: same_stream_def with_group_def)

section \<open>Reading a position back\<close>

lemma partitions_spec:
  "distinct (partitions p)" "set (partitions p) = dom (fmlookup p)" "sorted_wrt (<) (partitions p)"
  unfolding partitions_def by (rule sorted_keys)+

lemma sp_iter_set: "set (sp_iter p) = {(k, off). fmlookup p k = Some off}"
  by (force simp: sp_iter_def partitions_spec(2) sp_get_def)

lemma sp_get_new [simp]: "sp_get sp_new k = 0"
  by (simp add: sp_get_def sp_new_def)

lemma sp_get_advance [simp]:
  "sp_get (advance p k off) j = (if j = k then max (sp_get p k) off else sp_get p j)"
  by (simp add: sp_get_def advance_def Let_def)

lemma dom_advance [simp]: "dom (fmlookup (advance p k off)) = insert k (dom (fmlookup p))"
  by (auto simp: advance_def Let_def)

lemma sp_get_single [simp]: "sp_get (single off) k = (if k = 0 then off else 0)"
  by (simp add: single_def)

lemma sp_eqI:
  assumes "dom (fmlookup p) = dom (fmlookup q)" and "\<And>k. sp_get p k = sp_get q k"
  shows "p = q"
proof (rule fmap_ext)
  fix k
  show "fmlookup p k = fmlookup q k"
    using arg_cong [OF assms(1), of "\<lambda>D. k \<in> D"] assms(2) [of k]
    by (cases "fmlookup p k"; cases "fmlookup q k") (auto simp: sp_get_def domIff)
qed

text \<open>The offset of a partition after a list of records is the largest one recorded.\<close>

lemma advance_all_simps [simp]:
  "advance_all p [] = p"
  "advance_all p ((k, off) # recs) = advance_all (advance p k off) recs"
  by (simp_all add: advance_all_def)

lemma sp_get_advance_all:
  "sp_get (advance_all p recs) k =
     fold max (map snd (filter (\<lambda>r. fst r = k) recs)) (sp_get p k)"
  by (induction recs arbitrary: p) (auto simp: max.commute)

lemma dom_advance_all:
  "dom (fmlookup (advance_all p recs)) = dom (fmlookup p) \<union> fst ` set recs"
proof (induction recs arbitrary: p)
  case (Cons r recs)
  then show ?case by (cases r) simp
qed simp

lemma filter_sp_iter:
  "map snd (filter (\<lambda>r. fst r = k) (sp_iter p)) = (case fmlookup p k of None \<Rightarrow> [] | Some off \<Rightarrow> [off])"
proof -
  have "map snd (filter (\<lambda>r. fst r = k) (map (\<lambda>k. (k, sp_get p k)) ks)) =
      (if k \<in> set ks then [sp_get p k] else [])" if "distinct ks" for ks
    using that by (induction ks) auto
  from this [OF partitions_spec(1) [of p]] show ?thesis
    by (auto simp: sp_iter_def partitions_spec(2) sp_get_def dom_def split: option.split)
qed

lemma sp_get_merge [simp]: "sp_get (sp_merge p q) k = max (sp_get p k) (sp_get q k)"
  unfolding sp_merge_def sp_get_advance_all filter_sp_iter
  by (auto simp: sp_get_def [of q] max.commute max.absorb1 split: option.split)

lemma dominates_iff: "dominates p q \<longleftrightarrow> (\<forall>k. sp_get q k \<le> sp_get p k)"
  by (auto simp: dominates_def list_all_iff sp_iter_set sp_get_def split: option.splits)

section \<open>The order on positions\<close>

text \<open>
  C9: domination is the pointwise order on offsets, where an absent partition counts as zero, and
  merging is its least upper bound: a merged position dominates both operands and is dominated by
  every position that dominates both.
\<close>

theorem merge_is_least_upper_bound:
  "(dominates p q \<longleftrightarrow> (\<forall>k. sp_get q k \<le> sp_get p k)) \<and>
   dominates (sp_merge p q) p \<and> dominates (sp_merge p q) q \<and>
   dominates r (sp_merge p q) = (dominates r p \<and> dominates r q)"
  by (auto simp: dominates_iff)

lemma advance_commute:
  "advance (advance p k x) j y = advance (advance p j y) k x"
  by (rule sp_eqI) (auto simp: max.assoc max.commute max.left_commute)

text \<open>
  C10: a position does not depend on the order in which its records are observed, nor on records
  observed twice: any two orders of the same records build the same position, and replaying a
  prefix changes nothing.
\<close>

theorem from_iter_order_irrelevant:
  assumes "mset recs = mset recs'"
  shows "from_iter recs = from_iter recs' \<and> advance_all (from_iter recs) (take n recs) = from_iter recs"
proof -
  have "from_iter recs = from_iter recs'"
    unfolding from_iter_def advance_all_def
    by (rule fold_multiset_equiv [THEN fun_cong, OF _ assms]) (auto simp: fun_eq_iff advance_commute)
  moreover have "advance_all (from_iter recs) xs = from_iter recs" if "set xs \<subseteq> set recs" for xs
    using that
  proof (induction xs)
    case (Cons r xs)
    obtain k off where r: "r = (k, off)" by (cases r)
    have "off \<le> fold max (map snd (filter (\<lambda>r. fst r = k) recs)) 0"
      using Cons.prems r by (force simp: Max.set_eq_fold [symmetric] intro!: Max_ge)
    then have "advance (from_iter recs) k off = from_iter recs"
      using Cons.prems r
      by (intro sp_eqI) (force simp: from_iter_def sp_get_advance_all dom_advance_all max_def)+
    with Cons r show ?case by simp
  qed simp
  from this [of "take n recs"] have "advance_all (from_iter recs) (take n recs) = from_iter recs"
    by (simp add: set_take_subset)
  ultimately show ?thesis by blast
qed

theorem from_iter_order_irrelevant_witness:
  "from_iter [(2, 3), (0, 1), (2, 1)] = from_iter [(2, 1), (2, 3), (0, 1)] \<and>
   advance_all (from_iter [(2, 3), (0, 1), (2, 1)]) (take 2 [(2, 3), (0, 1), (2, 1)]) =
     from_iter [(2, 3), (0, 1), (2, 1)]"
  by (rule from_iter_order_irrelevant) simp

lemma as_scalar_exact:
  assumes s: "as_scalar p = Some n"
  shows "sp_get p k = (if k = 0 then n else 0)"
proof -
  have len: "sp_len p = card (dom (fmlookup p))"
    by (metis distinct_card partitions_spec(1,2) sp_len_def)
  show ?thesis
  proof (cases "sp_len p = 0")
    case True
    with s len have "fmlookup p k = None" for k by (simp add: fun_eq_iff)
    with s True show ?thesis by (simp add: as_scalar_def sp_get_def)
  next
    case False
    with s have 0: "fmlookup p 0 = Some n" and "card (dom (fmlookup p)) = 1"
      by (auto simp: as_scalar_def len split: if_splits)
    then have "dom (fmlookup p) = {0}" by (metis card_1_singletonE domI singletonD)
    then have "k \<noteq> 0 \<Longrightarrow> fmlookup p k = None" by (metis domIff singletonD)
    with 0 show ?thesis by (simp add: sp_get_def)
  qed
qed

end
