(* ===== verification/Byte_Codec.thy ===== *)
theory Byte_Codec
  imports Blaze_Prelude
begin

text \<open>
  Bytes on disk: little-endian integers, byte ranges, and the LEB128 varints of
  \<^verbatim>\<open>src/storage/registry.rs\<close> that the blocked encodings share.

  A byte buffer is a list of bytes and an offset into it is a \<^typ>\<open>nat\<close>. A range that runs past the
  end of a buffer is \<^const>\<open>None\<close>: where the program indexes with it, the program panics. A varint
  that is cut off or too long is an error value.

  The file shows that reading back an integer at the place it was written returns it, whatever
  surrounds it.
\<close>

section \<open>Little-endian integers\<close>

fun le_bytes :: "nat \<Rightarrow> nat \<Rightarrow> bytes" where
  "le_bytes 0 n = []"
| "le_bytes (Suc k) n = word_of_nat (n mod 256) # le_bytes k (n div 256)"

fun le_nat :: "bytes \<Rightarrow> nat" where
  "le_nat [] = 0"
| "le_nat (b # bs) = unat b + 256 * le_nat bs"

definition u64_to_le_bytes :: "u64 \<Rightarrow> bytes" where
  "u64_to_le_bytes w = le_bytes 8 (unat w)"

definition u32_to_le_bytes :: "u32 \<Rightarrow> bytes" where
  "u32_to_le_bytes w = le_bytes 4 (unat w)"

definition u64_from_le_bytes :: "bytes \<Rightarrow> u64" where
  "u64_from_le_bytes bs = word_of_nat (le_nat bs)"

definition u32_from_le_bytes :: "bytes \<Rightarrow> u32" where
  "u32_from_le_bytes bs = word_of_nat (le_nat bs)"

lemma length_le_bytes [simp]: "length (le_bytes k n) = k"
  by (induction k arbitrary: n) auto

lemma length_u64_to_le_bytes [simp]: "length (u64_to_le_bytes w) = 8"
  by (simp add: u64_to_le_bytes_def)

lemma length_u32_to_le_bytes [simp]: "length (u32_to_le_bytes w) = 4"
  by (simp add: u32_to_le_bytes_def)

lemma le_nat_le_bytes: "le_nat (le_bytes k n) = n mod 256 ^ k"
proof (induction k arbitrary: n)
  case (Suc k)
  have "unat (word_of_nat (n mod 256) :: u8) = n mod 256"
    by (simp add: unat_of_nat)
  then show ?case by (simp add: Suc mod_mult2_eq)
qed simp

lemma u64_from_to_le_bytes [simp]: "u64_from_le_bytes (u64_to_le_bytes w) = w"
proof -
  have "unat w < 2 ^ LENGTH(64)" by (rule unsigned_less)
  then have "unat w mod 256 ^ 8 = unat w" by simp
  then show ?thesis by (simp add: u64_from_le_bytes_def u64_to_le_bytes_def le_nat_le_bytes)
qed

lemma u32_from_to_le_bytes [simp]: "u32_from_le_bytes (u32_to_le_bytes w) = w"
proof -
  have "unat w < 2 ^ LENGTH(32)" by (rule unsigned_less)
  then have "unat w mod 256 ^ 4 = unat w" by simp
  then show ?thesis by (simp add: u32_from_le_bytes_def u32_to_le_bytes_def le_nat_le_bytes)
qed

lemma le_nat_less: "le_nat bs < 256 ^ length bs"
proof (induction bs)
  case (Cons b bs)
  have "unat b < 2 ^ LENGTH(8)" by (rule unsigned_less)
  with Cons show ?case by simp
qed simp

lemma le_bytes_le_nat: "le_bytes (length bs) (le_nat bs) = bs"
proof (induction bs)
  case (Cons b bs)
  have "unat b < 2 ^ LENGTH(8)" by (rule unsigned_less)
  then have "(unat b + 256 * le_nat bs) mod 256 = unat b" "(unat b + 256 * le_nat bs) div 256 = le_nat bs" by simp_all
  with Cons show ?case by simp
qed simp

lemma u64_to_from_le_bytes: "length bs = 8 \<Longrightarrow> u64_to_le_bytes (u64_from_le_bytes bs) = bs"
  using le_nat_less [of bs] le_bytes_le_nat [of bs]
  by (simp add: u64_from_le_bytes_def u64_to_le_bytes_def unat_of_nat take_bit_eq_mod)

lemma u32_to_from_le_bytes: "length bs = 4 \<Longrightarrow> u32_to_le_bytes (u32_from_le_bytes bs) = bs"
  using le_nat_less [of bs] le_bytes_le_nat [of bs]
  by (simp add: u32_from_le_bytes_def u32_to_le_bytes_def unat_of_nat take_bit_eq_mod)

section \<open>Byte ranges\<close>

text \<open>\<open>slice data a b\<close> is the range from \<open>a\<close> up to \<open>b\<close>, when it lies inside the buffer.\<close>

definition slice :: "'a list \<Rightarrow> nat \<Rightarrow> nat \<Rightarrow> 'a list option" where
  "slice data a b = (if a \<le> b \<and> b \<le> length data then Some (take (b - a) (drop a data)) else None)"

definition u64_at :: "bytes \<Rightarrow> nat \<Rightarrow> u64 option" where
  "u64_at data i = map_option u64_from_le_bytes (slice data i (i + 8))"

definition u32_at :: "bytes \<Rightarrow> nat \<Rightarrow> u32 option" where
  "u32_at data i = map_option u32_from_le_bytes (slice data i (i + 4))"

lemma slice_length: "slice data a b = Some xs \<Longrightarrow> length xs = b - a"
  by (auto simp: slice_def split: if_splits)

lemma slice_middle:
  "slice (pre @ mid @ suf) (length pre) (length pre + length mid) = Some mid"
  by (simp add: slice_def)

lemma slice_at:
  assumes "data = pre @ mid @ suf" and "a = length pre" and "b = length pre + length mid"
  shows "slice data a b = Some mid"
  using assms by (simp add: slice_middle)

lemma slice_inside:
  assumes "slice data a b = Some xs" and "i \<le> j" and "a + j \<le> b"
  shows "slice data (a + i) (a + j) = slice xs i j"
proof -
  have xs: "xs = take (b - a) (drop a data)" and ab: "a \<le> b" "b \<le> length data"
    using assms(1) by (auto simp: slice_def split: if_splits)
  show ?thesis using assms(2,3) ab by (auto simp: slice_def xs drop_take min_def add.commute)
qed

lemma slice_Some: "a \<le> b \<Longrightarrow> b \<le> length data \<Longrightarrow> \<exists>xs. slice data a b = Some xs"
  by (simp add: slice_def)

lemma u64_at_middle:
  assumes "data = pre @ u64_to_le_bytes w @ suf" and "i = length pre"
  shows "u64_at data i = Some w"
  using slice_middle [of pre "u64_to_le_bytes w" suf] assms by (simp add: u64_at_def)

lemma u32_at_middle:
  assumes "data = pre @ u32_to_le_bytes w @ suf" and "i = length pre"
  shows "u32_at data i = Some w"
  using slice_middle [of pre "u32_to_le_bytes w" suf] assms by (simp add: u32_at_def)

lemma u64_at_Some: "i + 8 \<le> length data \<Longrightarrow> \<exists>w. u64_at data i = Some w"
  by (simp add: u64_at_def slice_def)

lemma u64_at_inside:
  "slice data a b = Some xs \<Longrightarrow> a + i + 8 \<le> b \<Longrightarrow> u64_at data (a + i) = u64_at xs i"
  using slice_inside [of data a b xs i "i + 8"] by (simp add: u64_at_def add.assoc)

lemma u32_at_inside:
  "slice data a b = Some xs \<Longrightarrow> a + i + 4 \<le> b \<Longrightarrow> u32_at data (a + i) = u32_at xs i"
  using slice_inside [of data a b xs i "i + 4"] by (simp add: u32_at_def add.assoc)

text \<open>Records of one size, written one after the other.\<close>

lemma concat_stride_nth:
  assumes "\<And>x. length (enc x) = k" and "i < length xs"
  obtains pre suf where "concat (map enc xs) = pre @ enc (xs ! i) @ suf" and "length pre = i * k"
    and "length suf = (length xs - Suc i) * k"
proof
  show "concat (map enc xs) = concat (map enc (take i xs)) @ enc (xs ! i) @ concat (map enc (drop (Suc i) xs))"
    using id_take_nth_drop [OF assms(2)] by (metis concat.simps(2) concat_append list.map(2) map_append)
  have l: "length (concat (map enc ys)) = length ys * k" for ys
    using assms(1) by (induction ys) auto
  show "length (concat (map enc (take i xs))) = i * k"
    "length (concat (map enc (drop (Suc i) xs))) = (length xs - Suc i) * k"
    using l assms(2) by auto
qed

lemma length_concat_stride: "(\<And>x. length (enc x) = k) \<Longrightarrow> length (concat (map enc xs)) = length xs * k"
  by (induction xs) auto

section \<open>Results\<close>

text \<open>
  The errors of the read path. \<open>Panic\<close> stands for an index out of range, which stops the program;
  the others are the values the code returns.
\<close>

datatype varint_error = VarintPastEnd | VarintTooLong

datatype puffin_error =
    TooSmall
  | BadMagic string
  | BadFooter
  | BlobOutOfBounds u64 u64 nat
  | UnsupportedFlags u32

datatype storage_error =
    Panic
  | IoError
  | Truncated
  | LengthMismatch
  | NoRoomForOffsets
  | RangeOutsideMapping
  | OffsetsNotIncreasing
  | BlockTooShort nat
  | FirstKeysNotSorted
  | RecordPastBlock
  | WrongMagic u32
  | MissingScope
  | BadScope
  | EmptyStack
  | BadRange
  | VarintError varint_error
  | PuffinError puffin_error

type_synonym 'a result = "storage_error + 'a"

text \<open>The question-mark operator, \<^verbatim>\<open>ensure!\<close>, and the conversion of an optional value.\<close>

fun and_then :: "'e + 'a \<Rightarrow> ('a \<Rightarrow> 'e + 'b) \<Rightarrow> 'e + 'b" where
  "and_then (Inl e) f = Inl e"
| "and_then (Inr x) f = f x"

definition ensure :: "bool \<Rightarrow> 'e \<Rightarrow> 'e + 'b \<Rightarrow> 'e + 'b" where
  "ensure c e r = (if c then r else Inl e)"

fun ok_or :: "'e \<Rightarrow> 'a option \<Rightarrow> 'e + 'a" where
  "ok_or e None = Inl e"
| "ok_or e (Some x) = Inr x"

fun map_err :: "('e \<Rightarrow> 'f) \<Rightarrow> 'e + 'a \<Rightarrow> 'f + 'a" where
  "map_err f (Inl e) = Inl (f e)"
| "map_err f (Inr x) = Inr x"

lemma and_then_Inr: "and_then r f = Inr y \<longleftrightarrow> (\<exists>x. r = Inr x \<and> f x = Inr y)"
  by (cases r) auto

lemma ensure_Inr: "ensure c e r = Inr y \<longleftrightarrow> c \<and> r = Inr y"
  by (simp add: ensure_def)

lemma ok_or_Inr: "ok_or e r = Inr y \<longleftrightarrow> r = Some y"
  by (cases r) auto

lemma ensure_True [simp]: "c \<Longrightarrow> ensure c e r = r"
  by (simp add: ensure_def)

lemmas result_Inr = and_then_Inr ensure_Inr ok_or_Inr

lemma and_then_cong [fundef_cong]:
  "r = r' \<Longrightarrow> (\<And>x. r' = Inr x \<Longrightarrow> f x = g x) \<Longrightarrow> and_then r f = and_then r' g"
  by (cases r') auto

section \<open>Varints\<close>

text \<open>
  \<^verbatim>\<open>put_varint\<close> appends seven bits at a time, lowest first; the top bit of a byte says that another
  one follows. \<^verbatim>\<open>get_varint\<close> stops with an error once the shift leaves the word, so a corrupt payload
  is read for at most ten bytes.
\<close>

unbundle bit_operations_syntax

lemma unat_drop7: "unat (drop_bit 7 v) = unat v div 128"
  unfolding unat_drop_bit_eq by (simp add: drop_bit_eq_div)

function put_varint :: "u64 \<Rightarrow> bytes" where
  "put_varint v = (if v \<ge> 0x80 then (ucast v OR 0x80) # put_varint (drop_bit 7 v) else [ucast v])"
  by pat_completeness auto
termination
proof (relation "measure unat")
  fix v :: u64
  assume v: "0x80 \<le> v"
  have "unat (0x80 :: u64) \<le> unat v" using v by (simp only: word_le_nat_alt)
  then have "unat (drop_bit 7 v) < unat v" unfolding unat_drop7 by simp
  then show "(drop_bit 7 v, v) \<in> measure unat" by simp
qed simp

declare put_varint.simps [simp del]

function varint_loop :: "bytes \<Rightarrow> nat \<Rightarrow> u64 \<Rightarrow> nat \<Rightarrow> varint_error + u64 \<times> nat" where
  "varint_loop data i v shift =
     (if i < length data then
        let b = data ! i; v = v OR push_bit shift (ucast (b AND 0x7f)) in
        if b < 0x80 then Inr (v, i + 1)
        else if shift + 7 < 64 then varint_loop data (i + 1) v (shift + 7)
        else Inl VarintTooLong
      else Inl VarintPastEnd)"
  by pat_completeness auto
termination by (relation "measure (\<lambda>(data, i, v, shift). 64 - shift)") auto

declare varint_loop.simps [simp del]

definition get_varint :: "bytes \<Rightarrow> nat \<Rightarrow> varint_error + u64 \<times> nat" where
  "get_varint data i = varint_loop data i 0 0"

lemma put_varint_nonempty: "put_varint v \<noteq> []"
  by (simp add: put_varint.simps [of v])

lemma low_byte: "ucast ((ucast (w::u64) OR 0x80 :: u8) AND 0x7f) = w AND 0x7f"
proof (rule bit_word_eqI)
  fix n assume "n < LENGTH(64)"
  have m: "bit (0x7f :: u8) n \<longleftrightarrow> n < 7" "bit (0x7f :: u64) n \<longleftrightarrow> n < 7" "\<not> (bit (0x80 :: u8) n \<and> n < 7)"
    using bit_mask_iff [where 'a = u8, of 7 n] bit_mask_iff [where 'a = u64, of 7 n]
      bit_exp_iff [where 'a = u8, of 7 n]
    by (auto simp: mask_eq_exp_minus_1)
  show "bit (ucast ((ucast w OR 0x80 :: u8) AND 0x7f) :: u64) n = bit (w AND 0x7f) n"
    using m by (auto simp: bit_ucast_iff bit_and_iff bit_or_iff)
qed

lemma small_byte:
  assumes "w < (0x80 :: u64)"
  shows "(ucast w :: u8) < 0x80" and "ucast ((ucast w :: u8) AND 0x7f) = w"
proof -
  have w: "unat w < 128" using assms by (simp add: word_less_nat_alt)
  have u: "unat (ucast w :: u8) = unat w"
    using w by (simp add: unsigned_ucast_eq take_bit_eq_mod)
  have "(127 :: nat) = mask 7" by (simp add: mask_eq_exp_minus_1)
  then have "unat w AND 127 = unat w"
    using w take_bit_eq_mask [of 7 "unat w"] by (simp add: take_bit_eq_mod)
  with u have a: "unat ((ucast w :: u8) AND 0x7f) = unat w" by (simp add: unsigned_and_eq)
  show "(ucast w :: u8) < 0x80" using w u by (simp add: word_less_nat_alt)
  show "ucast ((ucast w :: u8) AND 0x7f) = w"
    using a w by (simp add: word_unat_eq_iff unsigned_ucast_eq take_bit_eq_mod)
qed

lemma varint_bits: "push_bit s (w AND 0x7f) OR push_bit (s + 7) (drop_bit 7 w) = push_bit s (w :: u64)"
proof (rule bit_word_eqI)
  fix n assume n: "n < LENGTH(64)"
  have m: "bit (0x7f :: u64) k \<longleftrightarrow> k < 7" for k
    using bit_mask_iff [where 'a = u64, of 7 k] by (auto simp: mask_eq_exp_minus_1)
  have "7 + (n - (s + 7)) = n - s" if "s + 7 \<le> n" using that by simp
  then show "bit (push_bit s (w AND 0x7f) OR push_bit (s + 7) (drop_bit 7 w)) n = bit (push_bit s w) n"
    using n unfolding bit_or_iff bit_push_bit_iff bit_and_iff bit_drop_bit_eq m comp_def
    by (cases "s + 7 \<le> n") auto
qed

lemma varint_loop_put:
  assumes "unat w < 2 ^ (64 - s)" and "s < 64"
  shows "varint_loop (pre @ put_varint w @ suf) (length pre) v s =
    Inr (v OR push_bit s w, length pre + length (put_varint w))"
  using assms
proof (induction w arbitrary: pre v s rule: put_varint.induct)
  case (1 w)
  show ?case
  proof (cases "w \<ge> 0x80")
    case True
    have big: "128 \<le> unat w" using True by (simp add: word_le_nat_alt)
    have "(2::nat) ^ 7 < 2 ^ (64 - s)" using big 1(2) by simp
    then have "7 < 64 - s" by (rule power_less_imp_less_exp [rotated]) simp
    then have s: "s + 7 < 64" by simp
    have "(2::nat) ^ (64 - s) = 128 * 2 ^ (64 - (s + 7))"
      using s power_add [of "2::nat" 7 "64 - (s + 7)"] by (simp add: add.commute)
    then have d: "unat (drop_bit 7 w) < 2 ^ (64 - (s + 7))"
      using 1(2) unfolding unat_drop7 by (simp add: less_mult_imp_div_less mult.commute)
    let ?b = "ucast w OR 0x80 :: u8"
    have b: "\<not> ?b < 0x80" using le_word_or2 [of "0x80 :: u8" "ucast w"] by (simp add: not_less or.commute)
    have IH: "varint_loop ((pre @ [?b]) @ put_varint (drop_bit 7 w) @ suf) (length (pre @ [?b]))
        (v OR push_bit s (w AND 0x7f)) (s + 7) =
        Inr ((v OR push_bit s (w AND 0x7f)) OR push_bit (s + 7) (drop_bit 7 w),
          length (pre @ [?b]) + length (put_varint (drop_bit 7 w)))"
      using 1(1) [OF True d s] by blast
    show ?thesis
      using IH b s True varint_bits [of s w]
      by (simp add: put_varint.simps [of w] varint_loop.simps [of _ "length pre"] low_byte Let_def
        nth_append or.assoc)
  next
    case False
    then have "w < 0x80" by simp
    from small_byte [OF this] False show ?thesis
      by (simp add: put_varint.simps [of w] varint_loop.simps [of _ "length pre"] Let_def nth_append)
  qed
qed

lemma get_put_varint:
  assumes "data = pre @ put_varint w @ suf" and "i = length pre"
  shows "get_varint data i = Inr (w, i + length (put_varint w))"
proof -
  have "unat w < 2 ^ LENGTH(64)" by (rule unsigned_less)
  then show ?thesis using varint_loop_put [of w 0 pre suf 0] assms by (simp add: get_varint_def)
qed

lemma varint_loop_advances:
  "varint_loop data i v s = Inr (w, j) \<Longrightarrow> s < 64 \<Longrightarrow>
     i < j \<and> j \<le> length data \<and> j \<le> i + (70 - s) div 7"
proof (induction data i v s rule: varint_loop.induct)
  case (1 data i v s)
  let ?b = "data ! i"
  let ?v = "v OR push_bit s (ucast (?b AND 0x7f))"
  have i: "i < length data" using 1(2) by (simp add: varint_loop.simps [of data i] split: if_splits)
  show ?case
  proof (cases "?b < 0x80")
    case True
    then show ?thesis using 1(2,3) i by (auto simp: varint_loop.simps [of data i] Let_def)
  next
    case False
    with 1(2) i have s: "s + 7 < 64" and r: "varint_loop data (i + 1) ?v (s + 7) = Inr (w, j)"
      by (auto simp: varint_loop.simps [of data i] Let_def split: if_splits)
    have "i + 1 < j \<and> j \<le> length data \<and> j \<le> i + 1 + (70 - (s + 7)) div 7"
      using 1(1) [OF i refl refl False s r s] .
    moreover have "(70 - s) div 7 = 1 + (70 - (s + 7)) div 7"
      using s div_add1_eq [of "70 - (s + 7)" 7 7] by simp
    ultimately show ?thesis by simp
  qed
qed

text \<open>
  C26: A varint read from any payload at any offset either fails or ends inside the payload, after
  at least one and at most ten bytes.
\<close>

theorem get_varint_bounded:
  "get_varint data i = Inr (w, j) \<Longrightarrow> i < j \<and> j \<le> length data \<and> j \<le> i + 10"
  using varint_loop_advances [of data i 0 0 w j] by (simp add: get_varint_def)

theorem get_varint_bounded_witness:
  "get_varint [0xAC, 0x02, 0xFF] 0 = Inr (300, 2) \<and> (0::nat) < 2 \<and> 2 \<le> (0::nat) + 10"
proof -
  have "get_varint [0xAC, 0x02, 0xFF] 0 = Inr (300, 2)" by code_simp
  with get_varint_bounded [OF this] show ?thesis by blast
qed

end
