(* ===== verification/Tier.thy ===== *)
theory Tier
  imports Byte_Codec
begin

text \<open>
  The merge policy of \<^verbatim>\<open>src/storage/tier.rs\<close>: which stretch of the stack to merge next, given the
  level of every run, oldest first. Merging a picked stretch shortens the stack, so a policy that is
  followed until it has nothing due comes to rest; it keeps the levels descending up the stack, and
  at rest no level holds as many runs as the fanout.
\<close>

section \<open>The policy\<close>

definition DEFAULT_TIER_FANOUT :: nat where
  "DEFAULT_TIER_FANOUT = 10"

function stretch_end :: "u8 list \<Rightarrow> nat \<Rightarrow> nat \<Rightarrow> nat" where
  "stretch_end levels start e =
     (if e < length levels \<and> levels ! e = levels ! start then stretch_end levels start (e + 1) else e)"
  by pat_completeness auto
termination
  by (relation "measure (\<lambda>(levels, start, e). length levels - e)") auto

declare stretch_end.simps [simp del]

text \<open>A stretch that cannot be extended on either side.\<close>

definition maximal_stretch :: "u8 list \<Rightarrow> nat \<Rightarrow> nat \<Rightarrow> bool" where
  "maximal_stretch levels a b \<longleftrightarrow> a < b \<and> b \<le> length levels \<and> (\<forall>i. a \<le> i \<and> i < b \<longrightarrow> levels ! i = levels ! a) \<and>
     (a = 0 \<or> levels ! (a - 1) \<noteq> levels ! a) \<and> (b < length levels \<longrightarrow> levels ! b \<noteq> levels ! a)"

lemma maximalD:
  assumes "maximal_stretch levels a b"
  shows "a < b" and "b \<le> length levels" and "a \<le> i \<Longrightarrow> i < b \<Longrightarrow> levels ! i = levels ! a"
    and "0 < a \<Longrightarrow> levels ! (a - 1) \<noteq> levels ! a" and "b < length levels \<Longrightarrow> levels ! b \<noteq> levels ! a"
  using assms unfolding maximal_stretch_def by blast+

lemma stretch_end_spec:
  assumes "start \<le> e" and "e \<le> length levels" and "\<forall>i. start \<le> i \<and> i < e \<longrightarrow> levels ! i = levels ! start"
  shows "e \<le> stretch_end levels start e \<and> stretch_end levels start e \<le> length levels \<and>
    (\<forall>i. start \<le> i \<and> i < stretch_end levels start e \<longrightarrow> levels ! i = levels ! start) \<and>
    (stretch_end levels start e < length levels \<longrightarrow> levels ! stretch_end levels start e \<noteq> levels ! start)"
  using assms
proof (induction levels start e rule: stretch_end.induct)
  case (1 levels start e)
  show ?case
  proof (cases "e < length levels \<and> levels ! e = levels ! start")
    case True
    have all: "\<forall>i. start \<le> i \<and> i < e + 1 \<longrightarrow> levels ! i = levels ! start"
      using 1(4) True by (auto simp: less_Suc_eq)
    have eq: "stretch_end levels start e = stretch_end levels start (e + 1)"
      using True by (subst stretch_end.simps) simp
    have "start \<le> e + 1" "e + 1 \<le> length levels" using 1(2) True by auto
    from 1(1) [OF True this all] show ?thesis unfolding eq by (elim conjE, intro conjI) (linarith | assumption)+
  next
    case False
    then have eq: "stretch_end levels start e = e" by (subst stretch_end.simps) (simp only: if_False)
    show ?thesis unfolding eq using 1(2-4) False by blast
  qed
qed

lemma stretch_end_gt: "start < length levels \<Longrightarrow> start < stretch_end levels start start"
proof -
  assume l: "start < length levels"
  then have "stretch_end levels start start = stretch_end levels start (start + 1)" by (subst stretch_end.simps) simp
  moreover have "\<forall>i. start \<le> i \<and> i < start + 1 \<longrightarrow> levels ! i = levels ! start"
    by (intro allI impI arg_cong [of _ _ "(!) levels"]) linarith
  from stretch_end_spec [OF _ _ this] l have "start + 1 \<le> stretch_end levels start (start + 1)" by force
  ultimately show ?thesis by linarith
qed

lemma stretch_end_maximal:
  assumes "start < length levels" and "start = 0 \<or> levels ! (start - 1) \<noteq> levels ! start"
  shows "maximal_stretch levels start (stretch_end levels start start)"
proof -
  have "\<forall>i. start \<le> i \<and> i < start \<longrightarrow> levels ! i = levels ! start" by linarith
  from stretch_end_spec [OF order_refl less_imp_le [OF assms(1)] this] stretch_end_gt [OF assms(1)] assms(2) show ?thesis
    unfolding maximal_stretch_def by blast
qed

function stretch_loop :: "u8 list \<Rightarrow> nat \<Rightarrow> nat \<Rightarrow> (nat \<times> nat) option \<Rightarrow> (nat \<times> nat) option" where
  "stretch_loop levels least start best =
     (if start < length levels then
        let e = stretch_end levels start start;
            improves = (case best of None \<Rightarrow> True | Some b \<Rightarrow> levels ! start < levels ! fst b)
        in stretch_loop levels least e (if least \<le> e - start \<and> improves then Some (start, e) else best)
      else best)"
  by pat_completeness auto
termination
  by (relation "measure (\<lambda>(levels, least, start, best). length levels - start)")
    (auto simp: stretch_end_gt diff_less_mono2)

declare stretch_loop.simps [simp del]

definition lowest_stretch :: "u8 list \<Rightarrow> nat \<Rightarrow> (nat \<times> nat) option" where
  "lowest_stretch levels least = stretch_loop levels least 0 None"

definition pick_merge :: "u8 list \<Rightarrow> nat \<Rightarrow> nat \<Rightarrow> (nat \<times> nat) option" where
  "pick_merge levels fanout max_runs =
     (let fanout = max fanout 2 in
      case lowest_stretch levels fanout of
        Some (start, _) \<Rightarrow> Some (start, start + fanout)
      | None \<Rightarrow> if max_runs \<le> length levels then lowest_stretch levels 2 else None)"

section \<open>What is picked\<close>

lemma maximal_unique: "maximal_stretch levels a b \<Longrightarrow> maximal_stretch levels a c \<Longrightarrow> b = c"
  unfolding maximal_stretch_def by (metis less_le_trans linorder_neqE_nat nat_less_le)

lemma maximal_next:
  assumes "maximal_stretch levels a b" and "maximal_stretch levels c d" and "a \<le> c"
  shows "c = a \<or> b \<le> c"
proof (rule ccontr)
  assume n: "\<not> (c = a \<or> b \<le> c)"
  then have "a \<le> c - 1" "c - 1 < b" "a \<le> c" "c < b" using assms(3) by auto
  then have "levels ! (c - 1) = levels ! c" using maximalD(3) [OF assms(1)] by metis
  moreover have "0 < c" using n assms(3) by linarith
  ultimately show False using maximalD(4) [OF assms(2)] by blast
qed

text \<open>The candidates from a position on, and the choice among them: the lowest level, then the oldest.\<close>

definition candidate :: "u8 list \<Rightarrow> nat \<Rightarrow> nat \<Rightarrow> nat \<Rightarrow> nat \<Rightarrow> bool" where
  "candidate levels least start a b \<longleftrightarrow> maximal_stretch levels a b \<and> start \<le> a \<and> least \<le> b - a"

definition chosen :: "u8 list \<Rightarrow> nat \<Rightarrow> nat \<Rightarrow> nat \<times> nat \<Rightarrow> bool" where
  "chosen levels least start r \<longleftrightarrow> candidate levels least 0 (fst r) (snd r) \<and>
     (\<forall>c d. candidate levels least 0 c d \<longrightarrow> c < start \<longrightarrow> levels ! fst r \<le> levels ! c \<and> (levels ! c = levels ! fst r \<longrightarrow> fst r \<le> c))"

lemma stretch_loop_spec:
  assumes "start = 0 \<or> length levels \<le> start \<or> levels ! (start - 1) \<noteq> levels ! start"
    and "case best of None \<Rightarrow> (\<forall>c d. candidate levels least 0 c d \<longrightarrow> start \<le> c) | Some r \<Rightarrow> chosen levels least start r \<and> fst r < start"
  shows "case stretch_loop levels least start best of
      None \<Rightarrow> \<not> (\<exists>c d. candidate levels least 0 c d)
    | Some r \<Rightarrow> chosen levels least (length levels) r"
  using assms
proof (induction levels least start best rule: stretch_loop.induct)
  case (1 levels least start best)
  show ?case
  proof (cases "start < length levels")
    case False
    have "c < length levels" if "candidate levels least 0 c d" for c d
      using that maximalD(1,2) [of levels c d] by (simp add: candidate_def)
    then show ?thesis
      using 1(3) False by (fastforce simp: stretch_loop.simps [of levels least start] chosen_def split: option.splits)
  next
    case True
    let ?e = "stretch_end levels start start"
    let ?imp = "case best of None \<Rightarrow> True | Some b \<Rightarrow> levels ! start < levels ! fst b"
    let ?best = "if least \<le> ?e - start \<and> ?imp then Some (start, ?e) else best"
    have m: "maximal_stretch levels start ?e" using stretch_end_maximal [OF True] 1(2) True by simp
    have gt: "start < ?e" by (rule stretch_end_gt [OF True])
    have old: "c < start \<or> (c = start \<and> d = ?e \<and> least \<le> ?e - start)" if "candidate levels least 0 c d" "c < ?e" for c d
      using that maximal_next [OF m, of c d] maximal_unique [OF m, of d]
      by (cases "c < start") (auto simp: candidate_def)
    have e: "?e = 0 \<or> length levels \<le> ?e \<or> levels ! (?e - 1) \<noteq> levels ! ?e"
    proof -
      have "levels ! (?e - 1) = levels ! start" using maximalD(3) [OF m, of "?e - 1"] gt by linarith
      then show ?thesis using maximalD(5) [OF m] by (metis linorder_not_less)
    qed
    have "case ?best of None \<Rightarrow> (\<forall>c d. candidate levels least 0 c d \<longrightarrow> ?e \<le> c) | Some r \<Rightarrow> chosen levels least ?e r \<and> fst r < ?e"
    proof (cases "least \<le> ?e - start \<and> ?imp")
      case True
      have "candidate levels least 0 start ?e" using m True by (simp add: candidate_def)
      moreover have "levels ! start \<le> levels ! c \<and> (levels ! c = levels ! start \<longrightarrow> start \<le> c)"
        if "candidate levels least 0 c d" "c < ?e" for c d
      proof (cases "c < start")
        case c: True
        have "best \<noteq> None"
        proof
          assume "best = None"
          then have "start \<le> c" using 1(3) that(1) by auto
          then show False using c by simp
        qed
        then obtain r where r: "best = Some r" by blast
        then have "levels ! fst r \<le> levels ! c" using 1(3) that(1) c by (auto simp: chosen_def)
        then have "levels ! start < levels ! c" using True r by (auto intro: less_le_trans)
        then show ?thesis by auto
      next
        case False
        then show ?thesis using old [OF that] by simp
      qed
      ultimately show ?thesis using True gt by (auto simp: chosen_def)
    next
      case False
      show ?thesis
      proof (cases best)
        case None
        then have "\<not> least \<le> ?e - start" using False by simp
        then show ?thesis using None 1(3) old by (simp add: False) (metis linorder_not_less)
      next
        case (Some r)
        have r: "chosen levels least start r" "fst r < start" using 1(3) Some by simp_all
        have "levels ! fst r \<le> levels ! c \<and> (levels ! c = levels ! fst r \<longrightarrow> fst r \<le> c)"
          if "candidate levels least 0 c d" "c < ?e" for c d
        proof (cases "c < start")
          case True
          then show ?thesis using r(1) that(1) unfolding chosen_def by blast
        next
          case c: False
          then have "c = start" "least \<le> ?e - start" using old [OF that] by auto
          then have "\<not> levels ! start < levels ! fst r" using False Some by simp
          then show ?thesis using \<open>c = start\<close> r(2) by simp
        qed
        then show ?thesis using False Some r gt by (auto simp: chosen_def)
      qed
    qed
    from 1(1) [OF True refl refl e this] show ?thesis
      using True by (simp add: stretch_loop.simps [of levels least start best] Let_def)
  qed
qed

lemma lowest_stretch_None: "lowest_stretch levels least = None \<Longrightarrow> maximal_stretch levels a b \<Longrightarrow> b - a < least"
  using stretch_loop_spec [of 0 levels least None] by (auto simp: lowest_stretch_def candidate_def not_le)

lemma lowest_stretch_Some:
  assumes "lowest_stretch levels least = Some (a, b)"
  shows "maximal_stretch levels a b" and "least \<le> b - a"
    and "maximal_stretch levels c d \<Longrightarrow> least \<le> d - c \<Longrightarrow> levels ! a \<le> levels ! c \<and> (levels ! c = levels ! a \<longrightarrow> a \<le> c)"
proof -
  have r: "chosen levels least (length levels) (a, b)"
    using stretch_loop_spec [of 0 levels least None] assms by (simp add: lowest_stretch_def)
  then show "maximal_stretch levels a b" and "least \<le> b - a" by (simp_all add: chosen_def candidate_def)
  show "levels ! a \<le> levels ! c \<and> (levels ! c = levels ! a \<longrightarrow> a \<le> c)" if m: "maximal_stretch levels c d" and "least \<le> d - c"
  proof -
    have "candidate levels least 0 c d" "c < length levels" using that maximalD(1,2) [OF m] by (simp_all add: candidate_def)
    then show ?thesis using r unfolding chosen_def fst_conv by blast
  qed
qed

text \<open>What every pick has: at least two runs of one level, a boundary below, and never more than the fanout.\<close>

lemma pick_merge_picks:
  assumes "pick_merge levels fanout max_runs = Some (a, b)"
  shows "a + 2 \<le> b" and "b \<le> length levels" and "b - a \<le> max fanout 2"
    and "a \<le> i \<Longrightarrow> i < b \<Longrightarrow> levels ! i = levels ! a" and "0 < a \<Longrightarrow> levels ! (a - 1) \<noteq> levels ! a"
proof -
  have "\<exists>e. maximal_stretch levels a e \<and> a + 2 \<le> b \<and> b \<le> e \<and> b - a \<le> max fanout 2"
  proof (cases "lowest_stretch levels (max fanout 2)")
    case None
    then have b: "lowest_stretch levels 2 = Some (a, b)" using assms by (auto simp: pick_merge_def Let_def split: if_splits)
    note m = lowest_stretch_Some(1,2) [OF b]
    have "b - a < max fanout 2" by (rule lowest_stretch_None [OF None m(1)])
    then show ?thesis using m by auto
  next
    case (Some r)
    then obtain e where e: "lowest_stretch levels (max fanout 2) = Some (a, e)" "b = a + max fanout 2"
      using assms by (cases r) (auto simp: pick_merge_def Let_def)
    then show ?thesis using lowest_stretch_Some(1,2) [OF e(1)] maximalD(1) [OF lowest_stretch_Some(1) [OF e(1)]] by fastforce
  qed
  then obtain e where e: "maximal_stretch levels a e" and b: "a + 2 \<le> b" "b \<le> e" "b - a \<le> max fanout 2" by blast
  show "a + 2 \<le> b" and "b - a \<le> max fanout 2" by (fact b)+
  show "b \<le> length levels" using maximalD(2) [OF e] b(2) by linarith
  show "levels ! i = levels ! a" if "a \<le> i" "i < b" using maximalD(3) [OF e that(1)] that(2) b(2) by linarith
  show "levels ! (a - 1) \<noteq> levels ! a" if "0 < a" by (rule maximalD(4) [OF e that])
qed

lemma pick_merge_None:
  assumes "pick_merge levels fanout max_runs = None" and "maximal_stretch levels a b"
  shows "b - a < max fanout 2" and "max_runs \<le> length levels \<Longrightarrow> b = a + 1"
proof -
  have n: "lowest_stretch levels (max fanout 2) = None" using assms(1) by (auto simp: pick_merge_def Let_def split: option.splits)
  then show "b - a < max fanout 2" using assms(2) by (rule lowest_stretch_None)
  show "b = a + 1" if "max_runs \<le> length levels"
  proof -
    have "lowest_stretch levels 2 = None" using assms(1) n that by (simp add: pick_merge_def Let_def)
    then have "b - a < 2" by (rule lowest_stretch_None [OF _ assms(2)])
    then show ?thesis using maximalD(1) [OF assms(2)] by linarith
  qed
qed

section \<open>Following the policy\<close>

text \<open>
  The level of a merged run (\<^verbatim>\<open>merged_level\<close> of \<^verbatim>\<open>src/storage/flush.rs\<close>), the levels after a merge was
  spliced in, and the stack after every merge that is due.
\<close>

definition saturating_inc :: "u8 \<Rightarrow> u8" where
  "saturating_inc l = (if l = - 1 then l else l + 1)"

definition merged_level :: "u8 list \<Rightarrow> u8" where
  "merged_level levels = (if levels = [] then 0 else saturating_inc (foldr max levels 0))"

definition splice_levels :: "u8 list \<Rightarrow> nat \<Rightarrow> nat \<Rightarrow> u8 list" where
  "splice_levels levels a b = take a levels @ [merged_level (take (b - a) (drop a levels))] @ drop b levels"

function settle :: "u8 list \<Rightarrow> nat \<Rightarrow> nat \<Rightarrow> u8 list" where
  "settle levels fanout max_runs =
     (case pick_merge levels fanout max_runs of
        None \<Rightarrow> levels
      | Some (a, b) \<Rightarrow> settle (splice_levels levels a b) fanout max_runs)"
  by pat_completeness auto
termination
proof (relation "measure (\<lambda>(levels, fanout, max_runs). length levels)")
  fix levels fanout max_runs r a b
  assume "pick_merge levels fanout max_runs = Some r" "(a, b) = r"
  then have "a + 2 \<le> b" "b \<le> length levels" using pick_merge_picks(1,2) by blast+
  then show "((splice_levels levels a b, fanout, max_runs), levels, fanout, max_runs) \<in> measure (\<lambda>(levels, fanout, max_runs). length levels)"
    by (simp add: splice_levels_def)
qed simp

declare settle.simps [simp del]

definition descending :: "u8 list \<Rightarrow> bool" where
  "descending levels \<longleftrightarrow> sorted_wrt (\<ge>) levels"

lemma descending_nth: "descending levels \<Longrightarrow> i \<le> j \<Longrightarrow> j < length levels \<Longrightarrow> levels ! j \<le> levels ! i"
  unfolding descending_def using sorted_wrt_nth_less [of "(\<ge>)" levels i j] by (cases "i = j") auto

lemma descending_fold: "descending levels \<Longrightarrow> descending (levels @ [0])"
  by (simp add: descending_def sorted_wrt_append)

lemma saturating_inc_ge: "l \<le> saturating_inc l"
proof (cases "l = - 1")
  case False
  then have "1 + l \<noteq> 0" by (simp add: eq_neg_iff_add_eq_0 add.commute)
  then have "unat (l + 1) = Suc (unat l)" using unatSuc [of l] by (simp add: add.commute)
  then show ?thesis using False by (simp add: saturating_inc_def word_le_nat_alt)
qed (simp add: saturating_inc_def)

lemma saturating_inc_le: "l < m \<Longrightarrow> saturating_inc l \<le> m"
  by (auto simp: saturating_inc_def inc_le)

lemma merged_level_same:
  assumes "ls \<noteq> []" and "\<And>x. x \<in> set ls \<Longrightarrow> x = l"
  shows "merged_level ls = saturating_inc l"
proof -
  have "foldr max ls 0 = (if ls = [] then 0 else l)" if "\<forall>x \<in> set ls. x = l" for ls using that by (induction ls) auto
  from this [of ls] show ?thesis using assms by (simp add: merged_level_def)
qed

lemma pick_merge_level:
  assumes "pick_merge levels fanout max_runs = Some (a, b)" and "x \<in> set (take (b - a) (drop a levels))"
  shows "x = levels ! a"
proof -
  note p = pick_merge_picks [OF assms(1)]
  obtain i where "i < b - a" "x = levels ! (a + i)" using assms(2) p(2) by (auto simp: in_set_conv_nth)
  then show ?thesis using p(4) [of "a + i"] by simp
qed

lemma splice_levels_pick:
  assumes "pick_merge levels fanout max_runs = Some (a, b)"
  shows "splice_levels levels a b = take a levels @ [saturating_inc (levels ! a)] @ drop b levels"
proof -
  note p = pick_merge_picks [OF assms]
  have "take (b - a) (drop a levels) \<noteq> []" using p(1,2) by simp
  then show ?thesis unfolding splice_levels_def using merged_level_same [OF _ pick_merge_level [OF assms]] by simp
qed

lemma splice_descending:
  assumes d: "descending levels" and pick: "pick_merge levels fanout max_runs = Some (a, b)"
  shows "descending (splice_levels levels a b)"
proof -
  note p = pick_merge_picks [OF pick]
  have below: "saturating_inc (levels ! a) \<le> x" if x: "x \<in> set (take a levels)" for x
  proof -
    obtain i where i: "i < a" "x = levels ! i" using x p(1,2) by (auto simp: in_set_conv_nth)
    then have "levels ! (a - 1) \<le> x" "levels ! a \<le> levels ! (a - 1)"
      using descending_nth [OF d, of i "a - 1"] descending_nth [OF d, of "a - 1" a] p(1,2) by auto
    then have "levels ! a < x" using p(5) i(1) by (metis less_le_trans not_gr_zero not_less_zero order_le_less)
    then show ?thesis by (rule saturating_inc_le)
  qed
  have above: "x \<le> levels ! a" if x: "x \<in> set (drop b levels)" for x
  proof -
    obtain j where "b \<le> j" "j < length levels" "x = levels ! j" using x by (auto simp: in_set_conv_nth) (metis add.commute le_add2 less_diff_conv)
    then show ?thesis using descending_nth [OF d, of a j] p(1) by simp
  qed
  have "y \<le> x" if "x \<in> set (take a levels)" "y \<in> set (drop b levels)" for x y
    using below [OF that(1)] above [OF that(2)] saturating_inc_ge [of "levels ! a"] by (meson order_trans)
  moreover have "sorted_wrt (\<ge>) (take a levels)" "sorted_wrt (\<ge>) (drop b levels)"
    using d unfolding descending_def by (simp_all add: sorted_wrt_take sorted_wrt_drop)
  ultimately show ?thesis
    unfolding descending_def splice_levels_pick [OF pick]
    using below order_trans [OF above saturating_inc_ge] by (auto simp: sorted_wrt_append)
qed

text \<open>In a descending stack the runs of one level form one stretch.\<close>

lemma descending_level_stretch:
  assumes d: "descending levels" and v: "v \<in> set levels"
  obtains a b where "maximal_stretch levels a b" and "{i. i < length levels \<and> levels ! i = v} \<subseteq> {a..<b}"
proof -
  define a where "a = (LEAST i. i < length levels \<and> levels ! i = v)"
  have "\<exists>i. i < length levels \<and> levels ! i = v" using v by (auto simp: in_set_conv_nth)
  then have a: "a < length levels" "levels ! a = v" unfolding a_def by (metis (mono_tags, lifting) LeastI)+
  have least: "a \<le> i" if "i < length levels" "levels ! i = v" for i using that unfolding a_def by (intro Least_le) simp
  have "a = 0 \<or> levels ! (a - 1) \<noteq> levels ! a" using least [of "a - 1"] a by (cases a) auto
  from stretch_end_maximal [OF a(1) this] have m: "maximal_stretch levels a (stretch_end levels a a)" .
  have "i < stretch_end levels a a" if i: "i < length levels" "levels ! i = v" for i
  proof (rule ccontr)
    let ?e = "stretch_end levels a a"
    assume "\<not> i < ?e"
    then have e: "?e \<le> i" "?e < length levels" using i by auto
    then have "levels ! i \<le> levels ! ?e" "levels ! ?e \<le> levels ! a"
      using descending_nth [OF d] i maximalD(1) [OF m] by (auto simp: less_imp_le)
    then have "levels ! ?e = levels ! a" using i(2) a(2) by simp
    then show False using maximalD(5) [OF m e(2)] by simp
  qed
  then have "{i. i < length levels \<and> levels ! i = v} \<subseteq> {a..<stretch_end levels a a}" using least by auto
  then show thesis by (rule that [OF m])
qed

lemma at_rest:
  assumes "descending levels" and "pick_merge levels fanout max_runs = None"
  shows "length (filter (\<lambda>l. l = v) levels) < max fanout 2" and "max_runs \<le> length levels \<Longrightarrow> distinct levels"
proof -
  have few: "length (filter (\<lambda>l. l = v) levels) \<le> b - a" if "{i. i < length levels \<and> levels ! i = v} \<subseteq> {a..<b}" for a b v
    using card_mono [OF _ that] by (simp add: length_filter_conv_card)
  show "length (filter (\<lambda>l. l = v) levels) < max fanout 2"
  proof (cases "v \<in> set levels")
    case True
    obtain a b where m: "maximal_stretch levels a b" and sub: "{i. i < length levels \<and> levels ! i = v} \<subseteq> {a..<b}"
      using descending_level_stretch [OF assms(1) True] .
    show ?thesis by (rule le_less_trans [OF few [OF sub] pick_merge_None(1) [OF assms(2) m]])
  next
    case False
    then have "filter (\<lambda>l. l = v) levels = []" by (auto simp: filter_empty_conv)
    then show ?thesis by simp
  qed
  show "distinct levels" if ceiling: "max_runs \<le> length levels"
    unfolding distinct_conv_nth
  proof (intro allI impI notI)
    fix i j assume ij: "i < length levels" "j < length levels" "i \<noteq> j" "levels ! i = levels ! j"
    obtain a b where m: "maximal_stretch levels a b" and sub: "{k. k < length levels \<and> levels ! k = levels ! j} \<subseteq> {a..<b}"
      using descending_level_stretch [OF assms(1) nth_mem [OF ij(2)]] .
    have "i \<in> {a..<b}" "j \<in> {a..<b}" using sub ij(1,2,4) by auto
    then show False using pick_merge_None(2) [OF assms(2) m ceiling] ij(3) by simp
  qed
qed

lemma settle_rests:
  assumes "descending levels"
  shows "pick_merge (settle levels fanout max_runs) fanout max_runs = None \<and> descending (settle levels fanout max_runs) \<and>
    length (settle levels fanout max_runs) \<le> length levels"
  using assms
proof (induction levels fanout max_runs rule: settle.induct)
  case (1 levels fanout max_runs)
  show ?case
  proof (cases "pick_merge levels fanout max_runs")
    case None
    then show ?thesis using 1(2) by (simp add: settle.simps [of levels fanout max_runs])
  next
    case (Some r)
    obtain a b where r: "r = (a, b)" by fastforce
    have eq: "settle levels fanout max_runs = settle (splice_levels levels a b) fanout max_runs"
      using Some r by (simp add: settle.simps [of levels fanout max_runs])
    have "length (splice_levels levels a b) \<le> length levels"
      using pick_merge_picks(1,2) [OF Some [unfolded r]] by (simp add: splice_levels_def)
    then show ?thesis using 1(1) [OF Some r [symmetric] splice_descending [OF 1(2) Some [unfolded r]]] eq by simp
  qed
qed

text \<open>
  C16: a merge never disturbs the resolution order and always buys depth. What the policy picks is a
  contiguous stretch of at least two runs of the same level, inside the stack, starting at a
  boundary between levels and no longer than the fanout; and when it picks nothing, no stretch is
  as long as the fanout and, at the ceiling, no two neighbours share a level.
\<close>

theorem pick_merge_is_contiguous_and_bounded:
  "case pick_merge levels fanout max_runs of
     Some (a, b) \<Rightarrow> a + 2 \<le> b \<and> b \<le> length levels \<and> b - a \<le> max fanout 2 \<and> set (take (b - a) (drop a levels)) = {levels ! a} \<and>
       (a = 0 \<or> levels ! (a - 1) \<noteq> levels ! a)
   | None \<Rightarrow> \<not> (\<exists>a b. maximal_stretch levels a b \<and> (max fanout 2 \<le> b - a \<or> max_runs \<le> length levels \<and> a + 2 \<le> b))"
proof (cases "pick_merge levels fanout max_runs")
  case None
  then show ?thesis using pick_merge_None [OF None] by fastforce
next
  case (Some r)
  obtain a b where r: "r = (a, b)" by fastforce
  note p = pick_merge_picks [OF Some [unfolded r]]
  have "set (take (b - a) (drop a levels)) \<subseteq> {levels ! a}" using pick_merge_level [OF Some [unfolded r]] by blast
  moreover have "levels ! a \<in> set (take (b - a) (drop a levels))"
    using p(1,2) nth_mem [of 0 "take (b - a) (drop a levels)"] by simp
  ultimately have "set (take (b - a) (drop a levels)) = {levels ! a}" by blast
  then show ?thesis using Some r p(1-3,5) by auto
qed

theorem pick_merge_is_contiguous_and_bounded_witness: "pick_merge [0, 0] 2 9 = Some (0, 2)"
proof -
  note c = pick_merge_is_contiguous_and_bounded [of "[0, 0]" 2 9]
  have m: "maximal_stretch [0, 0] 0 2" by (auto simp: maximal_stretch_def less_2_cases_iff)
  have "pick_merge [0, 0] 2 9 \<noteq> None"
  proof
    assume n: "pick_merge [0, 0] 2 9 = None"
    from c [unfolded n option.case] m have "\<not> max 2 2 \<le> (2 - 0 :: nat)" by blast
    then show False by simp
  qed
  then obtain a b where ab: "pick_merge [0, 0] 2 9 = Some (a, b)" by auto
  then have "a + 2 \<le> b" "b \<le> 2" using c by auto
  then show ?thesis using ab by auto
qed

text \<open>
  C15: merging comes to rest. From a stack whose levels descend, merging whatever the policy picks
  until it picks nothing ends; the levels still descend, no level holds as many runs as the fanout,
  and the stack is below the ceiling or has at most one run per level.
\<close>

theorem merges_come_to_rest:
  assumes "descending levels"
  shows "pick_merge (settle levels fanout max_runs) fanout max_runs = None \<and> descending (settle levels fanout max_runs) \<and>
    length (settle levels fanout max_runs) \<le> length levels \<and>
    length (filter (\<lambda>l. l = v) (settle levels fanout max_runs)) < max fanout 2 \<and>
    (length (settle levels fanout max_runs) < max_runs \<or> distinct (settle levels fanout max_runs))"
proof -
  note r = settle_rests [OF assms, of fanout max_runs]
  show ?thesis
    using r at_rest [of "settle levels fanout max_runs" fanout max_runs] by (metis linorder_not_less)
qed

theorem merges_come_to_rest_witness:
  "descending [2, 1, 0, 0, 0] \<and> length (filter (\<lambda>l. l = 1) (settle [2, 1, 0, 0, 0] 3 8)) < 3"
proof -
  have d: "descending [2, 1, 0, 0, 0]" by (simp add: descending_def)
  then show ?thesis using merges_come_to_rest [OF d, of 3 8 1] by simp
qed

end
