(* ===== verification/Routing_Base.thy ===== *)
theory Routing_Base
  imports Types
begin

text \<open>
  The routing-base trait of \<^verbatim>\<open>src/core/base.rs\<close>: committed, immutable state that a forest consults
  next to its memtable. A trait object is a record of its methods. A method that visits pairs with
  a callback is the list of the pairs it visits, in order; a method that appends to a vector takes
  the vector and returns it.

  \<open>base_wf\<close> states what the forest relies on when it probes a base once and does not probe again:
  parents are smaller than their nodes and are themselves roots of the base, the visitors list
  exactly the stored keys in ascending order, and the registry names every scope whose overlay
  mentions a root of the base. The implementations under \<^verbatim>\<open>src/storage\<close> discharge it.
\<close>

section \<open>The trait\<close>

type_synonym scope_list = "scope_id list"

record base_stats =
  bs_sequence :: u64
  bs_shared_pairs :: u64
  bs_overlay_pairs :: u64
  bs_scopes :: u64
  bs_mapped_bytes :: u64
  bs_index_bytes :: u64
  bs_registry_indexed :: bool

record routing_base =
  shared_parent :: "node_id \<Rightarrow> node_id option"
  overlay_parent :: "scope_id \<Rightarrow> node_id \<Rightarrow> node_id option"
  scopes_for_root :: "node_id \<Rightarrow> scope_list"
  base_scopes :: "scope_id list"
  for_each_shared_pair :: "(node_id \<times> node_id) list"
  for_each_overlay_pair :: "scope_id \<Rightarrow> (node_id \<times> node_id) list"
  has_member_index :: bool
  shared_children :: "node_id \<Rightarrow> nat \<Rightarrow> node_id list \<Rightarrow> node_id list"
  overlay_children :: "scope_id \<Rightarrow> node_id \<Rightarrow> nat \<Rightarrow> node_id list \<Rightarrow> node_id list"
  base_stats_of :: base_stats

definition default_stats :: base_stats where
  "default_stats = \<lparr>bs_sequence = 0, bs_shared_pairs = 0, bs_overlay_pairs = 0, bs_scopes = 0,
     bs_mapped_bytes = 0, bs_index_bytes = 0, bs_registry_indexed = False\<rparr>"

section \<open>What a forest relies on\<close>

text \<open>A table of parents that are themselves roots of the table.\<close>

definition resolved_map :: "('a::order \<Rightarrow> 'a option) \<Rightarrow> bool" where
  "resolved_map q \<longleftrightarrow> decreasing q \<and> ran q \<inter> dom q = {}"

lemma resolved_map_empty [simp]: "resolved_map (\<lambda>_. None)" "resolved_map Map.empty"
  by (simp_all add: resolved_map_def)

lemma resolved_map_layered: "resolved_map q \<longleftrightarrow> layered q Map.empty"
  by (simp add: resolved_map_def)

lemma root_of_resolved_map:
  assumes "resolved_map q"
  shows "root_of q x = (case q x of None \<Rightarrow> x | Some b \<Rightarrow> b)"
proof -
  have "root_of (q ++ Map.empty) x = (case q x of None \<Rightarrow> root_of Map.empty x | Some b \<Rightarrow> root_of Map.empty b)"
    using assms by (intro layered_root) (simp add: resolved_map_layered)
  then show ?thesis by (simp add: root_of_None split: option.splits)
qed

text \<open>The table that stores a representative function, and the composition of two tables.\<close>

definition parent_of :: "('a \<Rightarrow> 'a) \<Rightarrow> 'a \<Rightarrow> 'a option" where
  "parent_of r x = (if r x = x then None else Some (r x))"

lemma resolved_parent_of:
  assumes "rep_fun r"
  shows "resolved_map (parent_of r)" and "root_of (parent_of r) = r"
proof -
  show res: "resolved_map (parent_of r)"
    using rep_funD [OF assms]
    by (auto simp: resolved_map_def decreasing_def parent_of_def ran_def less_le split: if_splits)
  show "root_of (parent_of r) = r"
    by (rule ext) (simp add: root_of_resolved_map [OF res] parent_of_def)
qed

lemma map_of_parent_of:
  "set ks = {k. r k \<noteq> k} \<Longrightarrow> map_of (map (\<lambda>k. (k, r k)) ks) = parent_of r"
proof (rule ext)
  fix x
  assume "set ks = {k. r k \<noteq> k}"
  moreover have "map_of (map (\<lambda>k. (k, r k)) ks) x = (if x \<in> set ks then Some (r x) else None)"
    by (induction ks) auto
  ultimately show "map_of (map (\<lambda>k. (k, r k)) ks) x = parent_of r x" by (simp add: parent_of_def)
qed

definition compose_parent :: "('a \<Rightarrow> 'a option) \<Rightarrow> ('a \<Rightarrow> 'a option) \<Rightarrow> 'a \<Rightarrow> 'a option" where
  "compose_parent q p x =
     (let y = (case q x of None \<Rightarrow> x | Some b \<Rightarrow> b) in
      case p y of Some r \<Rightarrow> Some r | None \<Rightarrow> (if y \<noteq> x then Some y else None))"

text \<open>The pairs visited are the keys of the table, each once, in ascending order.\<close>

definition lists_keys :: "('a::linorder \<times> 'b) list \<Rightarrow> ('a \<Rightarrow> 'b option) \<Rightarrow> bool" where
  "lists_keys ps q \<longleftrightarrow> sorted_wrt (<) (map fst ps) \<and> fst ` set ps = dom q"

definition base_wf :: "routing_base \<Rightarrow> bool" where
  "base_wf b \<longleftrightarrow> resolved_map (shared_parent b) \<and> (\<forall>s. resolved_map (overlay_parent b s)) \<and>
     lists_keys (for_each_shared_pair b) (shared_parent b) \<and>
     (\<forall>s. lists_keys (for_each_overlay_pair b s) (overlay_parent b s)) \<and>
     (\<forall>s. overlay_parent b s \<noteq> Map.empty \<longrightarrow> s \<in> set (base_scopes b)) \<and>
     (\<forall>s x. element (root_of (overlay_parent b s)) x \<longrightarrow> shared_parent b x = None \<longrightarrow>
        s \<in> set (scopes_for_root b x))"

lemma base_wfD:
  assumes "base_wf b"
  shows "resolved_map (shared_parent b)" and "resolved_map (overlay_parent b s)"
    and "lists_keys (for_each_shared_pair b) (shared_parent b)"
    and "lists_keys (for_each_overlay_pair b s) (overlay_parent b s)"
    and "overlay_parent b s k = Some r \<Longrightarrow> s \<in> set (base_scopes b)"
    and "element (root_of (overlay_parent b s)) x \<Longrightarrow> shared_parent b x = None \<Longrightarrow>
      s \<in> set (scopes_for_root b x)"
  using assms unfolding base_wf_def by (simp_all add: fun_eq_iff) metis

end
