(* ===== verification/Forest_Spec.thy ===== *)
theory Forest_Spec
  imports Types
begin

text \<open>
  What the multi-tenant forest promises, and the argument that its two-layer representation keeps
  the promise. The specification is a graph: an event list determines for every scope the set of
  edges the scope sees, and the answer for a node is the lowest node of its component there.

  The representation is abstract in this file: \<open>g\<close> gives the representative of a node in the
  shared tier, \<open>r s\<close> the representative of a shared root in the overlay of scope \<open>s\<close>, and
  \<open>regs x\<close> the scopes that are told when the shared root \<open>x\<close> is absorbed. The predicate \<open>tracks\<close>
  collects what has to hold of the three, and the lemmas show that a global merge with its
  fix-ups and a scoped merge keep it. The forest of \<^verbatim>\<open>src/core/scoped.rs\<close> is an instance.
\<close>

section \<open>The edges a scope sees\<close>

definition visible_edges :: "edge_event list \<Rightarrow> scope_id \<Rightarrow> (node_id \<times> node_id) set" where
  "visible_edges es s = {(src e, dst e) |e. e \<in> set es \<and> visible_to (ev_visibility e) s}"

definition global_edges :: "edge_event list \<Rightarrow> (node_id \<times> node_id) set" where
  "global_edges es = {(src e, dst e) |e. e \<in> set es \<and> normalize (ev_visibility e) = Global}"

definition scope_edges :: "edge_event list \<Rightarrow> scope_id \<Rightarrow> (node_id \<times> node_id) set" where
  "scope_edges es s =
     {(src e, dst e) |e ss. e \<in> set es \<and> normalize (ev_visibility e) = Scoped ss \<and> s \<in> set ss}"

lemma visible_to_split:
  "visible_to v s \<longleftrightarrow> normalize v = Global \<or> (\<exists>ss. normalize v = Scoped ss \<and> s \<in> set ss)"
proof -
  have "visible_to (normalize v) s \<longleftrightarrow>
      normalize v = Global \<or> (\<exists>ss. normalize v = Scoped ss \<and> s \<in> set ss)"
    using normalize_ScopedD [of v] by (cases "normalize v") auto
  then show ?thesis by simp
qed

lemma visible_edges_split: "visible_edges es s = global_edges es \<union> scope_edges es s"
  unfolding visible_edges_def global_edges_def scope_edges_def visible_to_split by blast

lemma scope_edges_global: "scope_edges es GLOBAL_SCOPE = {}"
  using normalize_ScopedD by (auto simp: scope_edges_def)

lemma edges_snoc:
  "normalize (ev_visibility e) = Global \<Longrightarrow>
     global_edges (es @ [e]) = insert (src e, dst e) (global_edges es)"
  "normalize (ev_visibility e) = Scoped ss \<Longrightarrow> global_edges (es @ [e]) = global_edges es"
  "normalize (ev_visibility e) = Global \<Longrightarrow> scope_edges (es @ [e]) s = scope_edges es s"
  "normalize (ev_visibility e) = Scoped ss \<Longrightarrow>
     scope_edges (es @ [e]) s = (if s \<in> set ss then insert (src e, dst e) (scope_edges es s)
       else scope_edges es s)"
  by (auto simp: global_edges_def scope_edges_def)

lemma edges_Nil [simp]: "global_edges [] = {}" "scope_edges [] s = {}" "visible_edges [] s = {}"
  by (simp_all add: global_edges_def scope_edges_def visible_edges_def)

section \<open>Two layers of representatives track a graph\<close>

definition tracks ::
  "('n::wellorder \<Rightarrow> 'n) \<Rightarrow> ('s \<Rightarrow> 'n \<Rightarrow> 'n) \<Rightarrow> ('n \<Rightarrow> 's set) \<Rightarrow> ('n \<times> 'n) set \<Rightarrow> ('s \<Rightarrow> ('n \<times> 'n) set) \<Rightarrow> bool"
where
  "tracks g r regs G S \<longleftrightarrow> g = lowest G \<and> (\<forall>s. rep_fun (r s)) \<and>
     (\<forall>s x. r s (g x) = lowest (G \<union> S s) x) \<and>
     (\<forall>s x. element (r s) x \<longrightarrow> r s x = r s (g x)) \<and>
     (\<forall>s x. element (r s) x \<longrightarrow> g x = x \<longrightarrow> s \<in> regs x)"

lemma tracksD:
  assumes "tracks g r regs G S"
  shows "g = lowest G" and "rep_fun (r s)" and "r s (g x) = lowest (G \<union> S s) x"
    and "element (r s) x \<Longrightarrow> r s x = r s (g x)"
    and "element (r s) x \<Longrightarrow> g x = x \<Longrightarrow> s \<in> regs x"
    and "rep_fun g"
  using assms rep_fun_lowest unfolding tracks_def by blast+

lemma tracks_empty: "tracks (\<lambda>x. x) (\<lambda>s x. x) regs {} (\<lambda>s. {})"
  by (simp add: tracks_def element_def fun_eq_iff)

lemma tracks_regs:
  assumes "tracks g r regs G S" and "\<And>x. g x = x \<Longrightarrow> regs x \<subseteq> regs' x"
  shows "tracks g r regs' G S"
  using assms unfolding tracks_def by blast

subsection \<open>A global edge inside one component\<close>

lemma tracks_global_same:
  assumes t: "tracks g r regs G S" and same: "g u = g v"
  shows "tracks g r regs (insert (u, v) G) S"
proof -
  note D = tracksD [OF t]
  have 1: "lowest (insert (u, v) G) = g"
    using same by (simp add: lowest_insert D(1) [symmetric])
  have 2: "lowest (insert (u, v) G \<union> S s) = lowest (G \<union> S s)" for s
    using same D(3) by (simp add: lowest_insert) (metis merge_rep_same)
  show ?thesis
    unfolding tracks_def 1 2 using D(2-5) by blast
qed

subsection \<open>A global edge that merges two components\<close>

text \<open>
  The absorbed root is \<open>c\<close>, the surviving one \<open>p\<close>. Only the scopes registered on \<open>c\<close> get a fix-up:
  in every other scope \<open>c\<close> is alone in its overlay class, so its members follow the shared tier.
\<close>

lemma tracks_global_merge:
  assumes t: "tracks g r regs G S" and ne: "g u \<noteq> g v"
    and c: "c = max (g u) (g v)" and p: "p = min (g u) (g v)"
    and fixed: "\<And>s. s \<in> regs c \<Longrightarrow> r' s = merge_rep (r s) c p"
    and kept: "\<And>s. s \<notin> regs c \<Longrightarrow> r' s = r s"
    and regs': "\<And>x. x \<noteq> c \<Longrightarrow> regs x \<subseteq> regs' x" "regs c \<subseteq> regs' p"
  shows "tracks (merge_rep g u v) r' regs' (insert (u, v) G) S"
proof -
  note D = tracksD [OF t]
  let ?g = "merge_rep g u v"
  have less: "p < c" using ne by (auto simp: c p min_def max_def)
  have pair: "(g x = g u \<or> g x = g v) \<longleftrightarrow> (g x = c \<or> g x = p)" for x
    by (auto simp: c p max_def min_def)
  have g': "?g x = (if g x = c \<or> g x = p then p else g x)" for x
    by (simp add: merge_rep_def pair p)
  have roots: "g c = c" "g p = p"
    using rep_funD(1) [OF D(6)] by (auto simp: c p max_def min_def)
  have low: "lowest (insert (u, v) (G \<union> S s)) x = merge_rep (\<lambda>x. r s (g x)) c p x" for s x
  proof -
    have "merge_rep (\<lambda>x. r s (g x)) u v = merge_rep (\<lambda>x. r s (g x)) c p"
      using rep_funD(1) [OF D(6)]
      by (auto simp: merge_rep_def c p max_def min_def fun_eq_iff)
    then show ?thesis
      using D(3) by (simp add: lowest_insert)
  qed
  have alone: "\<not> element (r s) c" if "s \<notin> regs c" for s
    using that D(5) roots(1) by blast
  have 2: "r' s (?g x) = lowest (insert (u, v) G \<union> S s) x" for s x
  proof (cases "s \<in> regs c")
    case True
    have "r' s (?g x) = merge_rep (r s) c p (if g x = c \<or> g x = p then p else g x)"
      by (simp only: fixed [OF True] g')
    then show ?thesis by (auto simp: low merge_rep_def roots)
  next
    case False
    note A = not_elementD [OF D(2) alone [OF False]]
    have "r s p < c" using rep_funD(2) [OF D(2), of s p] less by simp
    moreover have "r' s (?g x) = r s (if g x = c \<or> g x = p then p else g x)"
      by (simp only: kept [OF False] g')
    ultimately show ?thesis
      using A by (auto simp: low merge_rep_def roots min_def)
  qed
  have 3: "r' s x = r' s (?g x)" if "element (r' s) x" for s x
  proof (cases "s \<in> regs c")
    case True
    show ?thesis
    proof (cases "element (r s) x")
      case e: True
      then have "merge_rep (r s) c p x = merge_rep (r s) c p (g x)"
        using D(4) by (blast intro: merge_rep_cong)
      then show ?thesis using True by (auto simp: fixed g')
    next
      case False
      then have "x = c \<or> x = p"
        using that new_element_merge_rep by (simp add: fixed [OF True])
      then show ?thesis
        using True roots merge_rep_joins [of "r s" c p] by (auto simp: fixed g')
    qed
  next
    case False
    then have e: "element (r s) x" using that kept by simp
    then have "r s x = r s (g x)" by (rule D(4))
    moreover have "g x \<noteq> c"
      using not_elementD [OF D(2) alone [OF False]] calculation e alone [OF False] by metis
    ultimately show ?thesis using False by (auto simp: kept g')
  qed
  have 4: "s \<in> regs' x" if "element (r' s) x" and "?g x = x" for s x
  proof -
    have x: "g x = x" "x \<noteq> c"
      using that(2) less roots by (auto simp: g' split: if_splits)
    show ?thesis
    proof (cases "element (r s) x")
      case True
      then show ?thesis using D(5) x regs'(1) by blast
    next
      case False
      then have s: "s \<in> regs c" using that(1) kept by metis
      then have "x = c \<or> x = p"
        using that(1) False new_element_merge_rep by (simp add: fixed)
      then show ?thesis using x s regs'(2) by blast
    qed
  qed
  have "rep_fun (r' s)" for s
    using D(2) [of s] rep_fun_merge_rep fixed [of s] kept [of s] by (cases "s \<in> regs c") auto
  with 2 3 4 show ?thesis
    by (simp add: tracks_def lowest_insert D(1) [symmetric])
qed

subsection \<open>An edge of one scope\<close>

lemma tracks_scoped:
  assumes t: "tracks g r regs G S"
    and r': "r' = r(s := merge_rep (r s) (g u) (g v))"
    and regs': "\<And>x. regs x \<subseteq> regs' x" "s \<in> regs' (g u)" "s \<in> regs' (g v)"
  shows "tracks g r' regs' G (S(s := insert (u, v) (S s)))"
proof -
  note D = tracksD [OF t]
  have gg: "g (g x) = g x" for x using rep_funD(1) [OF D(6)] .
  have low: "lowest (G \<union> insert (u, v) (S s)) x = merge_rep (r s) (g u) (g v) (g x)" for x
    using D(3) [of s] by (simp add: lowest_insert merge_rep_def)
  have new: "x = g u \<or> x = g v"
    if "element (merge_rep (r s) (g u) (g v)) x" and "\<not> element (r s) x" for x
    using that by (rule new_element_merge_rep)
  have 3: "r' q x = r' q (g x)" if "element (r' q) x" for q x
  proof (cases "q = s \<and> \<not> element (r s) x")
    case True
    with new [of x] that show ?thesis by (auto simp: r' gg)
  next
    case False
    then show ?thesis
      using D(4) [of q x] D(4) [of s x] that by (auto simp: r' intro: merge_rep_cong split: if_splits)
  qed
  have 4: "q \<in> regs' x" if "element (r' q) x" and "g x = x" for q x
  proof (cases "q = s \<and> \<not> element (r s) x")
    case True
    with new [of x] that regs' show ?thesis by (auto simp: r')
  next
    case False
    then show ?thesis
      using D(5) [of q x] D(5) [of s x] that regs'(1) by (auto simp: r' split: if_splits)
  qed
  have "rep_fun (r' q)" for q
    using D(2) rep_fun_merge_rep by (auto simp: r')
  moreover have "r' q (g x) = lowest (G \<union> (S(s := insert (u, v) (S s))) q) x" for q x
    using low D(3) by (simp add: r')
  ultimately show ?thesis
    using 3 4 D(1) unfolding tracks_def by blast
qed

end
