(* ===== verification/Scoped_Forest.thy ===== *)
theory Scoped_Forest
  imports Dsu Routing_Base Forest_Spec
begin

text \<open>
  The multi-tenant forest of \<^verbatim>\<open>src/core/scoped.rs\<close>: one shared union-find, a sparse overlay per
  scope whose elements are shared roots, a registry from shared root to the scopes that are told
  when it is absorbed, and a committed base below all of them. State is passed explicitly; the
  union lock makes every mutation one step, so the model applies events one at a time.

  The file shows that every operation returns, that the walks and their compressing writes change
  no answer, and that after any sequence of events the representative of a node in a scope is the
  lowest node connected to it by the edges the scope sees.
\<close>

section \<open>State\<close>

record memtable =
  global :: dsu
  overlays :: "(scope_id, dsu) fmap"
  registry :: "(node_id, scope_id fset) fmap"
  mem_index :: bool

record tier =
  t_base :: "routing_base option"
  mem :: memtable

record scoped_forest =
  tier_of :: tier
  member_index :: bool
  events_applied :: u64
  scope_links :: u64
  fixups :: u64
  folds :: u64

definition memtable_new :: "bool \<Rightarrow> memtable" where
  "memtable_new idx =
     \<lparr>global = Dsu.tracking_members idx, overlays = fmempty, registry = fmempty, mem_index = idx\<rparr>"

definition forest_new :: scoped_forest where
  "forest_new = \<lparr>tier_of = \<lparr>t_base = None, mem = memtable_new False\<rparr>, member_index = False,
     events_applied = 0, scope_links = 0, fixups = 0, folds = 0\<rparr>"

definition with_base :: "routing_base \<Rightarrow> scoped_forest" where
  "with_base b = forest_new\<lparr>tier_of := \<lparr>t_base = Some b, mem = memtable_new False\<rparr>\<rparr>"

definition forest_tracking_members :: "scoped_forest \<Rightarrow> scoped_forest" where
  "forest_tracking_members f =
     f\<lparr>member_index := True, tier_of := \<lparr>t_base = t_base (tier_of f), mem = memtable_new True\<rparr>\<rparr>"

definition forest_tracks_members :: "scoped_forest \<Rightarrow> bool" where
  "forest_tracks_members f = member_index f"

definition members_available :: "scoped_forest \<Rightarrow> bool" where
  "members_available f =
     (member_index f \<and> (case t_base (tier_of f) of None \<Rightarrow> True | Some b \<Rightarrow> has_member_index b))"

definition forest_base_stats :: "scoped_forest \<Rightarrow> base_stats option" where
  "forest_base_stats f = map_option base_stats_of (t_base (tier_of f))"

definition memtable_links :: "scoped_forest \<Rightarrow> u64" where
  "memtable_links f =
     (let m = mem (tier_of f) in
      word_of_nat (len_links (global m) +
        sum_list (map (\<lambda>s. case fmlookup (overlays m) s of None \<Rightarrow> 0 | Some d \<Rightarrow> len_links d)
          (sorted_list_of_fset (fmdom (overlays m))))))"

section \<open>Composed resolution\<close>

definition dsu_walk :: "bool \<Rightarrow> dsu \<Rightarrow> node_id \<Rightarrow> (node_id \<times> dsu) option" where
  "dsu_walk compress d x = (if compress then dsu_find d x else find_ro d x)"

definition global_walk :: "tier \<Rightarrow> bool \<Rightarrow> node_id \<Rightarrow> (node_id \<times> tier) option" where
  "global_walk t compress x =
     do { (r, d) \<leftarrow> dsu_walk compress (global (mem t)) x;
          Some (r, t\<lparr>mem := (mem t)\<lparr>global := d\<rparr>\<rparr>) }"

definition shared_root :: "tier \<Rightarrow> node_id \<Rightarrow> bool \<Rightarrow> (node_id \<times> tier) option" where
  "shared_root t node compress =
     do { (m, t) \<leftarrow> global_walk t compress node;
          if m \<noteq> node then Some (m, t)
          else (case Option.bind (t_base t) (\<lambda>b. shared_parent b node) of
              Some b \<Rightarrow> if b \<noteq> node then global_walk t compress b else Some (node, t)
            | None \<Rightarrow> Some (node, t)) }"

text \<open>A scope without an overlay in the memtable resolves a node to itself.\<close>

definition overlay_walk :: "tier \<Rightarrow> scope_id \<Rightarrow> bool \<Rightarrow> node_id \<Rightarrow> (node_id \<times> tier) option" where
  "overlay_walk t scope compress x =
     (case fmlookup (overlays (mem t)) scope of
        None \<Rightarrow> Some (x, t)
      | Some d \<Rightarrow>
          do { (r, d) \<leftarrow> dsu_walk compress d x;
               Some (r, t\<lparr>mem := (mem t)\<lparr>overlays := fmupd scope d (overlays (mem t))\<rparr>\<rparr>) })"

definition overlay_root :: "tier \<Rightarrow> scope_id \<Rightarrow> node_id \<Rightarrow> bool \<Rightarrow> (node_id \<times> tier) option" where
  "overlay_root t scope shared compress =
     do { (m, t) \<leftarrow> overlay_walk t scope compress shared;
          if m \<noteq> shared then Some (m, t)
          else (case Option.bind (t_base t) (\<lambda>b. overlay_parent b scope shared) of
              None \<Rightarrow> Some (shared, t)
            | Some b \<Rightarrow> if b = shared then Some (shared, t) else overlay_walk t scope compress b) }"

section \<open>Applying events\<close>

definition mem_overlay :: "memtable \<Rightarrow> scope_id \<Rightarrow> dsu" where
  "mem_overlay m scope =
     (case fmlookup (overlays m) scope of None \<Rightarrow> Dsu.tracking_members (mem_index m) | Some d \<Rightarrow> d)"

definition overlay_union :: "tier \<Rightarrow> scope_id \<Rightarrow> node_id \<Rightarrow> node_id \<Rightarrow> tier option" where
  "overlay_union t scope a b =
     do { (_, d) \<leftarrow> dsu_union (mem_overlay (mem t) scope) a b;
          Some (t\<lparr>mem := (mem t)\<lparr>overlays := fmupd scope d (overlays (mem t))\<rparr>\<rparr>) }"

definition register :: "node_id \<Rightarrow> scope_id list \<Rightarrow> tier \<Rightarrow> tier" where
  "register root scopes t =
     t\<lparr>mem := (mem t)\<lparr>registry := fmupd root
         ((case fmlookup (registry (mem t)) root of None \<Rightarrow> {||} | Some ss \<Rightarrow> ss) |\<union>| fset_of_list scopes)
         (registry (mem t))\<rparr>\<rparr>"

text \<open>The fix-up loop of a global merge: the number of fix-ups it makes, and the new tier.\<close>

fun fixup_scopes :: "tier \<Rightarrow> node_id \<Rightarrow> node_id \<Rightarrow> scope_id list \<Rightarrow> (nat \<times> tier) option" where
  "fixup_scopes t child parent [] = Some (0, t)"
| "fixup_scopes t child parent (scope # scopes) =
     do { (a, t) \<leftarrow> overlay_root t scope child True;
          (b, t) \<leftarrow> overlay_root t scope parent True;
          if a \<noteq> b
          then do { t \<leftarrow> overlay_union t scope a b;
                    (n, t) \<leftarrow> fixup_scopes t child parent scopes;
                    Some (Suc n, t) }
          else fixup_scopes t child parent scopes }"

definition notified :: "tier \<Rightarrow> node_id \<Rightarrow> scope_id list" where
  "notified t child =
     sort_dedup
       ((case fmlookup (registry (mem t)) child of None \<Rightarrow> [] | Some ss \<Rightarrow> sorted_list_of_fset ss) @
        (case t_base t of None \<Rightarrow> [] | Some b \<Rightarrow> scopes_for_root b child))"

definition apply_global :: "scoped_forest \<Rightarrow> node_id \<Rightarrow> node_id \<Rightarrow> scoped_forest option" where
  "apply_global f u v =
     do { (ru, t) \<leftarrow> shared_root (tier_of f) u True;
          (rv, t) \<leftarrow> shared_root t v True;
          (m, d) \<leftarrow> dsu_union (global (mem t)) ru rv;
          let t = t\<lparr>mem := (mem t)\<lparr>global := d\<rparr>\<rparr>;
          (case m of
             None \<Rightarrow> Some (f\<lparr>tier_of := t\<rparr>)
           | Some mg \<Rightarrow>
               do { let scopes = notified t (m_child mg);
                    let t = t\<lparr>mem := (mem t)\<lparr>registry := fmdrop (m_child mg) (registry (mem t))\<rparr>\<rparr>;
                    (n, t) \<leftarrow> fixup_scopes t (m_child mg) (m_parent mg) scopes;
                    let t = (if scopes \<noteq> [] then register (m_parent mg) scopes t else t);
                    Some (f\<lparr>tier_of := t, fixups := fixups f + word_of_nat n\<rparr>) }) }"

fun scoped_loop :: "scoped_forest \<Rightarrow> node_id \<Rightarrow> node_id \<Rightarrow> scope_id list \<Rightarrow> scoped_forest option" where
  "scoped_loop f ru rv [] = Some f"
| "scoped_loop f ru rv (scope # scopes) =
     do { (a, t) \<leftarrow> overlay_root (tier_of f) scope ru True;
          (b, t) \<leftarrow> overlay_root t scope rv True;
          t \<leftarrow> overlay_union t scope a b;
          let t = register rv [scope] (register ru [scope] t);
          scoped_loop (f\<lparr>tier_of := t, scope_links := scope_links f + 1\<rparr>) ru rv scopes }"

definition apply_scoped ::
  "scoped_forest \<Rightarrow> node_id \<Rightarrow> node_id \<Rightarrow> scope_id list \<Rightarrow> scoped_forest option" where
  "apply_scoped f u v scopes =
     do { (ru, t) \<leftarrow> shared_root (tier_of f) u True;
          (rv, t) \<leftarrow> shared_root t v True;
          scoped_loop (f\<lparr>tier_of := t\<rparr>) ru rv scopes }"

definition apply_event :: "scoped_forest \<Rightarrow> edge_event \<Rightarrow> scoped_forest option" where
  "apply_event f e =
     do { f \<leftarrow> (case normalize (ev_visibility e) of
              Global \<Rightarrow> apply_global f (src e) (dst e)
            | Scoped scopes \<Rightarrow> apply_scoped f (src e) (dst e) scopes);
          Some (f\<lparr>events_applied := events_applied f + 1\<rparr>) }"

section \<open>Queries\<close>

definition tier_scope_root :: "tier \<Rightarrow> scope_id \<Rightarrow> node_id \<Rightarrow> (node_id \<times> tier) option" where
  "tier_scope_root t scope node =
     do { (g, t) \<leftarrow> shared_root t node False;
          if scope = GLOBAL_SCOPE then Some (g, t) else overlay_root t scope g False }"

definition scope_root :: "scoped_forest \<Rightarrow> scope_id \<Rightarrow> node_id \<Rightarrow> (node_id \<times> scoped_forest) option" where
  "scope_root f scope node =
     do { (r, t) \<leftarrow> tier_scope_root (tier_of f) scope node; Some (r, f\<lparr>tier_of := t\<rparr>) }"

definition connected :: "scoped_forest \<Rightarrow> scope_id \<Rightarrow> node_id \<Rightarrow> node_id \<Rightarrow> (bool \<times> scoped_forest) option" where
  "connected f scope u v =
     do { (a, f) \<leftarrow> scope_root f scope u; (b, f) \<leftarrow> scope_root f scope v; Some (a = b, f) }"

section \<open>The composed forest\<close>

text \<open>The parent functions of the layers, and the representatives of base and memtable together.\<close>

definition bpar :: "tier \<Rightarrow> node_id \<Rightarrow> node_id option" where
  "bpar t = (case t_base t of None \<Rightarrow> Map.empty | Some b \<Rightarrow> shared_parent b)"

definition bopar :: "tier \<Rightarrow> scope_id \<Rightarrow> node_id \<Rightarrow> node_id option" where
  "bopar t s = (case t_base t of None \<Rightarrow> Map.empty | Some b \<Rightarrow> overlay_parent b s)"

abbreviation mpar :: "tier \<Rightarrow> node_id \<Rightarrow> node_id option" where
  "mpar t \<equiv> par (global (mem t))"

abbreviation mopar :: "tier \<Rightarrow> scope_id \<Rightarrow> node_id \<Rightarrow> node_id option" where
  "mopar t s \<equiv> par (mem_overlay (mem t) s)"

definition grep :: "tier \<Rightarrow> node_id \<Rightarrow> node_id" where
  "grep t = root_of (bpar t ++ mpar t)"

definition orep :: "tier \<Rightarrow> scope_id \<Rightarrow> node_id \<Rightarrow> node_id" where
  "orep t s = root_of (bopar t s ++ mopar t s)"

definition regs :: "tier \<Rightarrow> node_id \<Rightarrow> scope_id set" where
  "regs t x = (case fmlookup (registry (mem t)) x of None \<Rightarrow> {} | Some ss \<Rightarrow> fset ss) \<union>
     (case t_base t of None \<Rightarrow> {} | Some b \<Rightarrow> set (scopes_for_root b x))"

text \<open>
  The invariant of \<^verbatim>\<open>src/core/base.rs\<close>: memtable keys are composed roots, in the shared tier and in
  every overlay; and when the memtable tracks members, its merge-edge indexes are complete.
\<close>

definition tier_ok :: "tier \<Rightarrow> bool" where
  "tier_ok t \<longleftrightarrow> (case t_base t of None \<Rightarrow> True | Some b \<Rightarrow> base_wf b) \<and>
     layered (bpar t) (mpar t) \<and> (\<forall>s. layered (bopar t s) (mopar t s)) \<and>
     (mem_index (mem t) \<longrightarrow> index_ok (global (mem t)) \<and> (\<forall>s. index_ok (mem_overlay (mem t) s)))"

text \<open>What the writes of a walk may change.\<close>

definition tier_same :: "tier \<Rightarrow> tier \<Rightarrow> bool" where
  "tier_same t t' \<longleftrightarrow> t_base t' = t_base t \<and> registry (mem t') = registry (mem t) \<and>
     mem_index (mem t') = mem_index (mem t) \<and> fmdom (overlays (mem t')) = fmdom (overlays (mem t)) \<and>
     compresses (global (mem t)) (global (mem t')) \<and>
     (\<forall>s. compresses (mem_overlay (mem t) s) (mem_overlay (mem t') s))"

lemma tier_okD:
  assumes "tier_ok t"
  shows "layered (bpar t) (mpar t)" and "layered (bopar t s) (mopar t s)"
    and "dsu_ok (global (mem t))" and "dsu_ok (mem_overlay (mem t) s)"
    and "t_base t = Some b \<Longrightarrow> base_wf b"
  using assms layeredD(2) unfolding tier_ok_def dsu_ok_def by auto

lemma tier_same_refl: "tier_ok t \<Longrightarrow> tier_same t t"
  by (simp add: tier_same_def tier_okD compresses_refl)

lemma tier_same_trans: "tier_same a b \<Longrightarrow> tier_same b c \<Longrightarrow> tier_same a c"
  unfolding tier_same_def by (metis compresses_trans)

lemma bpar_cong: "t_base t' = t_base t \<Longrightarrow> bpar t' = bpar t" "t_base t' = t_base t \<Longrightarrow> bopar t' = bopar t"
  by (simp_all add: bpar_def bopar_def fun_eq_iff)

lemma tier_same_keeps:
  assumes ok: "tier_ok t" and same: "tier_same t t'"
  shows "tier_ok t'" and "grep t' = grep t" and "orep t' = orep t" and "regs t' = regs t"
    and "t_base t' = t_base t" and "bpar t' = bpar t" and "bopar t' = bopar t"
proof -
  have b: "t_base t' = t_base t" and c: "compresses (global (mem t)) (global (mem t'))"
    and o: "compresses (mem_overlay (mem t) s) (mem_overlay (mem t') s)" for s
    using same by (simp_all add: tier_same_def)
  note cong = bpar_cong [OF b]
  note L = layered_compress [OF tier_okD(1) [OF ok], of "mpar t'"]
  note O = layered_compress [OF tier_okD(2) [OF ok], of "mopar t' s" for s]
  have g: "layered (bpar t') (mpar t')" "grep t' = grep t"
    using c L by (simp_all add: compresses_def dsu_ok_def grep_def cong)
  have o': "layered (bopar t' s) (mopar t' s)" "orep t' s = orep t s" for s
    using o [of s] O [of s] by (simp_all add: compresses_def dsu_ok_def orep_def cong)
  show "tier_ok t'"
    using g o' c o ok same compresses_index unfolding tier_ok_def tier_same_def by metis
  show "grep t' = grep t" "orep t' = orep t" using g o' by auto
  show "regs t' = regs t" using same by (simp add: regs_def fun_eq_iff tier_same_def)
  show "t_base t' = t_base t" "bpar t' = bpar t" "bopar t' = bopar t" by (fact b, fact cong, fact cong)
qed

lemma mem_overlay_upd [simp]:
  "mem_overlay (m\<lparr>overlays := fmupd s d (overlays m)\<rparr>) q = (if q = s then d else mem_overlay m q)"
  "mem_overlay (m\<lparr>global := d\<rparr>) q = mem_overlay m q"
  "mem_overlay (m\<lparr>registry := x\<rparr>) q = mem_overlay m q"
  by (simp_all add: mem_overlay_def split: option.split)

lemma rep_funs:
  assumes "tier_ok t"
  shows "rep_fun (grep t)" and "rep_fun (orep t s)"
  using layeredD(3) [OF tier_okD(1) [OF assms]] layeredD(3) [OF tier_okD(2) [OF assms]]
  by (simp_all add: grep_def orep_def rep_fun_root_of)

section \<open>Every walk returns the composed representative\<close>

lemma dsu_walk_spec:
  "dsu_ok d \<Longrightarrow> \<exists>d'. dsu_walk c d x = Some (rep d x, d') \<and> compresses d d'"
  using dsu_find_spec [of d x] find_ro_spec [of d x] by (simp add: dsu_walk_def)

lemma global_walk_spec:
  assumes ok: "tier_ok t"
  shows "\<exists>t'. global_walk t c x = Some (root_of (mpar t) x, t') \<and> tier_same t t'"
proof -
  from dsu_walk_spec [OF tier_okD(3) [OF ok]] obtain d' where
    "dsu_walk c (global (mem t)) x = Some (root_of (mpar t) x, d')" "compresses (global (mem t)) d'"
    by blast
  then show ?thesis
    using tier_okD(4) [OF ok] by (simp add: global_walk_def tier_same_def compresses_refl)
qed

lemma overlay_walk_spec:
  assumes ok: "tier_ok t"
  shows "\<exists>t'. overlay_walk t s c x = Some (root_of (mopar t s) x, t') \<and> tier_same t t'"
proof (cases "fmlookup (overlays (mem t)) s")
  case None
  then show ?thesis
    using tier_same_refl [OF ok] by (simp add: overlay_walk_def mem_overlay_def)
next
  case (Some d)
  then have d: "mem_overlay (mem t) s = d" by (simp add: mem_overlay_def)
  with dsu_walk_spec [OF tier_okD(4) [OF ok, of s]] obtain d' where
    "dsu_walk c d x = Some (root_of (mopar t s) x, d')" "compresses d d'" by metis
  then show ?thesis
    using tier_okD(3,4) [OF ok] Some d fmdomI [OF Some]
    by (simp add: overlay_walk_def tier_same_def compresses_refl finsert_absorb)
qed

lemma layered_probe:
  assumes l: "layered q p"
  shows "root_of (q ++ p) x =
    (let m = root_of p x in
     if m \<noteq> x then m else (case q x of None \<Rightarrow> x | Some b \<Rightarrow> if b \<noteq> x then root_of p b else x))"
proof (cases "p x")
  case None
  then have "root_of p x = x" by (rule root_of_None)
  moreover have "q x = Some b \<Longrightarrow> b \<noteq> x" for b
    using layeredD(1) [OF l] by (auto dest: decreasingD)
  ultimately show ?thesis using layered_root [OF l, of x] by (auto split: option.split)
next
  case (Some y)
  then have "root_of p x < x" and "q x = None"
    using root_of_less [OF layeredD(2) [OF l]] l by (auto simp: layered_def dom_def)
  then show ?thesis using layered_root [OF l, of x] by (simp add: Let_def)
qed

lemma shared_root_spec:
  assumes ok: "tier_ok t"
  shows "\<exists>t'. shared_root t x c = Some (grep t x, t') \<and> tier_same t t'"
proof -
  from global_walk_spec [OF ok] obtain t1 where
    1: "global_walk t c x = Some (root_of (mpar t) x, t1)" "tier_same t t1" by blast
  note keep = tier_same_keeps [OF ok 1(2)]
  have "rep (global (mem t1)) = rep (global (mem t))"
    using 1(2) by (simp add: tier_same_def compresses_def)
  then have 2: "\<exists>t2. global_walk t1 c b = Some (root_of (mpar t) b, t2) \<and> tier_same t t2" for b
    using global_walk_spec [OF keep(1), of c b] tier_same_trans [OF 1(2)] by metis
  show ?thesis
    using 1 2 layered_probe [OF tier_okD(1) [OF ok], of x] keep(5)
    by (cases "t_base t") (auto simp: shared_root_def grep_def bpar_def Let_def split: option.splits)
qed

lemma overlay_root_spec:
  assumes ok: "tier_ok t"
  shows "\<exists>t'. overlay_root t s x c = Some (orep t s x, t') \<and> tier_same t t'"
proof -
  from overlay_walk_spec [OF ok] obtain t1 where
    1: "overlay_walk t s c x = Some (root_of (mopar t s) x, t1)" "tier_same t t1" by blast
  note keep = tier_same_keeps [OF ok 1(2)]
  have "rep (mem_overlay (mem t1) s) = rep (mem_overlay (mem t) s)"
    using 1(2) by (simp add: tier_same_def compresses_def)
  then have 2: "\<exists>t2. overlay_walk t1 s c b = Some (root_of (mopar t s) b, t2) \<and> tier_same t t2" for b
    using overlay_walk_spec [OF keep(1), of s c b] tier_same_trans [OF 1(2)] by metis
  show ?thesis
    using 1 2 layered_probe [OF tier_okD(2) [OF ok], of s x] keep(5)
    by (cases "t_base t") (auto simp: overlay_root_def orep_def bopar_def Let_def split: option.splits)
qed

section \<open>Unions of composed roots\<close>

lemma layered_union:
  assumes l: "layered q (par d)" and a: "root_of (q ++ par d) a = a" and b: "root_of (q ++ par d) b = b"
    and u: "dsu_union d a b = Some (m, d')"
  shows "layered q (par d')" and "root_of (q ++ par d') = merge_rep (root_of (q ++ par d)) a b"
proof -
  have ok: "dsu_ok d" using layeredD(2) [OF l] by (simp add: dsu_ok_def)
  have none: "(q ++ par d) a = None" "(q ++ par d) b = None"
    using a b root_of_is_root [OF layeredD(3) [OF l]] by metis+
  then have q: "q a = None" "q b = None" by (auto simp: map_add_def split: option.splits)
  then have rep: "rep d a = a" "rep d b = b" using a b layered_root [OF l] by simp_all
  note U = union_rep [OF ok u, unfolded rep]
  have "dom (par d') \<subseteq> dom (par d) \<union> {a, b}" "ran (par d') \<subseteq> ran (par d) \<union> {a, b}"
    using U by (auto simp: max_def min_def split: if_splits)
  moreover have "a \<notin> dom q" "b \<notin> dom q" using q by auto
  ultimately have "dom (par d') \<inter> dom q = {}" "ran (par d') \<inter> dom q = {}"
    using l unfolding layered_def by blast+
  then show l': "layered q (par d')"
    using U l by (simp add: layered_def dsu_ok_def)
  have "root_of (q ++ par d') x = merge_rep (root_of (q ++ par d)) a b x" for x
    using U rep q by (simp add: layered_root [OF l] layered_root [OF l'] merge_rep_def split: option.split)
  then show "root_of (q ++ par d') = merge_rep (root_of (q ++ par d)) a b" by blast
qed

lemma merge_rep_reps: "rep_fun r \<Longrightarrow> merge_rep r (r u) (r v) = merge_rep r u v"
  by (simp add: merge_rep_def rep_fun_def fun_eq_iff)

text \<open>What a step on the overlays may change.\<close>

definition overlay_step :: "tier \<Rightarrow> tier \<Rightarrow> bool" where
  "overlay_step t t' \<longleftrightarrow> tier_ok t' \<and> t_base t' = t_base t \<and> grep t' = grep t \<and>
     registry (mem t') = registry (mem t) \<and> mem_index (mem t') = mem_index (mem t)"

lemma overlay_step_same: "tier_ok t \<Longrightarrow> tier_same t t' \<Longrightarrow> overlay_step t t'"
  using tier_same_keeps [of t t'] by (simp add: overlay_step_def) (simp add: tier_same_def)

lemma overlay_step_trans: "overlay_step a b \<Longrightarrow> overlay_step b c \<Longrightarrow> overlay_step a c"
  by (simp add: overlay_step_def)

lemma overlay_step_regs: "overlay_step t t' \<Longrightarrow> regs t' = regs t"
  by (simp add: overlay_step_def regs_def fun_eq_iff)

lemma overlay_union_spec:
  assumes ok: "tier_ok t" and a: "orep t s a = a" and b: "orep t s b = b"
  shows "\<exists>t'. overlay_union t s a b = Some t' \<and> overlay_step t t' \<and>
    orep t' = (orep t)(s := merge_rep (orep t s) a b)"
proof -
  let ?d = "mem_overlay (mem t) s"
  from union_total [OF tier_okD(4) [OF ok]] obtain m d' where
    u: "dsu_union ?d a b = Some (m, d')" by blast
  define t' where "t' = t\<lparr>mem := (mem t)\<lparr>overlays := fmupd s d' (overlays (mem t))\<rparr>\<rparr>"
  have run: "overlay_union t s a b = Some t'" by (simp add: overlay_union_def u t'_def)
  note cong = bpar_cong [of t' t, unfolded t'_def, simplified, folded t'_def]
  note L = layered_union [OF tier_okD(2) [OF ok] a [unfolded orep_def] b [unfolded orep_def] u]
  have o: "orep t' q = ((orep t)(s := merge_rep (orep t s) a b)) q" for q
    using L(2) by (simp add: orep_def cong) (simp add: t'_def)
  have idx: "mem_index (mem t) \<Longrightarrow> index_ok d'"
    using union_index [OF tier_okD(4) [OF ok] _ u] ok by (simp add: tier_ok_def)
  have "tier_ok t'"
    using ok L(1) idx unfolding tier_ok_def cong by (simp add: t'_def)
  moreover have "grep t' = grep t" by (simp add: grep_def cong) (simp add: t'_def)
  ultimately have "overlay_step t t'" by (simp add: overlay_step_def) (simp add: t'_def)
  with run o show ?thesis by blast
qed

text \<open>Resolve two operands in an overlay and merge their classes: the body of both loops.\<close>

lemma overlay_merge_spec:
  assumes ok: "tier_ok t"
  shows "\<exists>t1 t2 t3. overlay_root t s u True = Some (orep t s u, t1) \<and>
    overlay_root t1 s v True = Some (orep t s v, t2) \<and>
    overlay_union t2 s (orep t s u) (orep t s v) = Some t3 \<and>
    overlay_step t t2 \<and> orep t2 = orep t \<and>
    overlay_step t t3 \<and> orep t3 = (orep t)(s := merge_rep (orep t s) u v)"
proof -
  from overlay_root_spec [OF ok] obtain t1 where
    1: "overlay_root t s u True = Some (orep t s u, t1)" "tier_same t t1" by blast
  note k1 = tier_same_keeps [OF ok 1(2)]
  from overlay_root_spec [OF k1(1)] obtain t2 where
    2: "overlay_root t1 s v True = Some (orep t s v, t2)" "tier_same t1 t2"
    using k1(3) by metis
  note k2 = tier_same_keeps [OF k1(1) 2(2)]
  have o2: "orep t2 = orep t" using k1(3) k2(3) by simp
  note idem = rep_funD(1) [OF rep_funs(2) [OF ok, of s]]
  from overlay_union_spec [OF k2(1), of s "orep t s u" "orep t s v"] obtain t3 where
    3: "overlay_union t2 s (orep t s u) (orep t s v) = Some t3" "overlay_step t2 t3"
      "orep t3 = (orep t)(s := merge_rep (orep t s) (orep t s u) (orep t s v))"
    using o2 idem by auto
  have s2: "overlay_step t t2"
    using overlay_step_same [OF ok] tier_same_trans [OF 1(2) 2(2)] by blast
  have "orep t3 = (orep t)(s := merge_rep (orep t s) u v)"
    using 3(3) merge_rep_reps [OF rep_funs(2) [OF ok, of s]] by simp
  with 1(1) 2(1) 3(1) s2 o2 overlay_step_trans [OF s2 3(2)] show ?thesis by blast
qed

lemma fixup_scopes_spec:
  assumes "tier_ok t" and "distinct scopes"
  shows "\<exists>n t'. fixup_scopes t c p scopes = Some (n, t') \<and> overlay_step t t' \<and>
    orep t' = (\<lambda>s. if s \<in> set scopes then merge_rep (orep t s) c p else orep t s)"
  using assms
proof (induction scopes arbitrary: t)
  case Nil
  then show ?case using overlay_step_same [OF _ tier_same_refl] by simp
next
  case (Cons s scopes)
  from overlay_merge_spec [OF Cons.prems(1), of s c p] obtain t1 t2 t3 where
    run: "overlay_root t s c True = Some (orep t s c, t1)"
      "overlay_root t1 s p True = Some (orep t s p, t2)"
      "overlay_union t2 s (orep t s c) (orep t s p) = Some t3"
    and t2: "overlay_step t t2" "orep t2 = orep t"
    and t3: "overlay_step t t3" "orep t3 = (orep t)(s := merge_rep (orep t s) c p)"
    by blast
  define t4 where "t4 = (if orep t s c \<noteq> orep t s p then t3 else t2)"
  have t4: "overlay_step t t4" "orep t4 = (orep t)(s := merge_rep (orep t s) c p)"
    using t2 t3 by (simp_all add: t4_def)
  then have "tier_ok t4" by (simp add: overlay_step_def)
  from Cons.IH [OF this] Cons.prems(2) obtain n t' where
    rest: "fixup_scopes t4 c p scopes = Some (n, t')" "overlay_step t4 t'"
      "orep t' = (\<lambda>q. if q \<in> set scopes then merge_rep (orep t4 q) c p else orep t4 q)"
    by auto
  have "orep t' = (\<lambda>q. if q \<in> set (s # scopes) then merge_rep (orep t q) c p else orep t q)"
    using rest(3) Cons.prems(2) by (auto simp: t4(2) fun_eq_iff)
  moreover have "\<exists>n. fixup_scopes t c p (s # scopes) = Some (n, t')"
    using run rest(1) by (cases "orep t s c = orep t s p") (auto simp: t4_def)
  ultimately show ?case using overlay_step_trans [OF t4(1) rest(2)] by blast
qed

section \<open>Events keep the forest in step with the graph\<close>

definition represents ::
  "tier \<Rightarrow> (node_id \<times> node_id) set \<Rightarrow> (scope_id \<Rightarrow> (node_id \<times> node_id) set) \<Rightarrow> bool" where
  "represents t G S \<longleftrightarrow> tier_ok t \<and> tracks (grep t) (orep t) (regs t) G S"

lemma represents_same: "represents t G S \<Longrightarrow> tier_same t t' \<Longrightarrow> represents t' G S"
  using tier_same_keeps [of t t'] by (simp add: represents_def)

lemma two_shared_roots:
  assumes ok: "tier_ok t"
  shows "\<exists>t1 t2. shared_root t u c = Some (grep t u, t1) \<and>
    shared_root t1 v c = Some (grep t v, t2) \<and> tier_same t t2"
proof -
  from shared_root_spec [OF ok] obtain t1 where
    1: "shared_root t u c = Some (grep t u, t1)" "tier_same t t1" by blast
  note k1 = tier_same_keeps [OF ok 1(2)]
  from shared_root_spec [OF k1(1)] obtain t2 where
    2: "shared_root t1 v c = Some (grep t v, t2)" "tier_same t1 t2" using k1(2) by metis
  from 1 2 show ?thesis using tier_same_trans by blast
qed

lemma register_fields [simp]:
  "t_base (register x ss t) = t_base t" "global (mem (register x ss t)) = global (mem t)"
  "overlays (mem (register x ss t)) = overlays (mem t)"
  "mem_index (mem (register x ss t)) = mem_index (mem t)"
  "mem_overlay (mem (register x ss t)) q = mem_overlay (mem t) q"
  by (simp_all add: register_def)

lemma register_keeps [simp]:
  "tier_ok (register x ss t) = tier_ok t" "grep (register x ss t) = grep t"
  "orep (register x ss t) = orep t"
proof -
  have b: "bpar (register x ss t) = bpar t" "bopar (register x ss t) = bopar t"
    by (rule bpar_cong; simp)+
  show "tier_ok (register x ss t) = tier_ok t" "grep (register x ss t) = grep t"
    by (simp_all add: tier_ok_def grep_def b)
  show "orep (register x ss t) = orep t" by (rule ext) (simp add: orep_def b)
qed

lemma regs_register [simp]:
  "regs (register x ss t) y = (if y = x then set ss \<union> regs t x else regs t y)"
  by (auto simp: regs_def register_def fset_of_list.rep_eq split: option.split)

lemma notified_spec: "set (notified t x) = regs t x" "distinct (notified t x)"
  by (auto simp: notified_def regs_def split: option.split)

lemma global_union_spec:
  assumes ok: "tier_ok t" and a: "grep t a = a" and b: "grep t b = b"
  shows "\<exists>m d. dsu_union (global (mem t)) a b = Some (m, d) \<and>
    m = (if a = b then None else Some \<lparr>m_child = max a b, m_parent = min a b\<rparr>) \<and>
    (let t' = t\<lparr>mem := (mem t)\<lparr>global := d\<rparr>\<rparr> in
     tier_ok t' \<and> grep t' = merge_rep (grep t) a b \<and> orep t' = orep t \<and> regs t' = regs t)"
proof -
  from union_total [OF tier_okD(3) [OF ok]] obtain m d where
    u: "dsu_union (global (mem t)) a b = Some (m, d)" by blast
  define t' where "t' = t\<lparr>mem := (mem t)\<lparr>global := d\<rparr>\<rparr>"
  note cong = bpar_cong [of t' t, unfolded t'_def, simplified, folded t'_def]
  note L = layered_union [OF tier_okD(1) [OF ok] a [unfolded grep_def] b [unfolded grep_def] u]
  have "rep (global (mem t)) a = a" "rep (global (mem t)) b = b"
    using a b layered_root [OF tier_okD(1) [OF ok]] root_of_is_root [OF layeredD(3) [OF tier_okD(1) [OF ok]]]
    unfolding grep_def by (metis map_add_None option.simps(4))+
  with union_rep [OF tier_okD(3) [OF ok] u]
  have m: "m = (if a = b then None else Some \<lparr>m_child = max a b, m_parent = min a b\<rparr>)" by simp
  have idx: "mem_index (mem t) \<Longrightarrow> index_ok d"
    using union_index [OF tier_okD(3) [OF ok] _ u] ok by (simp add: tier_ok_def)
  have "tier_ok t'"
    using ok L(1) idx unfolding tier_ok_def cong by (simp add: t'_def)
  moreover have "grep t' = merge_rep (grep t) a b"
    using L(2) by (simp add: grep_def cong) (simp add: t'_def)
  moreover have "orep t' = orep t" by (rule ext) (simp add: orep_def cong, simp add: t'_def)
  moreover have "regs t' = regs t" by (rule ext) (simp add: regs_def t'_def)
  ultimately show ?thesis using u m by (simp add: Let_def t'_def)
qed

lemma drop_registry:
  fixes t :: tier and c :: node_id
  defines "t' \<equiv> t\<lparr>mem := (mem t)\<lparr>registry := fmdrop c (registry (mem t))\<rparr>\<rparr>"
  shows "tier_ok t' = tier_ok t" and "grep t' = grep t" and "orep t' = orep t"
    and "x \<noteq> c \<Longrightarrow> regs t' x = regs t x"
proof -
  have b: "bpar t' = bpar t" "bopar t' = bopar t" by (rule bpar_cong; simp add: t'_def)+
  show "tier_ok t' = tier_ok t" "grep t' = grep t" "orep t' = orep t"
    by (simp_all add: tier_ok_def grep_def orep_def b fun_eq_iff) (simp_all add: t'_def)
  show "x \<noteq> c \<Longrightarrow> regs t' x = regs t x" by (simp add: regs_def t'_def)
qed

text \<open>What an event leaves alone: the index setting and the base.\<close>

definition same_config :: "scoped_forest \<Rightarrow> scoped_forest \<Rightarrow> bool" where
  "same_config f f' \<longleftrightarrow> member_index f' = member_index f \<and>
     mem_index (mem (tier_of f')) = mem_index (mem (tier_of f)) \<and>
     t_base (tier_of f') = t_base (tier_of f)"

lemma same_config_trans: "same_config a b \<Longrightarrow> same_config b c \<Longrightarrow> same_config a c"
  by (simp add: same_config_def)

lemma same_config_tier: "tier_same (tier_of f) t \<Longrightarrow> same_config f (f\<lparr>tier_of := t\<rparr>)"
  by (simp add: same_config_def tier_same_def)

lemma apply_global_spec:
  assumes rep: "represents (tier_of f) G S"
  shows "\<exists>f'. apply_global f u v = Some f' \<and> represents (tier_of f') (insert (u, v) G) S \<and>
    same_config f f'"
proof -
  let ?t = "tier_of f"
  let ?ru = "grep ?t u" and ?rv = "grep ?t v"
  have ok: "tier_ok ?t" and tr: "tracks (grep ?t) (orep ?t) (regs ?t) G S"
    using rep by (simp_all add: represents_def)
  from two_shared_roots [OF ok] obtain t1 t2 where
    run: "shared_root ?t u True = Some (?ru, t1)" "shared_root t1 v True = Some (?rv, t2)"
    and same: "tier_same ?t t2" by blast
  note k = tier_same_keeps [OF ok same]
  note idem = rep_funD(1) [OF rep_funs(1) [OF ok]]
  from global_union_spec [OF k(1), of ?ru ?rv] obtain m d where
    un: "dsu_union (global (mem t2)) ?ru ?rv = Some (m, d)"
    and m: "m = (if ?ru = ?rv then None else Some \<lparr>m_child = max ?ru ?rv, m_parent = min ?ru ?rv\<rparr>)"
    and t3: "tier_ok (t2\<lparr>mem := (mem t2)\<lparr>global := d\<rparr>\<rparr>)"
      "grep (t2\<lparr>mem := (mem t2)\<lparr>global := d\<rparr>\<rparr>) = merge_rep (grep ?t) u v"
      "orep (t2\<lparr>mem := (mem t2)\<lparr>global := d\<rparr>\<rparr>) = orep ?t"
      "regs (t2\<lparr>mem := (mem t2)\<lparr>global := d\<rparr>\<rparr>) = regs ?t"
    using k idem merge_rep_reps [OF rep_funs(1) [OF ok]] by (auto simp: Let_def)
  define t3 where "t3 = t2\<lparr>mem := (mem t2)\<lparr>global := d\<rparr>\<rparr>"
  note t3 = t3 [folded t3_def]
  show ?thesis
  proof (cases "?ru = ?rv")
    case True
    then have "apply_global f u v = Some (f\<lparr>tier_of := t3\<rparr>)"
      using run un m by (simp add: apply_global_def t3_def)
    moreover have "represents t3 (insert (u, v) G) S"
      using t3 tracks_global_same [OF tr True] True by (simp add: represents_def)
    moreover have "same_config f (f\<lparr>tier_of := t3\<rparr>)"
      using same by (simp add: same_config_def tier_same_def t3_def)
    ultimately show ?thesis by auto
  next
    case False
    let ?c = "max ?ru ?rv" and ?p = "min ?ru ?rv"
    let ?scopes = "notified t3 ?c"
    define t4 where "t4 = t3\<lparr>mem := (mem t3)\<lparr>registry := fmdrop ?c (registry (mem t3))\<rparr>\<rparr>"
    have t4': "t2\<lparr>mem := (mem t2)\<lparr>global := d, registry := fmdrop ?c (registry (mem t2))\<rparr>\<rparr> = t4"
      by (simp add: t4_def t3_def)
    note t4 = drop_registry [where t = t3 and c = ?c, folded t4_def]
    have "tier_ok t4" "distinct ?scopes" using t3 t4 notified_spec(2) by simp_all
    from fixup_scopes_spec [OF this, of ?c ?p, unfolded t4(3) t3(3) notified_spec(1) t3(4)]
    obtain n t5 where
      fx: "fixup_scopes t4 ?c ?p ?scopes = Some (n, t5)" "overlay_step t4 t5"
        "orep t5 = (\<lambda>s. if s \<in> regs ?t ?c then merge_rep (orep ?t s) ?c ?p else orep ?t s)"
      by blast
    define t6 where "t6 = (if ?scopes \<noteq> [] then register ?p ?scopes t5 else t5)"
    have "apply_global f u v = Some (f\<lparr>tier_of := t6, fixups := fixups f + word_of_nat n\<rparr>)"
      using run un m False fx(1) t4'
      by (cases "?scopes = []") (auto simp: apply_global_def Let_def t3_def [symmetric] t6_def)
    moreover have "represents t6 (insert (u, v) G) S"
    proof -
      have "tier_ok t6" "grep t6 = merge_rep (grep ?t) u v" "orep t6 = orep t5"
        using fx(2) t4 t3 by (auto simp: t6_def overlay_step_def)
      moreover have "regs ?t x \<subseteq> regs t6 x" if "x \<noteq> ?c" for x
        using overlay_step_regs [OF fx(2)] t4(4) [OF that] t3(4) by (auto simp: t6_def)
      moreover have "regs ?t ?c \<subseteq> regs t6 ?p"
        using notified_spec(1) [of t3 ?c] t3(4) by (auto simp: t6_def)
      ultimately show ?thesis
        using tracks_global_merge [OF tr False refl refl, of "orep t6" "regs t6"] fx(3)
        by (simp add: represents_def)
    qed
    moreover have "same_config f (f\<lparr>tier_of := t6, fixups := fixups f + word_of_nat n\<rparr>)"
      using same fx(2) by (simp add: same_config_def tier_same_def t6_def overlay_step_def t4_def t3_def)
    ultimately show ?thesis by auto
  qed
qed

lemma scoped_loop_spec:
  assumes "represents (tier_of f) G S" and "grep (tier_of f) u = ru" and "grep (tier_of f) v = rv"
  shows "\<exists>f'. scoped_loop f ru rv scopes = Some f' \<and>
    represents (tier_of f') G (\<lambda>s. if s \<in> set scopes then insert (u, v) (S s) else S s) \<and>
    same_config f f'"
  using assms
proof (induction scopes arbitrary: f S)
  case (Cons s scopes)
  let ?t = "tier_of f"
  have ok: "tier_ok ?t" and tr: "tracks (grep ?t) (orep ?t) (regs ?t) G S"
    using Cons.prems by (simp_all add: represents_def)
  from overlay_merge_spec [OF ok, of s ru rv] obtain t1 t2 t3 where
    run: "overlay_root ?t s ru True = Some (orep ?t s ru, t1)"
      "overlay_root t1 s rv True = Some (orep ?t s rv, t2)"
      "overlay_union t2 s (orep ?t s ru) (orep ?t s rv) = Some t3"
    and t3: "overlay_step ?t t3" "orep t3 = (orep ?t)(s := merge_rep (orep ?t s) ru rv)"
    by blast
  define t4 where "t4 = register rv [s] (register ru [s] t3)"
  have g4: "grep t4 = grep ?t" using t3(1) by (simp add: t4_def overlay_step_def)
  have "tracks (grep ?t) (orep t4) (regs t4) G (S(s := insert (u, v) (S s)))"
    using overlay_step_regs [OF t3(1)] t3(2) Cons.prems(2,3)
    by (intro tracks_scoped [OF tr]) (auto simp: t4_def)
  then have rep4: "represents t4 G (S(s := insert (u, v) (S s)))"
    using t3(1) g4 by (simp add: represents_def) (simp add: t4_def overlay_step_def)
  have cfg: "same_config f (f\<lparr>tier_of := t4, scope_links := scope_links f + 1\<rparr>)"
    using t3(1) by (simp add: same_config_def t4_def overlay_step_def)
  from Cons.IH [of "f\<lparr>tier_of := t4, scope_links := scope_links f + 1\<rparr>", simplified, OF rep4]
    g4 Cons.prems(2,3) cfg obtain f' where
    rest: "scoped_loop (f\<lparr>tier_of := t4, scope_links := scope_links f + 1\<rparr>) ru rv scopes = Some f'"
      "same_config f f'"
      "represents (tier_of f') G
         (\<lambda>q. if q \<in> set scopes then insert (u, v) ((S(s := insert (u, v) (S s))) q)
              else (S(s := insert (u, v) (S s))) q)" by (auto intro: same_config_trans)
  have "(\<lambda>q. if q \<in> set scopes then insert (u, v) ((S(s := insert (u, v) (S s))) q)
              else (S(s := insert (u, v) (S s))) q) =
        (\<lambda>q. if q \<in> set (s # scopes) then insert (u, v) (S q) else S q)"
    by (auto simp: fun_eq_iff)
  with rest run show ?case by (simp add: Let_def t4_def)
qed (simp add: same_config_def)

lemma apply_scoped_spec:
  assumes rep: "represents (tier_of f) G S"
  shows "\<exists>f'. apply_scoped f u v scopes = Some f' \<and>
    represents (tier_of f') G (\<lambda>s. if s \<in> set scopes then insert (u, v) (S s) else S s) \<and>
    same_config f f'"
proof -
  have ok: "tier_ok (tier_of f)" using rep by (simp add: represents_def)
  from two_shared_roots [OF ok] obtain t1 t2 where
    run: "shared_root (tier_of f) u True = Some (grep (tier_of f) u, t1)"
      "shared_root t1 v True = Some (grep (tier_of f) v, t2)" and same: "tier_same (tier_of f) t2"
    by blast
  from scoped_loop_spec [of "f\<lparr>tier_of := t2\<rparr>" G S u "grep (tier_of f) u" v "grep (tier_of f) v" scopes]
    represents_same [OF rep same] tier_same_keeps(2) [OF ok same] run
  show ?thesis using same_config_trans [OF same_config_tier [OF same]] by (auto simp: apply_scoped_def)
qed

text \<open>A forest that represents an event list: the shared tier and every scope follow the graph.\<close>

definition forest_represents :: "scoped_forest \<Rightarrow> edge_event list \<Rightarrow> bool" where
  "forest_represents f es \<longleftrightarrow> represents (tier_of f) (global_edges es) (scope_edges es) \<and>
     mem_index (mem (tier_of f)) = member_index f"

lemma apply_event_spec:
  assumes rep: "forest_represents f es"
  shows "\<exists>f'. apply_event f e = Some f' \<and> forest_represents f' (es @ [e]) \<and>
    same_config f f'"
proof (cases "normalize (ev_visibility e)")
  case Global
  have "scope_edges (es @ [e]) = scope_edges es" by (rule ext) (rule edges_snoc(3) [OF Global])
  with Global apply_global_spec [of f "global_edges es" "scope_edges es" "src e" "dst e"] rep
  show ?thesis
    by (auto simp: apply_event_def forest_represents_def edges_snoc(1) [OF Global] same_config_def)
next
  case (Scoped ss)
  have "scope_edges (es @ [e]) =
      (\<lambda>s. if s \<in> set ss then insert (src e, dst e) (scope_edges es s) else scope_edges es s)"
    by (rule ext) (simp add: edges_snoc(4) [OF Scoped])
  with Scoped apply_scoped_spec [of f "global_edges es" "scope_edges es" "src e" "dst e" ss] rep
  show ?thesis
    by (auto simp: apply_event_def forest_represents_def edges_snoc(2) [OF Scoped] same_config_def)
qed

section \<open>Answers\<close>

lemma tier_scope_root_spec:
  assumes rep: "represents t G S" and glob: "S GLOBAL_SCOPE = {}"
  shows "\<exists>t'. tier_scope_root t s x = Some (lowest (G \<union> S s) x, t') \<and> tier_same t t'"
proof -
  have ok: "tier_ok t" and tr: "tracks (grep t) (orep t) (regs t) G S"
    using rep by (simp_all add: represents_def)
  from shared_root_spec [OF ok] obtain t1 where
    1: "shared_root t x False = Some (grep t x, t1)" "tier_same t t1" by blast
  note k = tier_same_keeps [OF ok 1(2)]
  from overlay_root_spec [OF k(1)] obtain t2 where
    2: "overlay_root t1 s (grep t x) False = Some (orep t s (grep t x), t2)" "tier_same t1 t2"
    using k(3) by metis
  note ans = tracksD(1,3) [OF tr]
  show ?thesis
    using 1 2 tier_same_trans glob ans(2) [of s x] fun_cong [OF ans(1), of x]
    by (cases "s = GLOBAL_SCOPE") (auto simp: tier_scope_root_def)
qed

lemma scope_root_spec:
  assumes rep: "forest_represents f es"
  shows "\<exists>f'. scope_root f s x = Some (lowest (visible_edges es s) x, f') \<and>
    forest_represents f' es \<and> same_config f f'"
proof -
  from tier_scope_root_spec [of "tier_of f" "global_edges es" "scope_edges es" s x] rep
  obtain t' where t: "tier_scope_root (tier_of f) s x = Some (lowest (visible_edges es s) x, t')"
    "tier_same (tier_of f) t'"
    by (auto simp: forest_represents_def scope_edges_global visible_edges_split)
  with rep show ?thesis
    using represents_same [OF _ t(2)]
    by (simp add: scope_root_def forest_represents_def same_config_def) (simp add: tier_same_def)
qed

lemma connected_spec:
  assumes rep: "forest_represents f es"
  shows "\<exists>f'. connected f s u v = Some ((u, v) \<in> conn (visible_edges es s), f') \<and>
    forest_represents f' es"
proof -
  from scope_root_spec [OF rep] obtain f1 where
    1: "scope_root f s u = Some (lowest (visible_edges es s) u, f1)" "forest_represents f1 es" by blast
  from scope_root_spec [OF 1(2)] obtain f2 where
    2: "scope_root f1 s v = Some (lowest (visible_edges es s) v, f2)" "forest_represents f2 es" by blast
  from 1 2 show ?thesis by (auto simp: connected_def conn_iff_lowest)
qed

lemma memtable_new_empty [simp]:
  "par (global (memtable_new i)) = Map.empty" "par (mem_overlay (memtable_new i) s) = Map.empty"
  by (simp_all add: memtable_new_def mem_overlay_def)

lemma tier_ok_fresh:
  assumes "case b of None \<Rightarrow> True | Some b' \<Rightarrow> base_wf b'"
  shows "tier_ok \<lparr>t_base = b, mem = memtable_new i\<rparr>"
proof (cases b)
  case None
  then show ?thesis
    using index_ok_new by (simp add: tier_ok_def bpar_def bopar_def memtable_new_def mem_overlay_def)
next
  case (Some b')
  with assms have wf: "base_wf b'" by simp
  from base_wfD(1,2) [OF wf] Some show ?thesis
    using index_ok_new wf
    by (simp add: tier_ok_def bpar_def bopar_def memtable_new_def mem_overlay_def resolved_map_def)
qed

lemma fresh_reps:
  "grep \<lparr>t_base = b, mem = memtable_new i\<rparr> = root_of (case b of None \<Rightarrow> Map.empty | Some b' \<Rightarrow> shared_parent b')"
  "orep \<lparr>t_base = b, mem = memtable_new i\<rparr> s =
     root_of (case b of None \<Rightarrow> Map.empty | Some b' \<Rightarrow> overlay_parent b' s)"
  "regs \<lparr>t_base = b, mem = memtable_new i\<rparr> x = (case b of None \<Rightarrow> {} | Some b' \<Rightarrow> set (scopes_for_root b' x))"
  by (simp_all add: grep_def orep_def bpar_def bopar_def regs_def) (simp add: memtable_new_def)

lemma forest_new_represents: "forest_represents forest_new []"
  "forest_represents (forest_tracking_members forest_new) []"
proof -
  have "represents \<lparr>t_base = None, mem = memtable_new i\<rparr> {} (\<lambda>s. {})" for i
    using tier_ok_fresh [of None i] tracks_empty
    by (simp add: represents_def fresh_reps [of None i, THEN ext] fresh_reps(1))
  moreover have "scope_edges [] = (\<lambda>s. {})" by (rule ext) simp
  ultimately show "forest_represents forest_new []" "forest_represents (forest_tracking_members forest_new) []"
    by (simp_all add: forest_represents_def forest_new_def forest_tracking_members_def)
      (simp_all add: memtable_new_def)
qed

text \<open>Applying a list of events in order, as the ingest pipeline does.\<close>

fun apply_events :: "scoped_forest \<Rightarrow> edge_event list \<Rightarrow> scoped_forest option" where
  "apply_events f [] = Some f"
| "apply_events f (e # es) = Option.bind (apply_event f e) (\<lambda>f. apply_events f es)"

lemma apply_events_spec:
  assumes "forest_represents f es"
  shows "\<exists>f'. apply_events f es' = Some f' \<and> forest_represents f' (es @ es') \<and>
    same_config f f'"
  using assms
proof (induction es' arbitrary: f es)
  case (Cons e es')
  from apply_event_spec [OF Cons.prems, of e] obtain f1 where
    1: "apply_event f e = Some f1" "forest_represents f1 (es @ [e])" "same_config f f1"
    by blast
  from Cons.IH [OF 1(2)] 1 show ?case by (auto intro: same_config_trans)
qed (simp add: same_config_def)

text \<open>
  C1: the central correctness property of the engine. After any sequence of events on an empty
  forest, the representative of a node in a scope is the lowest node id of the node's component in
  the graph of exactly those edges the scope may see: the global ones and its own. Two nodes are
  reported connected exactly when they are in one component of that graph. Every operation
  returns.
\<close>

theorem scope_root_is_lowest_visible:
  "\<exists>f. apply_events forest_new es = Some f \<and>
     (\<forall>s x. \<exists>f'. scope_root f s x = Some (lowest (visible_edges es s) x, f')) \<and>
     (\<forall>s u v. \<exists>f'. connected f s u v = Some ((u, v) \<in> conn (visible_edges es s), f'))"
proof -
  from apply_events_spec [OF forest_new_represents(1), of es] obtain f where
    f: "apply_events forest_new es = Some f" "forest_represents f es" by auto
  then show ?thesis using scope_root_spec connected_spec by blast
qed

text \<open>
  C7: tenant isolation. Events whose visibility excludes a scope never change an answer in that
  scope: two event lists that agree on the events the scope sees give the same representatives
  there.
\<close>

theorem invisible_events_do_not_leak:
  assumes "filter (\<lambda>e. visible_to (ev_visibility e) s) es = filter (\<lambda>e. visible_to (ev_visibility e) s) es'"
  shows "\<exists>f f'. apply_events forest_new es = Some f \<and> apply_events forest_new es' = Some f' \<and>
    (\<forall>x. map_option fst (scope_root f s x) = map_option fst (scope_root f' s x) \<and>
      scope_root f s x \<noteq> None)"
proof -
  have "{e \<in> set es. visible_to (ev_visibility e) s} = {e \<in> set es'. visible_to (ev_visibility e) s}"
    using arg_cong [OF assms, of set] by simp
  then have same: "visible_edges es s = visible_edges es' s"
    unfolding visible_edges_def by blast
  from apply_events_spec [OF forest_new_represents(1), of es] obtain f where
    f: "apply_events forest_new es = Some f" "forest_represents f es" by auto
  from apply_events_spec [OF forest_new_represents(1), of es'] obtain f' where
    f': "apply_events forest_new es' = Some f'" "forest_represents f' es'" by auto
  have "map_option fst (scope_root f s x) = map_option fst (scope_root f' s x) \<and> scope_root f s x \<noteq> None" for x
    using scope_root_spec [OF f(2), of s x] scope_root_spec [OF f'(2), of s x] same by auto
  with f(1) f'(1) show ?thesis by blast
qed

theorem invisible_events_do_not_leak_witness:
  "\<exists>f f'. apply_events forest_new
       [\<lparr>src = 1, dst = 2, ev_visibility = Scoped [7], event_time_ms = 0, props = None\<rparr>] = Some f \<and>
     apply_events forest_new [] = Some f' \<and>
     (\<forall>x. map_option fst (scope_root f 8 x) = map_option fst (scope_root f' 8 x) \<and>
       scope_root f 8 x \<noteq> None)"
  by (rule invisible_events_do_not_leak) (simp add: GLOBAL_SCOPE_def)

end
