(* ===== verification/Forest_Fold.thy ===== *)
theory Forest_Fold
  imports Scoped_Forest
begin

text \<open>
  Compaction, folds, snapshots and hydration of \<^verbatim>\<open>src/core/scoped.rs\<close>. A sink receives a stream of
  calls; the stream is a list of \<open>sink_event\<close>s and a sink is a function on it. The union lock is
  held throughout, so each operation is one step; a query that runs in between repairs paths,
  which is the tier the walks return.

  The file shows what a compaction emits: the composed pairs of both layers, each key once, in
  ascending order, with a registry entry for every live root an overlay pair touches. From that it
  follows that folding the memtable into a base, in full or as a delta layer, swapping in an
  equivalent base, and a snapshot followed by a hydration all leave every answer as it was.
\<close>

section \<open>The stream a sink receives\<close>

datatype sink_event =
    SharedPair node_id node_id
  | ScopeStart scope_id
  | OverlayPair node_id node_id
  | RegistryEntry node_id scope_id
  | ScopeEnd scope_id

type_synonym stream = "sink_event list"

definition emit_shared :: "tier \<Rightarrow> node_id \<Rightarrow> (stream \<times> tier) option" where
  "emit_shared t node =
     do { (root, t) \<leftarrow> shared_root t node False;
          Some (if root \<noteq> node then [SharedPair node root] else [], t) }"

definition emit_overlay :: "scope_id \<Rightarrow> tier \<Rightarrow> node_id \<Rightarrow> (stream \<times> tier) option" where
  "emit_overlay scope t node =
     do { (root, t) \<leftarrow> overlay_root t scope node False;
          if root = node then Some ([], t)
          else do { (a, t) \<leftarrow> shared_root t node False;
                    (b, t) \<leftarrow> shared_root t root False;
                    Some (OverlayPair node root # RegistryEntry a scope #
                      (if b \<noteq> a then [RegistryEntry b scope] else []), t) } }"

fun emit_all :: "(tier \<Rightarrow> node_id \<Rightarrow> (stream \<times> tier) option) \<Rightarrow> tier \<Rightarrow> node_id list \<Rightarrow>
    (stream \<times> tier) option" where
  "emit_all emit t [] = Some ([], t)"
| "emit_all emit t (k # ks) =
     do { (e, t) \<leftarrow> emit t k; (es, t) \<leftarrow> emit_all emit t ks; Some (e @ es, t) }"

text \<open>
  The merge-join of the base's ascending stream with the sorted memtable keys. Smaller memtable
  keys are emitted first, an equal one is skipped, then the base key is emitted.
\<close>

fun merge_join :: "(tier \<Rightarrow> node_id \<Rightarrow> (stream \<times> tier) option) \<Rightarrow> tier \<Rightarrow> node_id list \<Rightarrow>
    (node_id \<times> node_id) list \<Rightarrow> (stream \<times> tier) option" where
  "merge_join emit t keys [] = emit_all emit t keys"
| "merge_join emit t keys ((k, v) # base) =
     do { (e1, t) \<leftarrow> emit_all emit t (takeWhile (\<lambda>m. m < k) keys);
          let rest = dropWhile (\<lambda>m. m < k) keys;
          let rest = (case rest of m # ms \<Rightarrow> if m = k then ms else rest | [] \<Rightarrow> []);
          (e2, t) \<leftarrow> emit t k;
          (e3, t) \<leftarrow> merge_join emit t rest base;
          Some (e1 @ e2 @ e3, t) }"

definition overlay_keys :: "tier \<Rightarrow> scope_id \<Rightarrow> node_id list" where
  "overlay_keys t scope =
     (case fmlookup (overlays (mem t)) scope of None \<Rightarrow> [] | Some d \<Rightarrow> sort (dsu_keys d))"

definition base_shared_pairs :: "tier \<Rightarrow> (node_id \<times> node_id) list" where
  "base_shared_pairs t = (case t_base t of None \<Rightarrow> [] | Some b \<Rightarrow> for_each_shared_pair b)"

definition base_overlay_pairs :: "tier \<Rightarrow> scope_id \<Rightarrow> (node_id \<times> node_id) list" where
  "base_overlay_pairs t s = (case t_base t of None \<Rightarrow> [] | Some b \<Rightarrow> for_each_overlay_pair b s)"

fun compact_scopes :: "tier \<Rightarrow> scope_id list \<Rightarrow> (stream \<times> tier) option" where
  "compact_scopes t [] = Some ([], t)"
| "compact_scopes t (scope # scopes) =
     do { (e, t) \<leftarrow> merge_join (emit_overlay scope) t (overlay_keys t scope) (base_overlay_pairs t scope);
          (es, t) \<leftarrow> compact_scopes t scopes;
          Some (ScopeStart scope # e @ ScopeEnd scope # es, t) }"

definition compact_locked :: "tier \<Rightarrow> (stream \<times> tier) option" where
  "compact_locked t =
     do { (shared, t) \<leftarrow> merge_join emit_shared t (sort (dsu_keys (global (mem t)))) (base_shared_pairs t);
          let scope_ids = sort_dedup (sorted_list_of_fset (fmdom (overlays (mem t))) @
                (case t_base t of None \<Rightarrow> [] | Some b \<Rightarrow> base_scopes b));
          (over, t) \<leftarrow> compact_scopes t scope_ids;
          Some (shared @ over, t) }"

fun memtable_scopes :: "tier \<Rightarrow> scope_id list \<Rightarrow> (stream \<times> tier) option" where
  "memtable_scopes t [] = Some ([], t)"
| "memtable_scopes t (scope # scopes) =
     do { (e, t) \<leftarrow> emit_all (emit_overlay scope) t (overlay_keys t scope);
          (es, t) \<leftarrow> memtable_scopes t scopes;
          Some (ScopeStart scope # e @ ScopeEnd scope # es, t) }"

definition stream_memtable :: "tier \<Rightarrow> (stream \<times> tier) option" where
  "stream_memtable t =
     do { (shared, t) \<leftarrow> emit_all emit_shared t (sort (dsu_keys (global (mem t))));
          (over, t) \<leftarrow> memtable_scopes t (sort (sorted_list_of_fset (fmdom (overlays (mem t)))));
          Some (shared @ over, t) }"

section \<open>Folds\<close>

text \<open>
  The caller's \<^verbatim>\<open>build\<close> turns the stream into a base and an output, or fails; a failure leaves the
  forest as it was, apart from the paths the walks shortened.
\<close>

definition compact_and_fold ::
  "(stream \<Rightarrow> 'e + routing_base \<times> 'o) \<Rightarrow> scoped_forest \<Rightarrow> (('e + 'o) \<times> scoped_forest) option" where
  "compact_and_fold build f =
     do { (ev, t) \<leftarrow> compact_locked (tier_of f);
          (case build ev of
             Inl e \<Rightarrow> Some (Inl e, f\<lparr>tier_of := t\<rparr>)
           | Inr (b, out) \<Rightarrow>
               Some (Inr out, f\<lparr>tier_of := \<lparr>t_base = Some b, mem = memtable_new (member_index f)\<rparr>,
                 folds := folds f + 1\<rparr>)) }"

definition fold_delta ::
  "(stream \<Rightarrow> routing_base option \<Rightarrow> 'e + routing_base \<times> 'o) \<Rightarrow> scoped_forest \<Rightarrow>
     (('e + 'o) \<times> scoped_forest) option" where
  "fold_delta build f =
     do { (ev, t) \<leftarrow> stream_memtable (tier_of f);
          (case build ev (t_base (tier_of f)) of
             Inl e \<Rightarrow> Some (Inl e, f\<lparr>tier_of := t\<rparr>)
           | Inr (b, out) \<Rightarrow>
               Some (Inr out, f\<lparr>tier_of := \<lparr>t_base = Some b, mem = memtable_new (member_index f)\<rparr>,
                 folds := folds f + 1\<rparr>)) }"

definition swap_base :: "routing_base \<Rightarrow> scoped_forest \<Rightarrow> scoped_forest" where
  "swap_base b f = f\<lparr>tier_of := \<lparr>t_base = Some b, mem = mem (tier_of f)\<rparr>\<rparr>"

section \<open>Snapshots\<close>

record forest_snapshot =
  snap_global :: "(node_id \<times> node_id) list"
  snap_scopes :: "(scope_id \<times> (node_id \<times> node_id) list) list"

record snapshot_collector =
  c_global :: "(node_id \<times> node_id) list"
  c_scopes :: "(scope_id \<times> (node_id \<times> node_id) list) list"
  c_open :: "(scope_id \<times> (node_id \<times> node_id) list) option"

fun collect :: "sink_event \<Rightarrow> snapshot_collector \<Rightarrow> snapshot_collector" where
  "collect (SharedPair n r) c = c\<lparr>c_global := c_global c @ [(n, r)]\<rparr>"
| "collect (OverlayPair n r) c =
     c\<lparr>c_open := map_option (\<lambda>(s, pairs). (s, pairs @ [(n, r)])) (c_open c)\<rparr>"
| "collect (ScopeStart s) c = c\<lparr>c_open := Some (s, [])\<rparr>"
| "collect (ScopeEnd s) c =
     (case c_open c of
        Some (s, pairs) \<Rightarrow>
          c\<lparr>c_open := None, c_scopes := (if pairs \<noteq> [] then c_scopes c @ [(s, pairs)] else c_scopes c)\<rparr>
      | None \<Rightarrow> c)"
| "collect (RegistryEntry r s) c = c"

definition forest_snapshot_of :: "scoped_forest \<Rightarrow> (forest_snapshot \<times> scoped_forest) option" where
  "forest_snapshot_of f =
     do { (ev, t) \<leftarrow> compact_locked (tier_of f);
          let c = fold collect ev \<lparr>c_global = [], c_scopes = [], c_open = None\<rparr>;
          Some (\<lparr>snap_global = c_global c, snap_scopes = c_scopes c\<rparr>, f\<lparr>tier_of := t\<rparr>) }"

fun register_live :: "tier \<Rightarrow> scope_id \<Rightarrow> node_id list \<Rightarrow> tier option" where
  "register_live t scope [] = Some t"
| "register_live t scope (m # ms) =
     do { (live, d) \<leftarrow> dsu_find (global (mem t)) m;
          let t = t\<lparr>mem := (mem t)\<lparr>global := d\<rparr>\<rparr>;
          register_live (register live [scope] t) scope ms }"

fun hydrate_scopes :: "scoped_forest \<Rightarrow> (scope_id \<times> (node_id \<times> node_id) list) list \<Rightarrow> scoped_forest option" where
  "hydrate_scopes f [] = Some f"
| "hydrate_scopes f ((scope, pairs) # rest) =
     do { let t = tier_of f;
          let t = t\<lparr>mem := (mem t)\<lparr>overlays :=
                fmupd scope (dsu_hydrate (mem_overlay (mem t) scope) pairs) (overlays (mem t))\<rparr>\<rparr>;
          t \<leftarrow> register_live t scope (concat (map (\<lambda>(a, b). [a, b]) pairs));
          hydrate_scopes
            (f\<lparr>tier_of := t, scope_links := scope_links f + word_of_nat (length pairs)\<rparr>) rest }"

definition forest_hydrate :: "scoped_forest \<Rightarrow> forest_snapshot \<Rightarrow> scoped_forest option" where
  "forest_hydrate f snap =
     (let t = tier_of f;
          t = t\<lparr>mem := (mem t)\<lparr>global := dsu_hydrate (global (mem t)) (snap_global snap)\<rparr>\<rparr>
      in hydrate_scopes (f\<lparr>tier_of := t\<rparr>) (snap_scopes snap))"

section \<open>What a compaction emits\<close>

definition shared_ev :: "tier \<Rightarrow> node_id \<Rightarrow> stream" where
  "shared_ev t k = (if grep t k \<noteq> k then [SharedPair k (grep t k)] else [])"

definition overlay_ev :: "tier \<Rightarrow> scope_id \<Rightarrow> node_id \<Rightarrow> stream" where
  "overlay_ev t s k =
     (if orep t s k = k then []
      else OverlayPair k (orep t s k) # RegistryEntry (grep t k) s #
        (if grep t (orep t s k) \<noteq> grep t k then [RegistryEntry (grep t (orep t s k)) s] else []))"

text \<open>An emitter produces the same events whatever paths earlier walks have shortened.\<close>

definition emits :: "tier \<Rightarrow> (tier \<Rightarrow> node_id \<Rightarrow> (stream \<times> tier) option) \<Rightarrow> (node_id \<Rightarrow> stream) \<Rightarrow> bool" where
  "emits t emit ev \<longleftrightarrow>
     (\<forall>t' k. tier_same t t' \<longrightarrow> (\<exists>t''. emit t' k = Some (ev k, t'') \<and> tier_same t t''))"

lemma emitsD:
  assumes "emits t emit ev" and "tier_same t t'"
  obtains t'' where "emit t' k = Some (ev k, t'')" and "tier_same t t''"
  using assms unfolding emits_def by blast

lemma shared_root_same:
  assumes ok: "tier_ok t" and same: "tier_same t t'"
  obtains t'' where "shared_root t' x c = Some (grep t x, t'')" and "tier_same t t''"
  using shared_root_spec [OF tier_same_keeps(1) [OF ok same], of x c] tier_same_keeps(2) [OF ok same]
    tier_same_trans [OF same] by metis

lemma overlay_root_same:
  assumes ok: "tier_ok t" and same: "tier_same t t'"
  obtains t'' where "overlay_root t' s x c = Some (orep t s x, t'')" and "tier_same t t''"
  using overlay_root_spec [OF tier_same_keeps(1) [OF ok same], of s x c] tier_same_keeps(3) [OF ok same]
    tier_same_trans [OF same] by metis

lemma emits_shared: "tier_ok t \<Longrightarrow> emits t emit_shared (shared_ev t)"
  unfolding emits_def
proof (intro allI impI)
  fix t' k assume "tier_ok t" "tier_same t t'"
  then obtain t'' where "shared_root t' k False = Some (grep t k, t'')" "tier_same t t''"
    by (rule shared_root_same)
  then show "\<exists>t''. emit_shared t' k = Some (shared_ev t k, t'') \<and> tier_same t t''"
    by (simp add: emit_shared_def shared_ev_def)
qed

lemma emits_overlay: "tier_ok t \<Longrightarrow> emits t (emit_overlay s) (overlay_ev t s)"
  unfolding emits_def
proof (intro allI impI)
  fix t' k assume ok: "tier_ok t" and same: "tier_same t t'"
  obtain t1 where 1: "overlay_root t' s k False = Some (orep t s k, t1)" "tier_same t t1"
    using ok same by (rule overlay_root_same)
  obtain t2 where 2: "shared_root t1 k False = Some (grep t k, t2)" "tier_same t t2"
    using ok 1(2) by (rule shared_root_same)
  obtain t3 where 3: "shared_root t2 (orep t s k) False = Some (grep t (orep t s k), t3)" "tier_same t t3"
    using ok 2(2) by (rule shared_root_same)
  show "\<exists>t''. emit_overlay s t' k = Some (overlay_ev t s k, t'') \<and> tier_same t t''"
    using 1 2 3 by (simp add: emit_overlay_def overlay_ev_def)
qed

lemma emit_all_spec:
  assumes "emits t emit ev" and "tier_same t t'"
  obtains t'' where "emit_all emit t' ks = Some (concat (map ev ks), t'')" and "tier_same t t''"
  using assms(2)
proof (induction ks arbitrary: t' thesis)
  case (Cons k ks)
  obtain t1 where 1: "emit t' k = Some (ev k, t1)" "tier_same t t1"
    using assms(1) Cons.prems(2) by (rule emitsD)
  obtain t2 where "emit_all emit t1 ks = Some (concat (map ev ks), t2)" "tier_same t t2"
    using Cons.IH [OF _ 1(2)] by blast
  with 1 Cons.prems(1) show ?case by simp
qed simp

text \<open>The keys the merge-join visits, in order.\<close>

fun join_keys :: "'a::linorder list \<Rightarrow> 'a list \<Rightarrow> 'a list" where
  "join_keys ms [] = ms"
| "join_keys ms (k # ks) =
     takeWhile (\<lambda>m. m < k) ms @ k #
       join_keys (case dropWhile (\<lambda>m. m < k) ms of m # ms' \<Rightarrow> if m = k then ms' else m # ms' | [] \<Rightarrow> []) ks"

lemma merge_join_spec:
  assumes "emits t emit ev" and "tier_same t t'"
  obtains t'' where "merge_join emit t' ms base = Some (concat (map ev (join_keys ms (map fst base))), t'')"
    and "tier_same t t''"
  using assms(2)
proof (induction base arbitrary: t' ms thesis)
  case Nil
  then show ?case using emit_all_spec [OF assms(1) Nil.prems(2)] by auto
next
  case (Cons kv base)
  obtain k v where kv: "kv = (k, v)" by (cases kv)
  let ?rest = "case dropWhile (\<lambda>m. m < k) ms of m # ms' \<Rightarrow> if m = k then ms' else m # ms' | [] \<Rightarrow> []"
  obtain t1 where 1: "emit_all emit t' (takeWhile (\<lambda>m. m < k) ms) =
      Some (concat (map ev (takeWhile (\<lambda>m. m < k) ms)), t1)" "tier_same t t1"
    using emit_all_spec [OF assms(1) Cons.prems(2)] by blast
  obtain t2 where 2: "emit t1 k = Some (ev k, t2)" "tier_same t t2"
    using assms(1) 1(2) by (rule emitsD)
  obtain t3 where 3: "merge_join emit t2 ?rest base =
      Some (concat (map ev (join_keys ?rest (map fst base))), t3)" "tier_same t t3"
    using Cons.IH [OF _ 2(2)] by blast
  have "(case dropWhile (\<lambda>m. m < k) ms of [] \<Rightarrow> [] | m # ms' \<Rightarrow>
      if m = k then ms' else dropWhile (\<lambda>m. m < k) ms) = ?rest"
    by (cases "dropWhile (\<lambda>m. m < k) ms"; simp only: list.case)
  with 1 2 3 show ?case by (intro Cons.prems(1) [of t3]) (simp_all add: kv)
qed

lemma join_keys_sorted:
  assumes "sorted_wrt (<) ms" and "sorted_wrt (<) ks"
  shows "sorted_wrt (<) (join_keys ms ks)" and "set (join_keys ms ks) = set ms \<union> set ks"
proof -
  have "sorted_wrt (<) (join_keys ms ks) \<and> set (join_keys ms ks) = set ms \<union> set ks"
    using assms
  proof (induction ks arbitrary: ms)
    case (Cons k ks)
    let ?lt = "takeWhile (\<lambda>m. m < k) ms"
    define rest where "rest = (case dropWhile (\<lambda>m. m < k) ms of m # ms' \<Rightarrow> if m = k then ms' else m # ms' | [] \<Rightarrow> [])"
    have ms: "ms = ?lt @ dropWhile (\<lambda>m. m < k) ms" by simp
    have s: "sorted_wrt (<) ?lt" "sorted_wrt (<) (dropWhile (\<lambda>m. m < k) ms)"
      using Cons.prems(1) ms by (metis sorted_wrt_append)+
    have lt: "\<forall>m \<in> set ?lt. m < k" by (auto dest: set_takeWhileD)
    have rest: "sorted_wrt (<) rest \<and> (\<forall>m \<in> set rest. k < m) \<and>
      insert k (set rest) = insert k (set (dropWhile (\<lambda>m. m < k) ms))"
    proof (cases "dropWhile (\<lambda>m. m < k) ms")
      case Nil
      then show ?thesis unfolding rest_def Nil by simp
    next
      case c: (Cons m ms')
      then have "k \<le> m" using hd_dropWhile [of "\<lambda>m. m < k" ms] by auto
      with s(2) show ?thesis unfolding rest_def c by (auto simp: less_le)
    qed
    have jk: "sorted_wrt (<) (join_keys rest ks)" "set (join_keys rest ks) = set rest \<union> set ks"
      using Cons.IH [of rest] rest Cons.prems(2) by simp_all
    have eq: "join_keys ms (k # ks) = ?lt @ k # join_keys rest ks" by (simp add: rest_def)
    have "set ms = set ?lt \<union> set (dropWhile (\<lambda>m. m < k) ms)"
      by (metis set_append takeWhile_dropWhile_id)
    then have si: "insert k (set ms) = insert k (set ?lt \<union> set rest)" using rest by blast
    have "\<forall>m \<in> set (join_keys rest ks). k < m" using jk(2) rest Cons.prems(2) by auto
    then have "sorted_wrt (<) (join_keys ms (k # ks))"
      unfolding eq using s(1) lt jk(1) by (force simp: sorted_wrt_append)
    moreover have "set (join_keys ms (k # ks)) = set ms \<union> set (k # ks)"
      unfolding eq using jk(2) si by auto
    ultimately show ?case by blast
  qed simp
  then show "sorted_wrt (<) (join_keys ms ks)" and "set (join_keys ms ks) = set ms \<union> set ks" by auto
qed

subsection \<open>The keys of both layers\<close>

lemma sort_keys: "sort (dsu_keys d) = dsu_keys d"
  using strict_sorted_imp_sorted [OF sorted_keys(3), of "parents d"] by (simp add: dsu_keys_def sorted_sort_id)

lemma dsu_keys_sorted: "sorted_wrt (<) (dsu_keys d)"
  unfolding dsu_keys_def by (rule sorted_keys)

lemma overlay_keys_spec:
  "sorted_wrt (<) (overlay_keys t s)" "set (overlay_keys t s) = dom (mopar t s)"
  by (simp_all add: overlay_keys_def mem_overlay_def sort_keys dsu_keys_sorted dsu_keys_spec(2)
      split: option.split)

lemma overlay_keys_same: "tier_same t t' \<Longrightarrow> overlay_keys t' s = overlay_keys t s"
  by (intro strict_sorted_unique) (auto simp: overlay_keys_spec tier_same_def compresses_def)

lemma base_pairs_spec:
  assumes "tier_ok t"
  shows "sorted_wrt (<) (map fst (base_shared_pairs t))" "fst ` set (base_shared_pairs t) = dom (bpar t)"
    "sorted_wrt (<) (map fst (base_overlay_pairs t s))" "fst ` set (base_overlay_pairs t s) = dom (bopar t s)"
  using base_wfD(3,4) [OF tier_okD(5) [OF assms]]
  by (auto simp: base_shared_pairs_def base_overlay_pairs_def bpar_def bopar_def lists_keys_def
      split: option.split)

definition shared_keys :: "tier \<Rightarrow> node_id list" where
  "shared_keys t = join_keys (dsu_keys (global (mem t))) (map fst (base_shared_pairs t))"

definition all_overlay_keys :: "tier \<Rightarrow> scope_id \<Rightarrow> node_id list" where
  "all_overlay_keys t s = join_keys (overlay_keys t s) (map fst (base_overlay_pairs t s))"

definition scope_ids :: "tier \<Rightarrow> scope_id list" where
  "scope_ids t = sort_dedup (sorted_list_of_fset (fmdom (overlays (mem t))) @
     (case t_base t of None \<Rightarrow> [] | Some b \<Rightarrow> base_scopes b))"

lemma moved_iff:
  assumes "tier_ok t"
  shows "grep t k \<noteq> k \<longleftrightarrow> k \<in> dom (mpar t) \<union> dom (bpar t)"
    and "orep t s k \<noteq> k \<longleftrightarrow> k \<in> dom (mopar t s) \<union> dom (bopar t s)"
  using root_of_eq_self_iff [OF layeredD(3) [OF tier_okD(1) [OF assms]], of k]
    root_of_eq_self_iff [OF layeredD(3) [OF tier_okD(2) [OF assms]], of s k]
  by (simp_all add: grep_def orep_def domIff map_add_None)

lemma keys_spec:
  assumes ok: "tier_ok t"
  shows "sorted_wrt (<) (shared_keys t)" and "set (shared_keys t) = {k. grep t k \<noteq> k}"
    and "sorted_wrt (<) (all_overlay_keys t s)" and "set (all_overlay_keys t s) = {k. orep t s k \<noteq> k}"
proof -
  have k: "sorted_wrt (<) (dsu_keys (global (mem t)))" "set (dsu_keys (global (mem t))) = dom (mpar t)"
    by (simp_all only: dsu_keys_def sorted_keys)
  note b = base_pairs_spec [OF ok]
  note m = moved_iff [OF ok]
  show "sorted_wrt (<) (shared_keys t)" and "set (shared_keys t) = {k. grep t k \<noteq> k}"
    unfolding shared_keys_def using join_keys_sorted [OF k(1) b(1)] k(2) b(2) m(1) by auto
  show "sorted_wrt (<) (all_overlay_keys t s)" and "set (all_overlay_keys t s) = {k. orep t s k \<noteq> k}"
    unfolding all_overlay_keys_def
    using join_keys_sorted [OF overlay_keys_spec(1) b(3), of t s s] overlay_keys_spec(2) [of t s] b(4) [of s] m(2) [of s]
    by auto
qed

lemma moved_scope:
  assumes ok: "tier_ok t" and "orep t s k \<noteq> k"
  shows "s \<in> set (scope_ids t)"
proof -
  from assms moved_iff(2) [OF ok] consider "k \<in> dom (mopar t s)" | "k \<in> dom (bopar t s)" by blast
  then show ?thesis
  proof cases
    case 1
    then have "s |\<in>| fmdom (overlays (mem t))"
      by (cases "fmlookup (overlays (mem t)) s") (auto simp: mem_overlay_def intro: fmdomI)
    then show ?thesis by (simp add: scope_ids_def)
  next
    case 2
    then obtain b r where "t_base t = Some b" "overlay_parent b s k = Some r"
      by (auto simp: bopar_def split: option.splits)
    with base_wfD(5) [OF tier_okD(5) [OF ok]] show ?thesis by (simp add: scope_ids_def)
  qed
qed

subsection \<open>The stream of a compaction\<close>

definition scope_ev :: "tier \<Rightarrow> (scope_id \<Rightarrow> node_id list) \<Rightarrow> scope_id \<Rightarrow> stream" where
  "scope_ev t keys s = ScopeStart s # concat (map (overlay_ev t s) (keys s)) @ [ScopeEnd s]"

definition compaction :: "tier \<Rightarrow> stream" where
  "compaction t = concat (map (shared_ev t) (shared_keys t)) @
     concat (map (scope_ev t (all_overlay_keys t)) (scope_ids t))"

lemma compact_scopes_spec:
  assumes ok: "tier_ok t" and "tier_same t t'"
  obtains t'' where "compact_scopes t' ss = Some (concat (map (scope_ev t (all_overlay_keys t)) ss), t'')"
    and "tier_same t t''"
  using assms(2)
proof (induction ss arbitrary: t' thesis)
  case (Cons s ss)
  have k: "overlay_keys t' s = overlay_keys t s" "base_overlay_pairs t' s = base_overlay_pairs t s"
    using overlay_keys_same [OF Cons.prems(2)] tier_same_keeps(5) [OF ok Cons.prems(2)]
    by (simp_all add: base_overlay_pairs_def)
  obtain t1 where 1: "merge_join (emit_overlay s) t' (overlay_keys t s) (base_overlay_pairs t s) =
      Some (concat (map (overlay_ev t s) (all_overlay_keys t s)), t1)" "tier_same t t1"
    using merge_join_spec [OF emits_overlay [OF ok] Cons.prems(2)] unfolding all_overlay_keys_def by blast
  obtain t2 where "compact_scopes t1 ss = Some (concat (map (scope_ev t (all_overlay_keys t)) ss), t2)"
    "tier_same t t2"
    using Cons.IH [OF _ 1(2)] by blast
  with 1 k Cons.prems(1) show ?case by (simp add: scope_ev_def [of t _ s])
qed simp

lemma compact_locked_spec:
  assumes ok: "tier_ok t"
  obtains t' where "compact_locked t = Some (compaction t, t')" and "tier_same t t'"
proof -
  obtain t1 where 1: "merge_join emit_shared t (dsu_keys (global (mem t))) (base_shared_pairs t) =
      Some (concat (map (shared_ev t) (shared_keys t)), t1)" "tier_same t t1"
    using merge_join_spec [OF emits_shared [OF ok] tier_same_refl [OF ok]] unfolding shared_keys_def by blast
  have "scope_ids t1 = scope_ids t"
    using 1(2) by (simp add: scope_ids_def tier_same_def)
  moreover obtain t2 where "compact_scopes t1 (scope_ids t) =
      Some (concat (map (scope_ev t (all_overlay_keys t)) (scope_ids t)), t2)" "tier_same t t2"
    using compact_scopes_spec [OF ok 1(2)] by blast
  ultimately show thesis
    using 1 that [of t2]
    by (simp add: compact_locked_def compaction_def sort_keys scope_ids_def)
qed

section \<open>Reading a stream back\<close>

fun shared_of :: "stream \<Rightarrow> (node_id \<times> node_id) list" where
  "shared_of [] = []"
| "shared_of (SharedPair n r # ev) = (n, r) # shared_of ev"
| "shared_of (_ # ev) = shared_of ev"

text \<open>The overlay pairs, each with the scope that was open when it was emitted.\<close>

fun group_pairs :: "scope_id option \<Rightarrow> stream \<Rightarrow> (scope_id \<times> node_id \<times> node_id) list" where
  "group_pairs c [] = []"
| "group_pairs c (ScopeStart s # ev) = group_pairs (Some s) ev"
| "group_pairs c (ScopeEnd s # ev) = group_pairs None ev"
| "group_pairs (Some s) (OverlayPair n r # ev) = (s, n, r) # group_pairs (Some s) ev"
| "group_pairs c (_ # ev) = group_pairs c ev"

definition overlay_of :: "stream \<Rightarrow> scope_id \<Rightarrow> (node_id \<times> node_id) list" where
  "overlay_of ev s = map snd (filter (\<lambda>g. fst g = s) (group_pairs None ev))"

lemma shared_of_append [simp]: "shared_of (a @ b) = shared_of a @ shared_of b"
  by (induction a rule: shared_of.induct) auto

lemma shared_of_shared_ev:
  "\<forall>k \<in> set ks. grep t k \<noteq> k \<Longrightarrow>
     shared_of (concat (map (shared_ev t) ks)) = map (\<lambda>k. (k, grep t k)) ks"
  by (induction ks) (auto simp: shared_ev_def)

lemma shared_of_overlay_ev: "shared_of (concat (map (overlay_ev t s) ks)) = []"
  by (induction ks) (auto simp: overlay_ev_def)

lemma shared_of_scope_ev: "shared_of (concat (map (scope_ev t keys) ss)) = []"
  by (induction ss) (simp_all add: scope_ev_def shared_of_overlay_ev)

lemma group_pairs_shared_ev: "group_pairs c (concat (map (shared_ev t) ks) @ ev) = group_pairs c ev"
  by (induction ks; cases c) (auto simp: shared_ev_def)

lemma group_pairs_overlay_ev:
  "\<forall>k \<in> set ks. orep t s k \<noteq> k \<Longrightarrow>
     group_pairs (Some s) (concat (map (overlay_ev t s) ks) @ ev) =
       map (\<lambda>k. (s, k, orep t s k)) ks @ group_pairs (Some s) ev"
  by (induction ks) (auto simp: overlay_ev_def)

lemma group_pairs_scope_ev:
  assumes "\<And>s k. k \<in> set (keys s) \<Longrightarrow> orep t s k \<noteq> k"
  shows "group_pairs None (concat (map (scope_ev t keys) ss)) =
    concat (map (\<lambda>s. map (\<lambda>k. (s, k, orep t s k)) (keys s)) ss)"
proof (induction ss)
  case (Cons s ss)
  then show ?case using assms by (simp add: scope_ev_def [of t keys s] group_pairs_overlay_ev)
qed simp

lemma filter_scope:
  "distinct ss \<Longrightarrow>
     map snd (filter (\<lambda>g. fst g = s) (concat (map (\<lambda>s. map (\<lambda>k. (s, f s k)) (keys s)) ss))) =
       (if s \<in> set ss then map (f s) (keys s) else [])"
proof (induction ss)
  case (Cons q ss)
  have "map snd (filter (\<lambda>g. fst g = s) (map (\<lambda>k. (q, f q k)) (keys q))) =
      (if q = s then map (f s) (keys s) else [])"
    by (simp add: filter_map comp_def)
  with Cons show ?case by auto
qed simp

lemma compaction_pairs:
  assumes ok: "tier_ok t"
  shows "shared_of (compaction t) = map (\<lambda>k. (k, grep t k)) (shared_keys t)"
    and "overlay_of (compaction t) s = map (\<lambda>k. (k, orep t s k)) (all_overlay_keys t s)"
proof -
  note k = keys_spec [OF ok]
  show "shared_of (compaction t) = map (\<lambda>k. (k, grep t k)) (shared_keys t)"
    using k(2) by (simp add: compaction_def shared_of_shared_ev shared_of_scope_ev)
  have "all_overlay_keys t s = []" if "s \<notin> set (scope_ids t)"
    using that moved_scope [OF ok, of s] k(4) [of s] by (metis (mono_tags) Collect_empty_eq set_empty)
  moreover have "overlay_of (compaction t) s =
      (if s \<in> set (scope_ids t) then map (\<lambda>k. (k, orep t s k)) (all_overlay_keys t s) else [])"
  proof -
    have "distinct (scope_ids t)" by (simp add: scope_ids_def)
    moreover have "k \<in> set (all_overlay_keys t s) \<Longrightarrow> orep t s k \<noteq> k" for s k using k(4) by auto
    ultimately show ?thesis
      using filter_scope [of "scope_ids t" s "\<lambda>s k. (k, orep t s k)" "all_overlay_keys t"]
      by (simp add: overlay_of_def compaction_def group_pairs_shared_ev group_pairs_scope_ev)
  qed
  ultimately show "overlay_of (compaction t) s = map (\<lambda>k. (k, orep t s k)) (all_overlay_keys t s)"
    by auto
qed

text \<open>Every live root that an overlay class mentions gets a registry entry.\<close>

lemma element_emits:
  assumes r: "rep_fun (orep t s)" and e: "element (orep t s) x" and live: "grep t x = x"
    and keys: "{k. orep t s k \<noteq> k} \<subseteq> set ks"
  shows "RegistryEntry x s \<in> set (concat (map (overlay_ev t s) ks))"
proof (cases "orep t s x = x")
  case False
  with keys have "x \<in> set ks" by auto
  moreover have "RegistryEntry x s \<in> set (overlay_ev t s x)"
    using False live by (simp add: overlay_ev_def)
  ultimately show ?thesis by auto
next
  case True
  with e obtain y where y: "y \<noteq> x" "orep t s y = x" by (auto simp: element_def)
  with keys have "y \<in> set ks" by auto
  moreover have "RegistryEntry x s \<in> set (overlay_ev t s y)"
    using y live by (auto simp: overlay_ev_def)
  ultimately show ?thesis by auto
qed

lemma compaction_registers:
  assumes ok: "tier_ok t" and e: "element (orep t s) x" and live: "grep t x = x"
  shows "RegistryEntry x s \<in> set (compaction t)"
proof -
  from e obtain k where "orep t s k \<noteq> k"
    unfolding element_def by metis
  then have "s \<in> set (scope_ids t)" by (rule moved_scope [OF ok])
  moreover have "RegistryEntry x s \<in> set (scope_ev t (all_overlay_keys t) s)"
    using element_emits [OF rep_funs(2) [OF ok] e live, of "all_overlay_keys t s"] keys_spec(4) [OF ok]
    by (simp add: scope_ev_def)
  ultimately show ?thesis by (auto simp: compaction_def)
qed

section \<open>Folding leaves every answer as it was\<close>

text \<open>A base that stores the representatives of a tier takes its place, with an empty memtable.\<close>

lemma rebase:
  assumes rep: "represents t G S"
    and shared: "shared_parent b = parent_of (grep t)"
    and over: "\<And>s. overlay_parent b s = parent_of (orep t s)"
    and reg: "\<And>s x. element (orep t s) x \<Longrightarrow> grep t x = x \<Longrightarrow> s \<in> set (scopes_for_root b x)"
    and keys: "lists_keys (for_each_shared_pair b) (shared_parent b)"
      "\<And>s. lists_keys (for_each_overlay_pair b s) (overlay_parent b s)"
    and scopes: "\<And>s k. orep t s k \<noteq> k \<Longrightarrow> s \<in> set (base_scopes b)"
  shows "represents \<lparr>t_base = Some b, mem = memtable_new i\<rparr> G S"
proof -
  have ok: "tier_ok t" and tr: "tracks (grep t) (orep t) (regs t) G S"
    using rep by (simp_all add: represents_def)
  note P = resolved_parent_of [OF rep_funs(1) [OF ok]] resolved_parent_of [OF rep_funs(2) [OF ok]]
  have none: "shared_parent b x = None \<longleftrightarrow> grep t x = x" for x
    by (simp add: shared parent_of_def)
  have "s \<in> set (base_scopes b)" if "overlay_parent b s \<noteq> Map.empty" for s
    using that scopes by (auto simp: over parent_of_def fun_eq_iff split: if_splits)
  then have wf: "base_wf b"
    unfolding base_wf_def using P reg none keys by (simp add: shared over)
  let ?t = "\<lparr>t_base = Some b, mem = memtable_new i\<rparr>"
  have "grep ?t = grep t" "orep ?t = orep t" "regs ?t = (\<lambda>x. set (scopes_for_root b x))"
    by (simp_all add: fresh_reps fun_eq_iff shared over P)
  moreover have "tracks (grep t) (orep t) (\<lambda>x. set (scopes_for_root b x)) G S"
    using tr reg unfolding tracks_def by blast
  ultimately show ?thesis using tier_ok_fresh [of "Some b" i] wf by (simp add: represents_def)
qed

text \<open>
  What a fold asks of the builder. \<open>encodes b ev\<close>: the base answers as the stream says.
  \<open>stacks b prev ev\<close>: it answers as the previous base refined by the stream.
\<close>

definition encodes :: "routing_base \<Rightarrow> stream \<Rightarrow> bool" where
  "encodes b ev \<longleftrightarrow> shared_parent b = map_of (shared_of ev) \<and>
     (\<forall>s. overlay_parent b s = map_of (overlay_of ev s)) \<and>
     (\<forall>x s. s \<in> set (scopes_for_root b x) \<longleftrightarrow> RegistryEntry x s \<in> set ev) \<and>
     lists_keys (for_each_shared_pair b) (shared_parent b) \<and>
     (\<forall>s. lists_keys (for_each_overlay_pair b s) (overlay_parent b s)) \<and>
     (\<forall>s. overlay_of ev s \<noteq> [] \<longrightarrow> s \<in> set (base_scopes b))"

lemma fold_represents:
  assumes rep: "represents t G S" and enc: "encodes b (compaction t)"
  shows "represents \<lparr>t_base = Some b, mem = memtable_new i\<rparr> G S"
proof (rule rebase [OF rep])
  have ok: "tier_ok t" using rep by (simp add: represents_def)
  note p = compaction_pairs [OF ok] and k = keys_spec [OF ok]
  show "shared_parent b = parent_of (grep t)"
    using enc map_of_parent_of [OF k(2)] by (simp add: encodes_def p)
  show "overlay_parent b s = parent_of (orep t s)" for s
    using enc map_of_parent_of [OF k(4)] by (simp add: encodes_def p)
  show "s \<in> set (scopes_for_root b x)" if "element (orep t s) x" and "grep t x = x" for s x
    using enc compaction_registers [OF ok that] by (simp add: encodes_def)
  show "lists_keys (for_each_shared_pair b) (shared_parent b)"
    and "lists_keys (for_each_overlay_pair b s) (overlay_parent b s)" for s
    using enc unfolding encodes_def by blast+
  show "s \<in> set (base_scopes b)" if "orep t s x \<noteq> x" for s x
  proof -
    have "all_overlay_keys t s \<noteq> []" using that k(4) [of s] by auto
    with enc show ?thesis by (auto simp: encodes_def p)
  qed
qed

lemma represents_folded:
  "represents t G S \<Longrightarrow> compact_locked t = Some (ev, t') \<Longrightarrow>
     represents t' G S \<and> ev = compaction t"
  using compact_locked_spec [of t] represents_same [of t G S] by (auto simp: represents_def)

text \<open>
  C4: a full fold is invisible to queries. Whatever base the builder makes of the compaction
  stream, as long as it answers as the stream says, the folded forest, whose memtable is empty,
  represents the same graph as before, so every query in every scope keeps its answer. A builder
  that fails leaves the forest representing the same graph too.
\<close>

theorem compact_and_fold_keeps_answers:
  assumes f: "forest_represents f es"
    and build: "\<And>b out. build (compaction (tier_of f)) = Inr (b, out) \<Longrightarrow>
      encodes b (compaction (tier_of f))"
  shows "\<exists>r f'. compact_and_fold build f = Some (r, f') \<and> forest_represents f' es \<and>
    (\<forall>out. r = Inr out \<longrightarrow> memtable_links f' = 0 \<and> folds f' = folds f + 1) \<and>
    (\<forall>s x. \<exists>f''. scope_root f' s x = Some (lowest (visible_edges es s) x, f''))"
proof -
  have rep: "represents (tier_of f) (global_edges es) (scope_edges es)"
    using f by (simp add: forest_represents_def)
  then have ok: "tier_ok (tier_of f)" by (simp add: represents_def)
  obtain t' where run: "compact_locked (tier_of f) = Some (compaction (tier_of f), t')"
    and same: "tier_same (tier_of f) t'" using compact_locked_spec [OF ok] by blast
  have "\<exists>r f'. compact_and_fold build f = Some (r, f') \<and> forest_represents f' es \<and>
    (\<forall>out. r = Inr out \<longrightarrow> memtable_links f' = 0 \<and> folds f' = folds f + 1)"
  proof (cases "build (compaction (tier_of f))")
    case (Inl e)
    then show ?thesis
      using represents_same [OF rep same] f same
      by (simp add: compact_and_fold_def run forest_represents_def) (simp add: tier_same_def)
  next
    case (Inr bo)
    obtain b out where bo: "bo = (b, out)" by (cases bo)
    have "encodes b (compaction (tier_of f))" using build Inr bo by blast
    from fold_represents [OF rep this] Inr bo show ?thesis
      by (simp add: compact_and_fold_def run forest_represents_def memtable_links_def memtable_new_def
          len_links_card Let_def)
  qed
  then show ?thesis using scope_root_spec by blast
qed

text \<open>An in-heap base that answers straight from a stream: the simplest builder.\<close>

definition stream_base :: "stream \<Rightarrow> routing_base" where
  "stream_base ev =
     \<lparr>shared_parent = map_of (shared_of ev),
      overlay_parent = (\<lambda>s. map_of (overlay_of ev s)),
      scopes_for_root = (\<lambda>x. concat (map (\<lambda>e. case e of RegistryEntry r s \<Rightarrow> if r = x then [s] else [] | _ \<Rightarrow> []) ev)),
      base_scopes = sort_dedup (map fst (group_pairs None ev)),
      for_each_shared_pair = shared_of ev,
      for_each_overlay_pair = overlay_of ev,
      has_member_index = False,
      shared_children = (\<lambda>_ _ out. out),
      overlay_children = (\<lambda>_ _ _ out. out),
      base_stats_of = default_stats\<rparr>"

lemma lists_keys_map_of: "sorted_wrt (<) (map fst ps) \<Longrightarrow> lists_keys ps (map_of ps)"
  by (simp add: lists_keys_def dom_map_of_conv_image_fst)

lemma stream_base_encodes:
  assumes ok: "tier_ok t"
  shows "encodes (stream_base (compaction t)) (compaction t)"
proof -
  have "sorted_wrt (<) (map fst (shared_of (compaction t)))"
    "sorted_wrt (<) (map fst (overlay_of (compaction t) s))" for s
    using keys_spec(1,3) [OF ok] by (simp_all add: compaction_pairs [OF ok] comp_def)
  moreover have "(\<exists>e \<in> set ev. s \<in> set (case e of RegistryEntry r s \<Rightarrow> if r = x then [s] else [] | _ \<Rightarrow> [])) \<longleftrightarrow>
      RegistryEntry x s \<in> set ev" for ev x s
    by (force split: sink_event.splits if_splits)
  moreover have "overlay_of ev s \<noteq> [] \<Longrightarrow> s \<in> fst ` set (group_pairs None ev)" for ev s
    by (force simp: overlay_of_def filter_empty_conv)
  ultimately show ?thesis by (simp add: encodes_def stream_base_def lists_keys_map_of)
qed

theorem compact_and_fold_keeps_answers_witness:
  "\<exists>f r f'. apply_events forest_new
       [\<lparr>src = 9, dst = 5, ev_visibility = Global, event_time_ms = 0, props = None\<rparr>,
        \<lparr>src = 5, dst = 3, ev_visibility = Scoped [7], event_time_ms = 1, props = None\<rparr>] = Some f \<and>
     compact_and_fold (\<lambda>ev. Inr (stream_base ev, ()) :: unit + routing_base \<times> unit) f = Some (r, f')"
proof -
  let ?es = "[\<lparr>src = 9, dst = 5, ev_visibility = Global, event_time_ms = 0, props = None\<rparr>,
        \<lparr>src = 5, dst = 3, ev_visibility = Scoped [7], event_time_ms = 1, props = None\<rparr>]"
  obtain f where f: "apply_events forest_new ?es = Some f" "forest_represents f ?es"
    using apply_events_spec [OF forest_new_represents(1), of ?es] by auto
  then have "tier_ok (tier_of f)" by (simp add: forest_represents_def represents_def)
  then have "encodes (stream_base (compaction (tier_of f))) (compaction (tier_of f))"
    by (rule stream_base_encodes)
  with compact_and_fold_keeps_answers [OF f(2),
      of "\<lambda>ev. Inr (stream_base ev, ()) :: unit + routing_base \<times> unit"] f(1)
  show ?thesis by auto
qed

section \<open>Folding the memtable out as a delta layer\<close>

definition memtable_delta :: "tier \<Rightarrow> stream" where
  "memtable_delta t = concat (map (shared_ev t) (dsu_keys (global (mem t)))) @
     concat (map (scope_ev t (overlay_keys t)) (sorted_list_of_fset (fmdom (overlays (mem t)))))"

lemma memtable_scopes_spec:
  assumes ok: "tier_ok t" and "tier_same t t'"
  obtains t'' where "memtable_scopes t' ss = Some (concat (map (scope_ev t (overlay_keys t)) ss), t'')"
    and "tier_same t t''"
  using assms(2)
proof (induction ss arbitrary: t' thesis)
  case (Cons s ss)
  obtain t1 where 1: "emit_all (emit_overlay s) t' (overlay_keys t s) =
      Some (concat (map (overlay_ev t s) (overlay_keys t s)), t1)" "tier_same t t1"
    using emit_all_spec [OF emits_overlay [OF ok] Cons.prems(2)] by blast
  obtain t2 where "memtable_scopes t1 ss = Some (concat (map (scope_ev t (overlay_keys t)) ss), t2)"
    "tier_same t t2"
    using Cons.IH [OF _ 1(2)] by blast
  with 1 overlay_keys_same [OF Cons.prems(2)] Cons.prems(1) show ?case
    by (simp add: scope_ev_def [of t _ s])
qed simp

lemma stream_memtable_spec:
  assumes ok: "tier_ok t"
  obtains t' where "stream_memtable t = Some (memtable_delta t, t')" and "tier_same t t'"
proof -
  obtain t1 where 1: "emit_all emit_shared t (dsu_keys (global (mem t))) =
      Some (concat (map (shared_ev t) (dsu_keys (global (mem t)))), t1)" "tier_same t t1"
    using emit_all_spec [OF emits_shared [OF ok] tier_same_refl [OF ok]] by blast
  obtain t2 where 2: "memtable_scopes t1 (sorted_list_of_fset (fmdom (overlays (mem t)))) =
      Some (concat (map (scope_ev t (overlay_keys t)) (sorted_list_of_fset (fmdom (overlays (mem t))))), t2)"
    "tier_same t t2"
    using memtable_scopes_spec [OF ok 1(2)] by blast
  have "sort (sorted_list_of_fset (fmdom (overlays (mem t)))) = sorted_list_of_fset (fmdom (overlays (mem t)))"
    using strict_sorted_imp_sorted [OF sorted_keys(3), of "overlays (mem t)"] by (simp add: sorted_sort_id)
  moreover have "fmdom (overlays (mem t1)) = fmdom (overlays (mem t))" using 1(2) by (simp add: tier_same_def)
  ultimately show thesis
    using 1 2 that [of t2] by (simp add: stream_memtable_def memtable_delta_def sort_keys)
qed

lemma delta_pairs:
  assumes ok: "tier_ok t"
  shows "shared_of (memtable_delta t) = map (\<lambda>k. (k, grep t k)) (dsu_keys (global (mem t)))"
    and "overlay_of (memtable_delta t) s = map (\<lambda>k. (k, orep t s k)) (overlay_keys t s)"
proof -
  have moved: "k \<in> set (dsu_keys (global (mem t))) \<Longrightarrow> grep t k \<noteq> k"
    "k \<in> set (overlay_keys t s) \<Longrightarrow> orep t s k \<noteq> k" for k s
    using moved_iff [OF ok] by (auto simp: dsu_keys_spec(2) overlay_keys_spec(2))
  show "shared_of (memtable_delta t) = map (\<lambda>k. (k, grep t k)) (dsu_keys (global (mem t)))"
    using moved(1) by (simp add: memtable_delta_def shared_of_shared_ev shared_of_scope_ev)
  let ?ss = "sorted_list_of_fset (fmdom (overlays (mem t)))"
  have "overlay_of (memtable_delta t) s =
      (if s \<in> set ?ss then map (\<lambda>k. (k, orep t s k)) (overlay_keys t s) else [])"
    using filter_scope [OF sorted_keys(1), of s "\<lambda>s k. (k, orep t s k)" "overlay_keys t" "overlays (mem t)"] moved(2)
    by (simp add: overlay_of_def memtable_delta_def group_pairs_shared_ev group_pairs_scope_ev)
  moreover have "s \<notin> set ?ss \<Longrightarrow> overlay_keys t s = []"
    by (simp add: overlay_keys_def fmdom_notD)
  ultimately show "overlay_of (memtable_delta t) s = map (\<lambda>k. (k, orep t s k)) (overlay_keys t s)"
    by auto
qed

lemma layered_compose:
  assumes l: "layered q p" and ks: "set ks = dom p"
  shows "compose_parent q (map_of (map (\<lambda>k. (k, root_of (q ++ p) k)) ks)) = parent_of (root_of (q ++ p))"
proof (rule ext)
  fix x
  let ?y = "case q x of None \<Rightarrow> x | Some b \<Rightarrow> b"
  have q: "q ?y = None"
    using l by (auto simp: layered_def ran_def dom_def split: option.split)
  have y: "root_of (q ++ p) x = root_of p ?y" "root_of (q ++ p) ?y = root_of p ?y"
    using layered_root [OF l] q by (auto split: option.split)
  have m: "map_of (map (\<lambda>k. (k, root_of (q ++ p) k)) ks) ?y =
      (if p ?y = None then None else Some (root_of p ?y))"
    using map_of_reps [of "root_of (q ++ p)" ks ?y] ks y(2) by (auto simp: dom_def)
  have lt: "p ?y = Some z \<Longrightarrow> root_of p ?y < ?y" for z
    using root_of_less [OF layeredD(2) [OF l]] by blast
  have "?y \<le> x" using l by (auto simp: layered_def decreasing_def less_imp_le split: option.split)
  then show "compose_parent q (map_of (map (\<lambda>k. (k, root_of (q ++ p) k)) ks)) x = parent_of (root_of (q ++ p)) x"
    using lt y(1) by (cases "p ?y") (auto simp: compose_parent_def Let_def m parent_of_def root_of_None)
qed

definition stacks :: "routing_base \<Rightarrow> routing_base option \<Rightarrow> stream \<Rightarrow> bool" where
  "stacks b prev ev \<longleftrightarrow>
     shared_parent b =
       compose_parent (case prev of None \<Rightarrow> Map.empty | Some p \<Rightarrow> shared_parent p) (map_of (shared_of ev)) \<and>
     (\<forall>s. overlay_parent b s =
       compose_parent (case prev of None \<Rightarrow> Map.empty | Some p \<Rightarrow> overlay_parent p s) (map_of (overlay_of ev s))) \<and>
     (\<forall>x s. s \<in> set (scopes_for_root b x) \<longleftrightarrow>
        (\<exists>p. prev = Some p \<and> s \<in> set (scopes_for_root p x)) \<or> RegistryEntry x s \<in> set ev) \<and>
     lists_keys (for_each_shared_pair b) (shared_parent b) \<and>
     (\<forall>s. lists_keys (for_each_overlay_pair b s) (overlay_parent b s)) \<and>
     (\<forall>s. overlay_of ev s \<noteq> [] \<or> (\<exists>p. prev = Some p \<and> s \<in> set (base_scopes p)) \<longrightarrow>
        s \<in> set (base_scopes b))"

text \<open>
  The registry of a delta need only name what the memtable touched: a live root that is an
  overlay element without the memtable's help was an element of the base, which names it.
\<close>

lemma delta_registers:
  assumes ok: "tier_ok t" and e: "element (orep t s) x" and live: "grep t x = x"
  shows "RegistryEntry x s \<in> set (memtable_delta t) \<or>
    (\<exists>b. t_base t = Some b \<and> s \<in> set (scopes_for_root b x))"
proof (cases "\<exists>k \<in> dom (mopar t s). k = x \<or> orep t s k = x")
  case True
  then obtain k where k: "k \<in> dom (mopar t s)" "k = x \<or> orep t s k = x" by blast
  then have "orep t s k \<noteq> k" using moved_iff(2) [OF ok] by blast
  then have "RegistryEntry x s \<in> set (overlay_ev t s k)"
    using k(2) live by (auto simp: overlay_ev_def)
  then have "RegistryEntry x s \<in> set (scope_ev t (overlay_keys t) s)"
    using k(1) by (auto simp: scope_ev_def overlay_keys_spec(2))
  moreover have "s |\<in>| fmdom (overlays (mem t))"
    using k(1) by (cases "fmlookup (overlays (mem t)) s") (auto simp: mem_overlay_def intro: fmdomI)
  ultimately show ?thesis by (auto simp: memtable_delta_def)
next
  case False
  let ?q = "bopar t s" and ?p = "mopar t s"
  note l = tier_okD(2) [OF ok, of s]
  have res: "resolved_map ?q" using l by (simp add: layered_def resolved_map_def)
  have px: "?p x = None" using False by auto
  have "element (root_of ?q) x"
  proof (cases "?q x")
    case (Some b)
    then have "?q b = None" "b \<noteq> x"
      using l by (auto simp: layered_def ran_def dom_def decreasing_def)
    then have "root_of ?q b = root_of ?q x" using Some by (simp add: root_of_resolved_map [OF res])
    then show ?thesis using \<open>b \<noteq> x\<close> unfolding element_def by blast
  next
    case None
    from e obtain y where y: "y \<noteq> x" "orep t s y = orep t s x" by (auto simp: element_def)
    have ox: "orep t s x = x"
      using layered_root [OF l, of x] None px by (simp add: orep_def root_of_None)
    define z where "z = (case ?q y of None \<Rightarrow> y | Some b \<Rightarrow> b)"
    have qz: "?q z = None" using l by (auto simp: z_def layered_def ran_def dom_def split: option.split)
    have oz: "orep t s z = x" "root_of ?p z = x"
      using layered_root [OF l, of z] layered_root [OF l, of y] qz y(2) ox
      by (auto simp: orep_def z_def split: option.splits)
    then have "?p z = None" using False by auto
    then have "z = x" using oz(2) by (simp add: root_of_None)
    then have "?q y = Some x" using y(1) by (auto simp: z_def split: option.splits)
    then have "root_of ?q y = root_of ?q x" using None by (simp add: root_of_resolved_map [OF res])
    then show ?thesis using y(1) unfolding element_def by blast
  qed
  moreover have "bpar t x = None" using live moved_iff(1) [OF ok, of x] by (auto simp: domIff)
  ultimately have "\<exists>b. t_base t = Some b \<and> s \<in> set (scopes_for_root b x)"
    using base_wfD(6) [OF tier_okD(5) [OF ok]]
    by (cases "t_base t") (auto simp: bopar_def bpar_def element_def)
  then show ?thesis ..
qed

lemma fold_delta_represents:
  assumes rep: "represents t G S" and st: "stacks b (t_base t) (memtable_delta t)"
  shows "represents \<lparr>t_base = Some b, mem = memtable_new i\<rparr> G S"
proof (rule rebase [OF rep])
  have ok: "tier_ok t" using rep by (simp add: represents_def)
  note p = delta_pairs [OF ok]
  show "shared_parent b = parent_of (grep t)"
    using st layered_compose [OF tier_okD(1) [OF ok] dsu_keys_spec(2)]
    by (simp add: stacks_def p grep_def bpar_def)
  show "overlay_parent b s = parent_of (orep t s)" for s
    using st layered_compose [OF tier_okD(2) [OF ok] overlay_keys_spec(2), of s]
    by (simp add: stacks_def p orep_def bopar_def)
  show "s \<in> set (scopes_for_root b x)" if "element (orep t s) x" and "grep t x = x" for s x
    using st delta_registers [OF ok that] by (auto simp: stacks_def)
  show "lists_keys (for_each_shared_pair b) (shared_parent b)"
    and "lists_keys (for_each_overlay_pair b s) (overlay_parent b s)" for s
    using st unfolding stacks_def by blast+
  show "s \<in> set (base_scopes b)" if "orep t s x \<noteq> x" for s x
  proof -
    from that moved_iff(2) [OF ok] consider "x \<in> dom (mopar t s)" | "x \<in> dom (bopar t s)" by blast
    then have "overlay_of (memtable_delta t) s \<noteq> [] \<or> (\<exists>p. t_base t = Some p \<and> s \<in> set (base_scopes p))"
    proof cases
      case 1
      then show ?thesis using overlay_keys_spec(2) [of t s] by (auto simp: p)
    next
      case 2
      then show ?thesis
        using base_wfD(5) [OF tier_okD(5) [OF ok]] by (auto simp: bopar_def split: option.splits)
    qed
    with st show ?thesis unfolding stacks_def by blast
  qed
qed

text \<open>
  The cheap fold is invisible too. Streaming only what the memtable holds and stacking it on
  the previous base leaves every answer in every scope as it was, although neither the base's
  pairs nor its registry are rewritten.
\<close>

theorem fold_delta_keeps_answers:
  assumes f: "forest_represents f es"
    and build: "\<And>b out. build (memtable_delta (tier_of f)) (t_base (tier_of f)) = Inr (b, out) \<Longrightarrow>
      stacks b (t_base (tier_of f)) (memtable_delta (tier_of f))"
  shows "\<exists>r f'. fold_delta build f = Some (r, f') \<and> forest_represents f' es \<and>
    (\<forall>out. r = Inr out \<longrightarrow> memtable_links f' = 0 \<and> folds f' = folds f + 1) \<and>
    (\<forall>s x. \<exists>f''. scope_root f' s x = Some (lowest (visible_edges es s) x, f''))"
proof -
  have rep: "represents (tier_of f) (global_edges es) (scope_edges es)"
    using f by (simp add: forest_represents_def)
  then have ok: "tier_ok (tier_of f)" by (simp add: represents_def)
  obtain t' where run: "stream_memtable (tier_of f) = Some (memtable_delta (tier_of f), t')"
    and same: "tier_same (tier_of f) t'" using stream_memtable_spec [OF ok] by blast
  have "\<exists>r f'. fold_delta build f = Some (r, f') \<and> forest_represents f' es \<and>
    (\<forall>out. r = Inr out \<longrightarrow> memtable_links f' = 0 \<and> folds f' = folds f + 1)"
  proof (cases "build (memtable_delta (tier_of f)) (t_base (tier_of f))")
    case (Inl e)
    then show ?thesis
      using represents_same [OF rep same] f same
      by (simp add: fold_delta_def run forest_represents_def) (simp add: tier_same_def)
  next
    case (Inr bo)
    obtain b out where bo: "bo = (b, out)" by (cases bo)
    have "stacks b (t_base (tier_of f)) (memtable_delta (tier_of f))" using build Inr bo by blast
    from fold_delta_represents [OF rep this] Inr bo show ?thesis
      by (simp add: fold_delta_def run forest_represents_def memtable_links_def memtable_new_def
          len_links_card Let_def)
  qed
  then show ?thesis using scope_root_spec by blast
qed

section \<open>Installing an equivalent base\<close>

text \<open>
  A base that resolves identically: the same tables, and a registry that still names every scope
  under the roots of the base.
\<close>

definition equivalent_base :: "routing_base \<Rightarrow> routing_base \<Rightarrow> bool" where
  "equivalent_base b b' \<longleftrightarrow> base_wf b' \<and> shared_parent b' = shared_parent b \<and>
     overlay_parent b' = overlay_parent b \<and>
     (\<forall>x. shared_parent b x = None \<longrightarrow> set (scopes_for_root b x) \<subseteq> set (scopes_for_root b' x))"

lemma swap_base_represents:
  assumes f: "forest_represents f es" and b: "t_base (tier_of f) = Some b" and eq: "equivalent_base b b'"
  shows "forest_represents (swap_base b' f) es"
proof -
  let ?t = "tier_of f" and ?t' = "\<lparr>t_base = Some b', mem = mem (tier_of f)\<rparr>"
  have ok: "tier_ok ?t" and tr: "tracks (grep ?t) (orep ?t) (regs ?t) (global_edges es) (scope_edges es)"
    using f by (simp_all add: forest_represents_def represents_def)
  have par: "bpar ?t' = bpar ?t" "bopar ?t' = bopar ?t"
    using b eq by (auto simp: bpar_def bopar_def equivalent_base_def fun_eq_iff)
  have same: "grep ?t' = grep ?t" "orep ?t' = orep ?t" by (simp_all add: grep_def orep_def par fun_eq_iff)
  have "tier_ok ?t'"
    using ok eq unfolding tier_ok_def par by (simp add: equivalent_base_def)
  moreover have "regs ?t x \<subseteq> regs ?t' x" if "grep ?t x = x" for x
  proof -
    have "shared_parent b x = None" using that moved_iff(1) [OF ok, of x] b by (auto simp: bpar_def domIff)
    with eq b show ?thesis by (auto simp: regs_def equivalent_base_def)
  qed
  ultimately show ?thesis
    using tracks_regs [OF tr] f by (simp add: forest_represents_def represents_def swap_base_def same)
qed

section \<open>Snapshot and hydration\<close>

lemma collect_shared_ev:
  "\<forall>k \<in> set ks. grep t k \<noteq> k \<Longrightarrow> fold collect (concat (map (shared_ev t) ks)) c =
     c\<lparr>c_global := c_global c @ map (\<lambda>k. (k, grep t k)) ks\<rparr>"
  by (induction ks arbitrary: c) (simp_all add: shared_ev_def)

lemma collect_overlay_ev:
  "\<forall>k \<in> set ks. orep t s k \<noteq> k \<Longrightarrow> c_open c = Some (s, ps) \<Longrightarrow>
     fold collect (concat (map (overlay_ev t s) ks)) c =
       c\<lparr>c_open := Some (s, ps @ map (\<lambda>k. (k, orep t s k)) ks)\<rparr>"
proof (induction ks arbitrary: c ps)
  case (Cons k ks)
  then show ?case
    using Cons.IH [of "c\<lparr>c_open := Some (s, ps @ [(k, orep t s k)])\<rparr>" "ps @ [(k, orep t s k)]"]
    by (simp add: overlay_ev_def)
qed simp

lemma collect_scope_ev:
  assumes "\<And>s k. k \<in> set (keys s) \<Longrightarrow> orep t s k \<noteq> k" and "c_open c = None"
  shows "fold collect (concat (map (scope_ev t keys) ss)) c =
    c\<lparr>c_scopes := c_scopes c @
      map (\<lambda>s. (s, map (\<lambda>k. (k, orep t s k)) (keys s))) (filter (\<lambda>s. keys s \<noteq> []) ss)\<rparr>"
  using assms(2)
proof (induction ss arbitrary: c)
  case (Cons s ss)
  let ?ps = "map (\<lambda>k. (k, orep t s k)) (keys s)"
  have "fold collect (scope_ev t keys s) c =
      c\<lparr>c_scopes := (if keys s \<noteq> [] then c_scopes c @ [(s, ?ps)] else c_scopes c), c_open := None\<rparr>"
    using collect_overlay_ev [of "keys s" t s "c\<lparr>c_open := Some (s, [])\<rparr>" "[]"] assms(1)
    by (simp add: scope_ev_def)
  with Cons show ?case by simp
qed simp

lemma snapshot_spec:
  assumes ok: "tier_ok (tier_of f)"
  defines "t \<equiv> tier_of f"
  shows "\<exists>f'. forest_snapshot_of f =
    Some (\<lparr>snap_global = map (\<lambda>k. (k, grep t k)) (shared_keys t),
      snap_scopes = map (\<lambda>s. (s, map (\<lambda>k. (k, orep t s k)) (all_overlay_keys t s)))
        (filter (\<lambda>s. all_overlay_keys t s \<noteq> []) (scope_ids t))\<rparr>, f') \<and> tier_same t (tier_of f')"
proof -
  obtain t' where run: "compact_locked t = Some (compaction t, t')" "tier_same t t'"
    using compact_locked_spec ok unfolding t_def by blast
  have k: "\<forall>k \<in> set (shared_keys t). grep t k \<noteq> k"
    "\<And>s k. k \<in> set (all_overlay_keys t s) \<Longrightarrow> orep t s k \<noteq> k"
    using keys_spec(2,4) [OF ok] unfolding t_def by auto
  show ?thesis
    using run collect_shared_ev [OF k(1), of "\<lparr>c_global = [], c_scopes = [], c_open = None\<rparr>"]
      collect_scope_ev [OF k(2), of "all_overlay_keys t"]
    by (simp add: forest_snapshot_of_def compaction_def Let_def t_def [symmetric])
qed

lemma register_live_spec:
  assumes "dsu_ok (global (mem t))"
  shows "\<exists>t'. register_live t s ms = Some t' \<and> t_base t' = t_base t \<and> overlays (mem t') = overlays (mem t) \<and>
    mem_index (mem t') = mem_index (mem t) \<and> compresses (global (mem t)) (global (mem t')) \<and>
    (\<forall>x. regs t' x = regs t x \<union> (if x \<in> rep (global (mem t)) ` set ms then {s} else {}))"
  using assms
proof (induction ms arbitrary: t)
  case (Cons m ms)
  from dsu_find_spec [OF Cons.prems, of m] obtain d where
    d: "dsu_find (global (mem t)) m = Some (rep (global (mem t)) m, d)" "compresses (global (mem t)) d" by blast
  let ?t1 = "register (rep (global (mem t)) m) [s] (t\<lparr>mem := (mem t)\<lparr>global := d\<rparr>\<rparr>)"
  from Cons.IH [of ?t1] compressesD(1) [OF d(2)] obtain t' where
    t': "register_live ?t1 s ms = Some t'" "t_base t' = t_base t" "overlays (mem t') = overlays (mem t)"
      "mem_index (mem t') = mem_index (mem t)" "compresses d (global (mem t'))"
      "\<And>x. regs t' x = regs ?t1 x \<union> (if x \<in> rep d ` set ms then {s} else {})" by auto
  have "regs (t\<lparr>mem := (mem t)\<lparr>global := d\<rparr>\<rparr>) = regs t" by (simp add: regs_def fun_eq_iff)
  then have "regs t' x = regs t x \<union> (if x \<in> rep (global (mem t)) ` set (m # ms) then {s} else {})" for x
    using t'(6) [of x] compressesD(2) [OF d(2)] by auto
  with d t' show ?case using compresses_trans [OF d(2) t'(5)] by (simp add: Let_def)
qed (simp add: compresses_refl)

lemma mem_overlay_cong:
  "overlays m = overlays m' \<Longrightarrow> mem_index m = mem_index m' \<Longrightarrow> mem_overlay m q = mem_overlay m' q"
  by (simp add: mem_overlay_def split: option.split)

lemma hydrate_scopes_spec:
  assumes "dsu_ok (global (mem (tier_of f)))" and "distinct (map fst L)"
  shows "\<exists>f'. hydrate_scopes f L = Some f' \<and> t_base (tier_of f') = t_base (tier_of f) \<and>
    mem_index (mem (tier_of f')) = mem_index (mem (tier_of f)) \<and> member_index f' = member_index f \<and>
    compresses (global (mem (tier_of f))) (global (mem (tier_of f'))) \<and>
    (\<forall>s. mem_overlay (mem (tier_of f')) s = (case map_of L s of
        None \<Rightarrow> mem_overlay (mem (tier_of f)) s
      | Some ps \<Rightarrow> dsu_hydrate (mem_overlay (mem (tier_of f)) s) ps)) \<and>
    (\<forall>s ps x y. (s, ps) \<in> set L \<longrightarrow> (x, y) \<in> set ps \<longrightarrow>
      s \<in> regs (tier_of f') (rep (global (mem (tier_of f))) x) \<and>
      s \<in> regs (tier_of f') (rep (global (mem (tier_of f))) y)) \<and>
    (\<forall>x. regs (tier_of f) x \<subseteq> regs (tier_of f') x)"
  using assms
proof (induction L arbitrary: f)
  case Nil
  then show ?case by (simp add: compresses_refl)
next
  case (Cons sp L)
  obtain s ps where sp: "sp = (s, ps)" by (cases sp)
  let ?t = "tier_of f" and ?ms = "concat (map (\<lambda>(a, b). [a, b]) ps)"
  let ?t1 = "?t\<lparr>mem := (mem ?t)\<lparr>overlays := fmupd s (dsu_hydrate (mem_overlay (mem ?t) s) ps) (overlays (mem ?t))\<rparr>\<rparr>"
  from register_live_spec [of ?t1 s ?ms] Cons.prems(1) obtain t2 where
    t2: "register_live ?t1 s ?ms = Some t2" "t_base t2 = t_base ?t" "overlays (mem t2) = overlays (mem ?t1)"
      "mem_index (mem t2) = mem_index (mem ?t)" "compresses (global (mem ?t)) (global (mem t2))"
      "\<And>x. regs t2 x = regs ?t1 x \<union> (if x \<in> rep (global (mem ?t)) ` set ?ms then {s} else {})" by auto
  let ?f2 = "f\<lparr>tier_of := t2, scope_links := scope_links f + word_of_nat (length ps)\<rparr>"
  have o2: "mem_overlay (mem t2) q = mem_overlay (mem ?t1) q" for q
    using t2(3,4) by (intro mem_overlay_cong) simp_all
  have r1: "regs ?t1 = regs ?t" by (simp add: regs_def fun_eq_iff)
  have tier2: "tier_of ?f2 = t2" "member_index ?f2 = member_index f" by simp_all
  have "distinct (map fst L)" using Cons.prems(2) by simp
  from Cons.IH [of ?f2, unfolded tier2, OF compressesD(1) [OF t2(5)] this] obtain f' where
    f': "hydrate_scopes ?f2 L = Some f'" "t_base (tier_of f') = t_base t2"
      "mem_index (mem (tier_of f')) = mem_index (mem t2)" "member_index f' = member_index f"
      "compresses (global (mem t2)) (global (mem (tier_of f')))"
      "\<And>q. mem_overlay (mem (tier_of f')) q = (case map_of L q of
        None \<Rightarrow> mem_overlay (mem t2) q | Some ps \<Rightarrow> dsu_hydrate (mem_overlay (mem t2) q) ps)"
      "\<And>q ps x y. (q, ps) \<in> set L \<Longrightarrow> (x, y) \<in> set ps \<Longrightarrow>
        q \<in> regs (tier_of f') (rep (global (mem t2)) x) \<and> q \<in> regs (tier_of f') (rep (global (mem t2)) y)"
      "\<And>x. regs t2 x \<subseteq> regs (tier_of f') x" by blast
  have s: "map_of L s = None" using Cons.prems(2) sp by (simp add: map_of_eq_None_iff)
  have rep2: "rep (global (mem t2)) = rep (global (mem ?t))" by (rule compressesD(2) [OF t2(5)])
  have new: "s \<in> regs (tier_of f') (rep (global (mem ?t)) x) \<and> s \<in> regs (tier_of f') (rep (global (mem ?t)) y)"
    if "(x, y) \<in> set ps" for x y
    using f'(8) [of "rep (global (mem ?t)) x"] f'(8) [of "rep (global (mem ?t)) y"] that
    by (force simp: t2(6))
  have mono: "regs ?t x \<subseteq> regs (tier_of f') x" for x
    using f'(8) [of x] by (auto simp: t2(6) r1)
  have "hydrate_scopes f (sp # L) = Some f'"
    using t2(1) f'(1) by (simp add: sp Let_def)
  moreover have "mem_overlay (mem (tier_of f')) q = (case map_of (sp # L) q of
        None \<Rightarrow> mem_overlay (mem ?t) q | Some ps \<Rightarrow> dsu_hydrate (mem_overlay (mem ?t) q) ps)" for q
    using f'(6) [of q] s o2 [of q] by (auto simp: sp split: option.split)
  moreover have "q \<in> regs (tier_of f') (rep (global (mem ?t)) x) \<and> q \<in> regs (tier_of f') (rep (global (mem ?t)) y)"
    if "(q, ps') \<in> set (sp # L)" "(x, y) \<in> set ps'" for q ps' x y
    using that new f'(7) [of q ps' x y] by (auto simp: sp rep2)
  moreover have "t_base (tier_of f') = t_base ?t" "mem_index (mem (tier_of f')) = mem_index (mem ?t)"
    using f'(2,3) t2(2,4) by simp_all
  ultimately show ?case
    using f'(4) mono compresses_trans [OF t2(5) f'(5)] by blast
qed

lemma resolved_keys:
  assumes r: "rep_fun r" and "sorted_wrt (<) ks" and "set ks = {k. r k \<noteq> k}"
  shows "resolved (map (\<lambda>k. (k, r k)) ks)" and "map_of (map (\<lambda>k. (k, r k)) ks) = parent_of r"
proof -
  show "resolved (map (\<lambda>k. (k, r k)) ks)"
    using assms rep_funD [OF r] strict_sorted_iff [of ks]
    by (auto simp: resolved_def comp_def image_image less_le)
  show "map_of (map (\<lambda>k. (k, r k)) ks) = parent_of r" by (rule map_of_parent_of [OF assms(3)])
qed

lemma hydrate_represents:
  assumes rep: "represents t G S"
    and snap: "snap = \<lparr>snap_global = map (\<lambda>k. (k, grep t k)) (shared_keys t),
      snap_scopes = map (\<lambda>s. (s, map (\<lambda>k. (k, orep t s k)) (all_overlay_keys t s)))
        (filter (\<lambda>s. all_overlay_keys t s \<noteq> []) (scope_ids t))\<rparr>"
    and fresh: "tier_of f = \<lparr>t_base = None, mem = memtable_new i\<rparr>"
  shows "\<exists>f'. forest_hydrate f snap = Some f' \<and> represents (tier_of f') G S \<and> member_index f' = member_index f \<and>
    mem_index (mem (tier_of f')) = i"
proof -
  have ok: "tier_ok t" and tr: "tracks (grep t) (orep t) (regs t) G S"
    using rep by (simp_all add: represents_def)
  note R = rep_funs [OF ok] and K = keys_spec [OF ok]
  note RG = resolved_keys [OF R(1) K(1,2)]
  note RO = resolved_keys [OF R(2) K(3,4)]
  let ?d = "dsu_hydrate (Dsu.tracking_members i) (snap_global snap)"
  let ?f1 = "f\<lparr>tier_of := \<lparr>t_base = None, mem = (memtable_new i)\<lparr>global := ?d\<rparr>\<rparr>\<rparr>"
  have d: "par ?d = parent_of (grep t)" using par_hydrate [OF RG(1), of i] RG(2) by (simp add: snap)
  have repd: "rep ?d = grep t" by (simp only: d resolved_parent_of(2) [OF R(1)])
  have dok: "dsu_ok ?d" using resolved_parent_of(1) [OF R(1)] by (simp add: dsu_ok_def d resolved_map_def)
  let ?L = "snap_scopes snap"
  have dist: "distinct (map fst ?L)" by (simp add: snap comp_def scope_ids_def)
  have mapL: "map_of ?L s = (if all_overlay_keys t s = [] then None
      else Some (map (\<lambda>k. (k, orep t s k)) (all_overlay_keys t s)))" for s
  proof -
    have "s \<in> set (scope_ids t)" if "all_overlay_keys t s \<noteq> []"
      using that K(4) [of s] moved_scope [OF ok, of s] by (metis (mono_tags) empty_Collect_eq set_empty)
    then show ?thesis
      using map_of_reps [of "\<lambda>s. map (\<lambda>k. (k, orep t s k)) (all_overlay_keys t s)"
          "filter (\<lambda>s. all_overlay_keys t s \<noteq> []) (scope_ids t)" s] by (auto simp: snap)
  qed
  have fresh_o: "mem_overlay ((memtable_new i)\<lparr>global := ?d\<rparr>) s = Dsu.tracking_members i" for s
    by (simp add: mem_overlay_def memtable_new_def)
  have tier1: "tier_of ?f1 = \<lparr>t_base = None, mem = (memtable_new i)\<lparr>global := ?d\<rparr>\<rparr>"
    "member_index ?f1 = member_index f" by simp_all
  have fields: "global (mem (tier_of ?f1)) = ?d" "mem_index (mem (tier_of ?f1)) = i"
    "t_base (tier_of ?f1) = None" "mem_overlay (mem (tier_of ?f1)) s = Dsu.tracking_members i" for s
    using fresh_o by (simp_all add: memtable_new_def)
  from hydrate_scopes_spec [of ?f1 ?L, unfolded fields tier1(2) repd, OF dok dist] obtain f' where
    f': "hydrate_scopes ?f1 ?L = Some f'" "t_base (tier_of f') = None"
      "mem_index (mem (tier_of f')) = i" "member_index f' = member_index f"
      "compresses ?d (global (mem (tier_of f')))"
      "\<And>s. mem_overlay (mem (tier_of f')) s = (case map_of ?L s of
        None \<Rightarrow> Dsu.tracking_members i | Some ps \<Rightarrow> dsu_hydrate (Dsu.tracking_members i) ps)"
      "\<And>s ps x y. (s, ps) \<in> set ?L \<Longrightarrow> (x, y) \<in> set ps \<Longrightarrow>
        s \<in> regs (tier_of f') (grep t x) \<and> s \<in> regs (tier_of f') (grep t y)"
    by blast
  let ?t' = "tier_of f'"
  have g: "grep ?t' = grep t"
    using compressesD(2) [OF f'(5)] repd f'(2) by (simp add: grep_def bpar_def)
  have po: "par (mem_overlay (mem ?t') s) = parent_of (orep t s)" for s
  proof (cases "all_overlay_keys t s = []")
    case True
    then have "parent_of (orep t s) = Map.empty" using RO(2) [of s] by simp
    with True show ?thesis by (simp add: f'(6) mapL)
  next
    case False
    then show ?thesis using par_hydrate [OF RO(1) [of s], of i] RO(2) [of s] by (simp add: f'(6) mapL)
  qed
  have o: "orep ?t' = orep t"
    using f'(2) resolved_parent_of(2) [OF R(2)] by (simp add: orep_def bopar_def po fun_eq_iff)
  have idx: "index_ok (mem_overlay (mem ?t') s)" if i for s
    using hydrate_index [OF RO(1) [of s]] index_ok_new that by (simp add: f'(6) mapL)
  have gidx: "index_ok (global (mem ?t'))" if i
    using compresses_index [OF f'(5)] hydrate_index [OF RG(1)] that by (simp add: snap)
  have "tier_ok ?t'"
    using f'(2,3) idx gidx compressesD(1) [OF f'(5)] resolved_parent_of(1) [OF R(2)]
    by (simp add: tier_ok_def bpar_def bopar_def dsu_ok_def po resolved_map_def)
  moreover have "s \<in> regs ?t' x" if e: "element (orep t s) x" and live: "grep t x = x" for s x
  proof -
    from e obtain k where k: "orep t s k \<noteq> k" "k = x \<or> orep t s k = x"
      unfolding element_def by metis
    then have ks: "k \<in> set (all_overlay_keys t s)" using K(4) by auto
    then have "map_of ?L s = Some (map (\<lambda>k. (k, orep t s k)) (all_overlay_keys t s))"
      using mapL [of s] by (auto split: if_splits)
    then have "(s, map (\<lambda>k. (k, orep t s k)) (all_overlay_keys t s)) \<in> set ?L" by (rule map_of_SomeD)
    from f'(7) [OF this, of k "orep t s k"] ks
    have "s \<in> regs ?t' (grep t k) \<and> s \<in> regs ?t' (grep t (orep t s k))" by simp
    with k(2) live show ?thesis by auto
  qed
  then have "tracks (grep ?t') (orep ?t') (regs ?t') G S"
    unfolding g o using tr unfolding tracks_def by blast
  ultimately have "represents ?t' G S" by (simp add: represents_def)
  moreover have "forest_hydrate f snap = Some f'"
    using f'(1) by (simp add: forest_hydrate_def fresh memtable_new_def)
  ultimately show ?thesis using f'(3,4) by blast
qed

text \<open>
  C6: restart in RAM mode. A snapshot of a forest that represents an event list, hydrated into a
  fresh forest (tracking members or not), gives a forest that represents the same events: every
  query has the same answer, and so has every query after any further events.
\<close>

theorem snapshot_hydrate_keeps_answers:
  assumes f: "forest_represents f es"
  shows "\<exists>snap f1 f2 f3. forest_snapshot_of f = Some (snap, f1) \<and>
    forest_hydrate (if idx then forest_tracking_members forest_new else forest_new) snap = Some f2 \<and>
    apply_events f2 es' = Some f3 \<and>
    (\<forall>s x. \<exists>f4. scope_root f3 s x = Some (lowest (visible_edges (es @ es') s) x, f4))"
proof -
  let ?t = "tier_of f"
  have rep: "represents ?t (global_edges es) (scope_edges es)"
    using f by (simp add: forest_represents_def)
  then have ok: "tier_ok ?t" by (simp add: represents_def)
  obtain snap f1 where snap: "forest_snapshot_of f = Some (snap, f1)" and
    "snap = \<lparr>snap_global = map (\<lambda>k. (k, grep ?t k)) (shared_keys ?t),
      snap_scopes = map (\<lambda>s. (s, map (\<lambda>k. (k, orep ?t s k)) (all_overlay_keys ?t s)))
        (filter (\<lambda>s. all_overlay_keys ?t s \<noteq> []) (scope_ids ?t))\<rparr>"
    using snapshot_spec [OF ok] by blast
  from hydrate_represents [OF rep this(2), of "if idx then forest_tracking_members forest_new else forest_new" idx]
  obtain f2 where f2: "forest_hydrate (if idx then forest_tracking_members forest_new else forest_new) snap = Some f2"
    "forest_represents f2 es"
    by (auto simp: forest_represents_def forest_new_def forest_tracking_members_def split: if_splits)
  from apply_events_spec [OF f2(2), of es'] obtain f3 where
    f3: "apply_events f2 es' = Some f3" "forest_represents f3 (es @ es')" by blast
  with snap f2(1) show ?thesis using scope_root_spec [OF f3(2)] by blast
qed

theorem snapshot_hydrate_keeps_answers_witness:
  "\<exists>snap f1 f2 f3. forest_snapshot_of forest_new = Some (snap, f1) \<and>
    forest_hydrate (forest_tracking_members forest_new) snap = Some f2 \<and>
    apply_events f2 [\<lparr>src = 9, dst = 5, ev_visibility = Scoped [7], event_time_ms = 0, props = None\<rparr>] = Some f3"
  using snapshot_hydrate_keeps_answers [OF forest_new_represents(1), of True
      "[\<lparr>src = 9, dst = 5, ev_visibility = Scoped [7], event_time_ms = 0, props = None\<rparr>]"]
  by (simp del: apply_events.simps) blast

end
