(* ===== verification/Pair_Table.thy ===== *)
theory Pair_Table
  imports Byte_Codec Types
begin

text \<open>
  The sorted fixed-stride tables of \<^verbatim>\<open>src/storage/base.rs\<close>: the sparse index, the pair table of a
  routing tier and the flat registry. A table names a byte range of the mapping; its entries are
  read where they lie. Every read of the mapping returns an option, because an index past its end
  panics.

  The file shows that the searches are right: a lookup in a table with ascending keys is the lookup
  in the list of its pairs, with or without the sparse index, and the children of a parent and the
  scopes of a root are exactly the entries stored under that key, also when its run of entries
  crosses a block of the index.
\<close>

section \<open>The sparse index\<close>

definition PAIR_STRIDE :: nat where "PAIR_STRIDE = 16"
definition REGISTRY_STRIDE :: nat where "REGISTRY_STRIDE = 12"
definition PAGE_BYTES :: nat where "PAGE_BYTES = 4096"

record sparse_index =
  ix_block :: nat
  first_keys :: "node_id list"

text \<open>The indices \<^verbatim>\<open>(0..count).step_by(block)\<close> visits.\<close>

definition step_by :: "nat \<Rightarrow> nat \<Rightarrow> nat list" where
  "step_by count block = map (\<lambda>j. j * block) [0..<(count + block - 1) div block]"

definition sparse_build :: "nat \<Rightarrow> nat \<Rightarrow> (nat \<Rightarrow> node_id option) \<Rightarrow> sparse_index option option" where
  "sparse_build count stride key =
     (let block = PAGE_BYTES div stride in
      if count \<le> block then Some None
      else map_option (\<lambda>ks. Some \<lparr>ix_block = block, first_keys = ks\<rparr>)
             (those (map key (step_by count block))))"

text \<open>\<^verbatim>\<open>partition_point\<close>: how many leading elements satisfy the predicate.\<close>

definition partition_point :: "('a \<Rightarrow> bool) \<Rightarrow> 'a list \<Rightarrow> nat" where
  "partition_point p xs = length (takeWhile p xs)"

definition narrow_exact :: "sparse_index \<Rightarrow> nat \<Rightarrow> node_id \<Rightarrow> nat \<times> nat" where
  "narrow_exact ix count key =
     (let after = partition_point (\<lambda>k. k \<le> key) (first_keys ix) in
      if after = 0 then (0, 0)
      else let b = after - 1 in (b * ix_block ix, min ((b + 1) * ix_block ix) count))"

definition narrow_lower_bound :: "sparse_index \<Rightarrow> nat \<Rightarrow> node_id \<Rightarrow> nat \<times> nat" where
  "narrow_lower_bound ix count key =
     (let b = partition_point (\<lambda>k. k < key) (first_keys ix); lo = b - 1 in
      (lo * ix_block ix, min ((b + 1) * ix_block ix) count))"

section \<open>The pair table\<close>

record pair_table =
  pt_start :: nat
  pt_count :: nat
  pt_index :: "sparse_index option"

text \<open>
  The length check multiplies the stored count at the width of the machine word, as a release
  build does.
\<close>

definition pair_table_parse :: "bytes \<Rightarrow> nat \<Rightarrow> nat \<Rightarrow> pair_table result" where
  "pair_table_parse data a b =
     and_then (ok_or Panic (slice data a b)) (\<lambda>payload.
     ensure (8 \<le> length payload) Truncated (
     let count = u64_from_le_bytes (take 8 payload) in
     ensure (length payload = unat (8 + count * 16)) LengthMismatch (
     Inr \<lparr>pt_start = a + 8, pt_count = unat count, pt_index = None\<rparr>)))"

text \<open>
  Entries are addressed with natural numbers. For an entry inside the mapping the sum does not wrap
  around, and one past it panics; a count that lets an index reach \<open>2 ^ 60\<close> is the overflow of the
  length check, shown below.
\<close>

definition key_at :: "pair_table \<Rightarrow> bytes \<Rightarrow> nat \<Rightarrow> node_id option" where
  "key_at t data i = u64_at data (pt_start t + i * PAIR_STRIDE)"

definition value_at :: "pair_table \<Rightarrow> bytes \<Rightarrow> nat \<Rightarrow> node_id option" where
  "value_at t data i = u64_at data (pt_start t + i * PAIR_STRIDE + 8)"

function bsearch :: "(nat \<Rightarrow> node_id option) \<Rightarrow> (nat \<Rightarrow> 'v option) \<Rightarrow> node_id \<Rightarrow> nat \<Rightarrow> nat \<Rightarrow> 'v option option"
where
  "bsearch key value node lo hi =
     (if lo < hi then
        let mid = lo + (hi - lo) div 2 in
        do { k \<leftarrow> key mid;
             if k = node then map_option Some (value mid)
             else if k < node then bsearch key value node (mid + 1) hi
             else bsearch key value node lo mid }
      else Some None)"
  by pat_completeness auto
termination by (relation "measure (\<lambda>(key, value, node, lo, hi). hi - lo)") auto

function lower_bound_loop :: "(nat \<Rightarrow> node_id option) \<Rightarrow> node_id \<Rightarrow> nat \<Rightarrow> nat \<Rightarrow> nat option" where
  "lower_bound_loop key node lo hi =
     (if lo < hi then
        let mid = lo + (hi - lo) div 2 in
        do { k \<leftarrow> key mid;
             if k < node then lower_bound_loop key node (mid + 1) hi
             else lower_bound_loop key node lo mid }
      else Some lo)"
  by pat_completeness auto
termination by (relation "measure (\<lambda>(key, node, lo, hi). hi - lo)") auto

declare bsearch.simps [simp del] lower_bound_loop.simps [simp del]

definition table_lookup :: "pair_table \<Rightarrow> bytes \<Rightarrow> node_id \<Rightarrow> node_id option option" where
  "table_lookup t data node =
     (let (lo, hi) = (case pt_index t of
            Some ix \<Rightarrow> narrow_exact ix (pt_count t) node
          | None \<Rightarrow> (0, pt_count t))
      in bsearch (key_at t data) (value_at t data) node lo hi)"

definition lower_bound :: "pair_table \<Rightarrow> bytes \<Rightarrow> node_id \<Rightarrow> nat option" where
  "lower_bound t data node = lower_bound_loop (key_at t data) node 0 (pt_count t)"

text \<open>The scan forward from the lower bound, and its variant without a limit.\<close>

function values_loop :: "(nat \<Rightarrow> node_id option) \<Rightarrow> (nat \<Rightarrow> 'v option) \<Rightarrow> nat \<Rightarrow> node_id \<Rightarrow> nat \<Rightarrow>
    nat \<Rightarrow> nat \<Rightarrow> 'v list \<Rightarrow> 'v list option" where
  "values_loop key value count k limit i taken out =
     (if i < count \<and> taken < limit then
        do { x \<leftarrow> key i;
             if x = k then
               do { v \<leftarrow> value i; values_loop key value count k limit (i + 1) (taken + 1) (out @ [v]) }
             else Some out }
      else Some out)"
  by pat_completeness auto
termination by (relation "measure (\<lambda>(key, value, count, k, limit, i, taken, out). count - i)") auto

declare values_loop.simps [simp del]

definition values_for :: "pair_table \<Rightarrow> bytes \<Rightarrow> node_id \<Rightarrow> nat \<Rightarrow> node_id list \<Rightarrow> node_id list option" where
  "values_for t data k limit out =
     (if limit = 0 then Some out
      else do { i \<leftarrow> lower_bound t data k;
                values_loop (key_at t data) (value_at t data) (pt_count t) k limit i 0 out })"

definition pair_at :: "pair_table \<Rightarrow> bytes \<Rightarrow> nat \<Rightarrow> (node_id \<times> node_id) option" where
  "pair_at t data i = do { k \<leftarrow> key_at t data i; v \<leftarrow> value_at t data i; Some (k, v) }"

definition table_for_each :: "pair_table \<Rightarrow> bytes \<Rightarrow> (node_id \<times> node_id) list option" where
  "table_for_each t data = those (map (pair_at t data) [0..<pt_count t])"

section \<open>The flat registry\<close>

record flat_registry =
  fr_start :: nat
  fr_count :: nat
  fr_index :: "sparse_index option"

definition root_at :: "flat_registry \<Rightarrow> bytes \<Rightarrow> nat \<Rightarrow> node_id option" where
  "root_at t data i = u64_at data (fr_start t + i * REGISTRY_STRIDE)"

definition scope_at :: "flat_registry \<Rightarrow> bytes \<Rightarrow> nat \<Rightarrow> scope_id option" where
  "scope_at t data i = u32_at data (fr_start t + i * REGISTRY_STRIDE + 8)"

definition flat_registry_parse :: "bytes \<Rightarrow> nat \<Rightarrow> nat \<Rightarrow> flat_registry result" where
  "flat_registry_parse data a b =
     and_then (ok_or Panic (slice data a b)) (\<lambda>payload.
     ensure (8 \<le> length payload) Truncated (
     let count = u64_from_le_bytes (take 8 payload) in
     ensure (length payload = unat (8 + count * 12)) LengthMismatch (
     let t = \<lparr>fr_start = a + 8, fr_count = unat count, fr_index = None\<rparr> in
     and_then (ok_or Panic (sparse_build (unat count) REGISTRY_STRIDE (root_at t data))) (\<lambda>ix.
     Inr (t\<lparr>fr_index := ix\<rparr>)))))"

definition flat_iter :: "flat_registry \<Rightarrow> bytes \<Rightarrow> (node_id \<times> scope_id) list option" where
  "flat_iter t data =
     those (map (\<lambda>i. do { r \<leftarrow> root_at t data i; s \<leftarrow> scope_at t data i; Some (r, s) }) [0..<fr_count t])"

function scopes_loop :: "flat_registry \<Rightarrow> bytes \<Rightarrow> node_id \<Rightarrow> nat \<Rightarrow> scope_id list \<Rightarrow> scope_id list option" where
  "scopes_loop t data root i out =
     (if i < fr_count t then
        do { x \<leftarrow> root_at t data i;
             if x = root then do { s \<leftarrow> scope_at t data i; scopes_loop t data root (i + 1) (out @ [s]) }
             else Some out }
      else Some out)"
  by pat_completeness auto
termination by (relation "measure (\<lambda>(t, data, root, i, out). fr_count t - i)") auto

declare scopes_loop.simps [simp del]

definition flat_scopes_for :: "flat_registry \<Rightarrow> bytes \<Rightarrow> node_id \<Rightarrow> scope_id list option" where
  "flat_scopes_for t data root =
     (let (lo, hi) = (case fr_index t of
            Some ix \<Rightarrow> narrow_lower_bound ix (fr_count t) root
          | None \<Rightarrow> (0, fr_count t))
      in do { i \<leftarrow> lower_bound_loop (root_at t data) root lo hi; scopes_loop t data root i [] })"

section \<open>Searching a sorted list\<close>

text \<open>A table that reads as the list \<open>ps\<close>.\<close>

definition reads_as :: "(nat \<Rightarrow> 'k option) \<Rightarrow> (nat \<Rightarrow> 'v option) \<Rightarrow> nat \<Rightarrow> ('k \<times> 'v) list \<Rightarrow> bool" where
  "reads_as key value n ps \<longleftrightarrow>
     length ps = n \<and> (\<forall>i<n. key i = Some (fst (ps ! i)) \<and> value i = Some (snd (ps ! i)))"

lemma reads_asD:
  "reads_as key value n ps \<Longrightarrow> length ps = n"
  "reads_as key value n ps \<Longrightarrow> i < n \<Longrightarrow> key i = Some (fst (ps ! i))"
  "reads_as key value n ps \<Longrightarrow> i < n \<Longrightarrow> value i = Some (snd (ps ! i))"
  by (simp_all add: reads_as_def)

lemma partition_point_iff:
  assumes "\<And>i j. i \<le> j \<Longrightarrow> j < length xs \<Longrightarrow> P (xs ! j) \<Longrightarrow> P (xs ! i)" and "i < length xs"
  shows "P (xs ! i) \<longleftrightarrow> i < partition_point P xs"
proof
  assume i: "P (xs ! i)"
  show "i < partition_point P xs"
  proof (rule ccontr)
    assume "\<not> i < partition_point P xs"
    then have le: "partition_point P xs \<le> i" by simp
    with assms(2) have "partition_point P xs < length xs" by simp
    then have "\<not> P (xs ! partition_point P xs)"
      by (simp add: partition_point_def nth_length_takeWhile)
    with assms(1) [OF le assms(2) i] show False by simp
  qed
next
  assume "i < partition_point P xs"
  then show "P (xs ! i)"
    using set_takeWhileD takeWhile_nth unfolding partition_point_def by (metis nth_mem)
qed

lemma partition_point_le: "partition_point P xs \<le> length xs"
  by (simp add: partition_point_def length_takeWhile_le)

lemma below_iff:
  fixes ks :: "'a::linorder list"
  assumes "sorted ks" and "i < length ks"
  shows "ks ! i < k \<longleftrightarrow> i < partition_point (\<lambda>x. x < k) ks"
  using assms by (intro partition_point_iff) (auto dest: sorted_nth_mono intro: le_less_trans)

lemma upto_iff:
  fixes ks :: "'a::linorder list"
  assumes "sorted ks" and "i < length ks"
  shows "ks ! i \<le> k \<longleftrightarrow> i < partition_point (\<lambda>x. x \<le> k) ks"
  using assms by (intro partition_point_iff) (auto dest: sorted_nth_mono intro: order_trans)

lemma lower_bound_loop_spec:
  assumes "sorted ks" and "\<And>i. i < length ks \<Longrightarrow> key i = Some (ks ! i)"
    and "lo \<le> partition_point (\<lambda>x. x < k) ks" and "partition_point (\<lambda>x. x < k) ks \<le> hi" and "hi \<le> length ks"
  shows "lower_bound_loop key k lo hi = Some (partition_point (\<lambda>x. x < k) ks)"
  using assms(3-)
proof (induction "hi - lo" arbitrary: lo hi rule: less_induct)
  case less
  let ?L = "partition_point (\<lambda>x. x < k) ks"
  show ?case
  proof (cases "lo < hi")
    case True
    let ?mid = "lo + (hi - lo) div 2"
    have mid: "?mid < hi" "lo \<le> ?mid" using True by auto
    then have key: "key ?mid = Some (ks ! ?mid)" using assms(2) less.prems by simp
    show ?thesis
    proof (cases "ks ! ?mid < k")
      case lt: True
      then have "?mid < ?L" using below_iff [OF assms(1), of ?mid k] mid less.prems by simp
      then have "lower_bound_loop key k (?mid + 1) hi = Some ?L"
        using less.hyps [of hi "?mid + 1"] less.prems mid by simp
      then show ?thesis using True key lt by (simp add: lower_bound_loop.simps [of _ _ lo] Let_def)
    next
      case ge: False
      then have "?L \<le> ?mid" using below_iff [OF assms(1), of ?mid k] mid less.prems by simp
      then have "lower_bound_loop key k lo ?mid = Some ?L"
        using less.hyps [of ?mid lo] less.prems mid by simp
      then show ?thesis using True key ge by (simp add: lower_bound_loop.simps [of _ _ lo] Let_def)
    qed
  next
    case False
    then show ?thesis using less.prems by (simp add: lower_bound_loop.simps [of _ _ lo])
  qed
qed

lemma map_of_nth_sorted:
  fixes ps :: "('a::linorder \<times> 'b) list"
  assumes "sorted_wrt (<) (map fst ps)" and "i < length ps"
  shows "map_of ps (fst (ps ! i)) = Some (snd (ps ! i))"
  using assms by (simp add: strict_sorted_iff)

lemma bsearch_spec:
  assumes rd: "reads_as key value (length ps) ps" and sorted: "sorted_wrt (<) (map fst ps)"
    and "hi \<le> length ps" and "\<And>i. i < length ps \<Longrightarrow> fst (ps ! i) = k \<Longrightarrow> lo \<le> i \<and> i < hi"
  shows "bsearch key value k lo hi = Some (map_of ps k)"
  using assms(3-)
proof (induction "hi - lo" arbitrary: lo hi rule: less_induct)
  case less
  have ord: "i < j \<Longrightarrow> j < length ps \<Longrightarrow> fst (ps ! i) < fst (ps ! j)" for i j
    using sorted_wrt_nth_less [OF sorted, of i j] by simp
  show ?case
  proof (cases "lo < hi")
    case True
    let ?mid = "lo + (hi - lo) div 2"
    have mid: "?mid < hi" "lo \<le> ?mid" using True by auto
    then have m: "?mid < length ps" using less.prems by simp
    note rdm = reads_asD(2,3) [OF rd m]
    consider (eq) "fst (ps ! ?mid) = k" | (lt) "fst (ps ! ?mid) < k" | (gt) "k < fst (ps ! ?mid)"
      by (rule linorder_cases)
    then show ?thesis
    proof cases
      case eq
      then have "map_of ps k = Some (snd (ps ! ?mid))" using map_of_nth_sorted [OF sorted m] by simp
      then show ?thesis using True rdm eq by (simp add: bsearch.simps [of _ _ _ lo] Let_def)
    next
      case lt
      have "?mid + 1 \<le> i" if "i < length ps" "fst (ps ! i) = k" for i
        using that lt ord [of i ?mid] m by (metis not_less_eq_eq Suc_eq_plus1 le_less less_asym nat_neq_iff)
      then have "bsearch key value k (?mid + 1) hi = Some (map_of ps k)"
        using less.hyps [of hi "?mid + 1"] less.prems mid by simp
      then show ?thesis using True rdm lt by (auto simp: bsearch.simps [of _ _ _ lo] Let_def)
    next
      case gt
      have "i < ?mid" if "i < length ps" "fst (ps ! i) = k" for i
        using that gt ord [of ?mid i] by (metis less_asym nat_neq_iff)
      then have "bsearch key value k lo ?mid = Some (map_of ps k)"
        using less.hyps [of ?mid lo] less.prems mid by simp
      then show ?thesis using True rdm gt by (auto simp: bsearch.simps [of _ _ _ lo] Let_def)
    qed
  next
    case False
    then have "k \<notin> fst ` set ps" using less.prems(2) by (fastforce simp: in_set_conv_nth)
    then have "map_of ps k = None" by (simp add: map_of_eq_None_iff)
    then show ?thesis using False by (simp add: bsearch.simps [of _ _ _ lo])
  qed
qed

subsection \<open>The run of one key\<close>

lemma run_of_key:
  fixes ps :: "('a::linorder \<times> 'b) list"
  assumes "sorted (map fst ps)"
  shows "takeWhile (\<lambda>p. fst p = k) (drop (partition_point (\<lambda>x. x < k) (map fst ps)) ps) = filter (\<lambda>p. fst p = k) ps"
  using assms
proof (induction ps)
  case (Cons p ps)
  show ?case
  proof (cases "fst p < k")
    case True
    then show ?thesis using Cons by (simp add: partition_point_def)
  next
    case False
    then have "takeWhile (\<lambda>p. fst p = k) ps = filter (\<lambda>p. fst p = k) ps" if "fst p = k"
    proof -
      have "partition_point (\<lambda>x. x < k) (map fst ps) = 0"
        using Cons(2) that by (cases ps) (auto simp: partition_point_def)
      then show ?thesis using Cons by simp
    qed
    moreover have "filter (\<lambda>p. fst p = k) ps = []" if "fst p \<noteq> k"
      using Cons(2) that False by (auto simp: filter_empty_conv)
    ultimately show ?thesis using False by (auto simp: partition_point_def)
  qed
qed (simp add: partition_point_def)

lemma values_loop_spec:
  assumes "reads_as key value (length ps) ps" and "i \<le> length ps"
  shows "values_loop key value (length ps) k limit i taken out =
    Some (out @ take (limit - taken) (map snd (takeWhile (\<lambda>p. fst p = k) (drop i ps))))"
  using assms(2)
proof (induction "length ps - i" arbitrary: i taken out)
  case 0
  then show ?case by (simp add: values_loop.simps)
next
  case (Suc n)
  then have i: "i < length ps" by simp
  then have d: "drop i ps = ps ! i # drop (Suc i) ps" by (simp add: Cons_nth_drop_Suc)
  note rd = reads_asD(2,3) [OF assms(1) i]
  show ?case
  proof (cases "taken < limit \<and> fst (ps ! i) = k")
    case True
    then have "values_loop key value (length ps) k limit (i + 1) (taken + 1) (out @ [snd (ps ! i)]) =
        Some ((out @ [snd (ps ! i)]) @
          take (limit - (taken + 1)) (map snd (takeWhile (\<lambda>p. fst p = k) (drop (i + 1) ps))))"
      using Suc(1) [of "i + 1"] Suc(2) i by simp
    moreover obtain m where "limit - taken = Suc m" "limit - (taken + 1) = m"
      using True by (metis Suc_diff_Suc Suc_eq_plus1)
    ultimately show ?thesis using True i rd d by (simp add: values_loop.simps [of _ _ _ _ _ i])
  next
    case False
    then show ?thesis using i rd d by (auto simp: values_loop.simps [of _ _ _ _ _ i])
  qed
qed

lemma scopes_loop_values:
  "scopes_loop t data root i out =
     values_loop (root_at t data) (scope_at t data) (fr_count t) root (taken + (fr_count t - i)) i taken out"
proof (induction t data root i out arbitrary: taken rule: scopes_loop.induct)
  case (1 t data root i out)
  have "taken + (fr_count t - i) = (taken + 1) + (fr_count t - (i + 1))" if "i < fr_count t"
    using that by simp
  then show ?case using 1 [of _ _ "taken + 1"]
    by (auto simp: scopes_loop.simps [of t data root i] values_loop.simps [of _ _ _ _ _ i] Option.bind_eq_Some_conv
      intro!: Option.bind_cong)
qed

subsection \<open>Narrowing by the sparse index\<close>

definition index_over :: "node_id list \<Rightarrow> sparse_index \<Rightarrow> bool" where
  "index_over ks ix \<longleftrightarrow>
     0 < ix_block ix \<and> first_keys ix = map (\<lambda>i. ks ! i) (step_by (length ks) (ix_block ix))"

lemma step_by_nth: "j < length (step_by n b) \<Longrightarrow> step_by n b ! j = j * b"
  by (simp add: step_by_def)

lemma step_by_length: "0 < b \<Longrightarrow> j < length (step_by n b) \<longleftrightarrow> j * b < n"
proof -
  assume b: "0 < b"
  have "j < (n + b - 1) div b \<longleftrightarrow> Suc j * b \<le> n + b - 1"
    using b less_eq_div_iff_mult_less_eq [of b "Suc j" "n + b - 1"] by (simp add: Suc_le_eq)
  also have "\<dots> \<longleftrightarrow> j * b < n" using b by auto
  finally show ?thesis by (simp add: step_by_def)
qed

lemma first_keys_nth:
  assumes "index_over ks ix" and "j * ix_block ix < length ks"
  shows "j < length (first_keys ix)" and "first_keys ix ! j = ks ! (j * ix_block ix)"
  using assms step_by_length step_by_nth by (auto simp: index_over_def)

lemma first_keys_sorted:
  assumes "index_over ks ix" and "sorted ks"
  shows "sorted (first_keys ix)"
  unfolding sorted_iff_nth_mono_less
proof (intro allI impI)
  fix i j assume ij: "i < j" "j < length (first_keys ix)"
  have b: "0 < ix_block ix" using assms(1) by (simp add: index_over_def)
  have j: "j * ix_block ix < length ks"
    using ij(2) assms(1) step_by_length [OF b] by (simp add: index_over_def)
  have le: "i * ix_block ix \<le> j * ix_block ix" using ij(1) by simp
  from le j have i: "i * ix_block ix < length ks" by (rule le_less_trans)
  show "first_keys ix ! i \<le> first_keys ix ! j"
    using first_keys_nth(2) [OF assms(1) i] first_keys_nth(2) [OF assms(1) j] sorted_nth_mono [OF assms(2) le j]
    by simp
qed

lemma narrow_exact_contains:
  assumes ix: "index_over ks ix" and sorted: "sorted_wrt (<) ks" and i: "i < length ks" "ks ! i = k"
    and r: "narrow_exact ix (length ks) k = (lo, hi)"
  shows "lo \<le> i \<and> i < hi"
proof -
  let ?b = "ix_block ix" and ?after = "partition_point (\<lambda>x. x \<le> k) (first_keys ix)"
  have b: "0 < ?b" using ix by (simp add: index_over_def)
  have le: "sorted ks" using sorted by (simp add: strict_sorted_iff)
  let ?j = "i div ?b"
  have j: "?j * ?b \<le> i" "i < (?j + 1) * ?b" using b by (simp_all add: dividend_less_div_times)
  from j(1) i(1) have jn: "?j * ?b < length ks" by (rule le_less_trans)
  have "first_keys ix ! ?j \<le> k"
    using first_keys_nth(2) [OF ix jn] sorted_nth_mono [OF le j(1)] i by simp
  then have lt: "?j < ?after"
    using upto_iff [OF first_keys_sorted [OF ix le] first_keys_nth(1) [OF ix jn]] by simp
  have "?after \<le> ?j + 1"
  proof (rule ccontr)
    assume "\<not> ?after \<le> ?j + 1"
    then have a: "?j + 1 < ?after" by simp
    then have l: "?j + 1 < length (first_keys ix)" using partition_point_le by (rule less_le_trans)
    then have n: "(?j + 1) * ?b < length ks"
      using ix step_by_length [OF b] by (simp add: index_over_def)
    have "first_keys ix ! (?j + 1) \<le> k"
      using a upto_iff [OF first_keys_sorted [OF ix le] l] by simp
    moreover have "k < ks ! ((?j + 1) * ?b)"
      using sorted_wrt_nth_less [OF sorted j(2) n] i by simp
    ultimately show False using first_keys_nth(2) [OF ix n] by simp
  qed
  with lt have "?after - 1 = ?j" "?after \<noteq> 0" by simp_all
  then show ?thesis using r j i by (auto simp: narrow_exact_def Let_def)
qed

lemma narrow_lower_bound_contains:
  assumes ix: "index_over ks ix" and sorted: "sorted ks"
    and r: "narrow_lower_bound ix (length ks) k = (lo, hi)"
  shows "lo \<le> partition_point (\<lambda>x. x < k) ks" and "partition_point (\<lambda>x. x < k) ks \<le> hi" and "hi \<le> length ks"
proof -
  let ?b = "ix_block ix" and ?p = "partition_point (\<lambda>x. x < k) (first_keys ix)"
  let ?L = "partition_point (\<lambda>x. x < k) ks"
  have b: "0 < ?b" using ix by (simp add: index_over_def)
  note fs = first_keys_sorted [OF ix sorted]
  have lo: "lo = (?p - 1) * ?b" and hi: "hi = min ((?p + 1) * ?b) (length ks)"
    using r by (simp_all add: narrow_lower_bound_def Let_def)
  show "hi \<le> length ks" by (simp add: hi)
  show "lo \<le> ?L"
  proof (cases ?p)
    case (Suc q)
    then have q: "q < length (first_keys ix)" using partition_point_le by (metis Suc_le_eq)
    then have n: "q * ?b < length ks" using ix step_by_length [OF b] by (simp add: index_over_def)
    have "first_keys ix ! q < k" using below_iff [OF fs q] Suc by simp
    then have "q * ?b < ?L" using below_iff [OF sorted n] first_keys_nth(2) [OF ix n] by simp
    then show ?thesis by (simp add: lo Suc)
  qed (simp add: lo)
  show "?L \<le> hi"
  proof (cases "?p * ?b < length ks")
    case True
    note f = first_keys_nth [OF ix True]
    have "\<not> first_keys ix ! ?p < k" using below_iff [OF fs f(1)] by simp
    then have "?L \<le> ?p * ?b" using below_iff [OF sorted True] f(2) by simp
    with True show ?thesis by (simp add: hi)
  next
    case False
    then show ?thesis using partition_point_le [of "\<lambda>x. x < k" ks] by (auto simp: hi)
  qed
qed

section \<open>What the tables return\<close>

text \<open>A pair table of the mapping that holds the pairs \<open>ps\<close>, with a sound index if it has one.\<close>

definition table_holds :: "pair_table \<Rightarrow> bytes \<Rightarrow> (node_id \<times> node_id) list \<Rightarrow> bool" where
  "table_holds t data ps \<longleftrightarrow> reads_as (key_at t data) (value_at t data) (pt_count t) ps \<and>
     (\<forall>ix. pt_index t = Some ix \<longrightarrow> index_over (map fst ps) ix)"

lemma table_holds_count: "table_holds t data ps \<Longrightarrow> pt_count t = length ps"
  by (auto simp: table_holds_def dest: reads_asD(1))

lemma table_lookup_spec:
  assumes t: "table_holds t data ps" and sorted: "sorted_wrt (<) (map fst ps)"
  shows "table_lookup t data k = Some (map_of ps k)"
proof -
  have rd: "reads_as (key_at t data) (value_at t data) (length ps) ps" and n: "pt_count t = length ps"
    using t table_holds_count by (auto simp: table_holds_def)
  show ?thesis
  proof (cases "pt_index t")
    case None
    then show ?thesis using bsearch_spec [OF rd sorted] n by (simp add: table_lookup_def)
  next
    case (Some ix)
    then have ix: "index_over (map fst ps) ix" using t by (simp add: table_holds_def)
    obtain lo hi where r: "narrow_exact ix (length (map fst ps)) k = (lo, hi)" by fastforce
    then have "hi \<le> length ps" by (auto simp: narrow_exact_def Let_def split: if_splits)
    moreover have "lo \<le> i \<and> i < hi" if "i < length ps" "fst (ps ! i) = k" for i
      using narrow_exact_contains [OF ix sorted _ _ r, of i] that by simp
    ultimately show ?thesis
      using bsearch_spec [OF rd sorted, of hi k lo] Some n r by (simp add: table_lookup_def)
  qed
qed

lemma values_for_spec:
  assumes t: "table_holds t data ps" and sorted: "sorted (map fst ps)"
  shows "values_for t data k limit out = Some (out @ take limit (map snd (filter (\<lambda>p. fst p = k) ps)))"
proof -
  have rd: "reads_as (key_at t data) (value_at t data) (length ps) ps" and n: "pt_count t = length ps"
    using t table_holds_count by (auto simp: table_holds_def)
  have L: "partition_point (\<lambda>x. x < k) (map fst ps) \<le> length ps"
    using partition_point_le [of "\<lambda>x. x < k" "map fst ps"] by simp
  have "lower_bound t data k = Some (partition_point (\<lambda>x. x < k) (map fst ps))"
    unfolding lower_bound_def using reads_asD(2) [OF rd] n L
    by (intro lower_bound_loop_spec [OF sorted]) auto
  then show ?thesis
    using values_loop_spec [OF rd L, of k limit 0 out] n
    by (simp add: values_for_def run_of_key [OF sorted])
qed

lemma those_map_Some: "(\<And>x. x \<in> set xs \<Longrightarrow> f x = Some (g x)) \<Longrightarrow> those (map f xs) = Some (map g xs)"
  by (induction xs) auto

lemma those_nth: "(\<And>i. i < length ps \<Longrightarrow> f i = Some (ps ! i)) \<Longrightarrow> those (map f [0..<length ps]) = Some ps"
  using those_map_Some [of "[0..<length ps]" f "\<lambda>i. ps ! i"] by (simp add: map_nth)

lemma those_Some_nth:
  assumes "those rs = Some xs"
  shows "length xs = length rs" and "i < length rs \<Longrightarrow> rs ! i = Some (xs ! i)"
proof -
  have "rs = map Some xs"
    using assms by (induction rs arbitrary: xs) (auto split: option.splits)
  then show "length xs = length rs" and "i < length rs \<Longrightarrow> rs ! i = Some (xs ! i)" by simp_all
qed

lemma words_at:
  assumes "data = pre @ concat (map u64_to_le_bytes ws) @ suf"
  shows "those (map (\<lambda>w. u64_at data (length pre + w * 8)) [0..<length ws]) = Some ws"
proof (rule those_nth)
  fix i assume i: "i < length ws"
  obtain p q where "concat (map u64_to_le_bytes ws) = p @ u64_to_le_bytes (ws ! i) @ q" "length p = i * 8"
    by (rule concat_stride_nth [of u64_to_le_bytes 8 i ws]) (use i in auto)
  then show "u64_at data (length pre + i * 8) = Some (ws ! i)"
    using assms by (intro u64_at_middle [of _ "pre @ p" _ "q @ suf"]) auto
qed

lemma table_for_each_spec:
  assumes "table_holds t data ps"
  shows "table_for_each t data = Some ps"
proof -
  note rd = assms [unfolded table_holds_def, THEN conjunct1]
  have "pair_at t data i = Some (ps ! i)" if "i < length ps" for i
    using that reads_asD [OF rd] by (simp add: pair_at_def)
  then show ?thesis
    using those_nth [of ps "pair_at t data"] table_holds_count [OF assms] by (simp add: table_for_each_def)
qed

definition registry_holds :: "flat_registry \<Rightarrow> bytes \<Rightarrow> (node_id \<times> scope_id) list \<Rightarrow> bool" where
  "registry_holds t data es \<longleftrightarrow> reads_as (root_at t data) (scope_at t data) (fr_count t) es \<and>
     (\<forall>ix. fr_index t = Some ix \<longrightarrow> index_over (map fst es) ix)"

lemma flat_scopes_for_spec:
  assumes t: "registry_holds t data es" and sorted: "sorted (map fst es)"
  shows "flat_scopes_for t data root = Some (map snd (filter (\<lambda>e. fst e = root) es))"
proof -
  have rd: "reads_as (root_at t data) (scope_at t data) (length es) es" and n: "fr_count t = length es"
    using t reads_asD(1) by (fastforce simp: registry_holds_def)+
  let ?L = "partition_point (\<lambda>x. x < root) (map fst es)"
  have L: "?L \<le> length es" using partition_point_le [of "\<lambda>x. x < root" "map fst es"] by simp
  have scan: "scopes_loop t data root ?L [] = Some (map snd (filter (\<lambda>e. fst e = root) es))"
    using values_loop_spec [OF rd L, of root "length es - ?L" 0 "[]"] n
      length_takeWhile_le [of "\<lambda>e. fst e = root" "drop ?L es"]
    by (simp add: scopes_loop_values [where taken = 0] flip: run_of_key [OF sorted])
  have lb: "lower_bound_loop (root_at t data) root lo hi = Some ?L"
    if "lo \<le> ?L" "?L \<le> hi" "hi \<le> length es" for lo hi
    using that reads_asD(2) [OF rd] by (intro lower_bound_loop_spec [OF sorted]) auto
  show ?thesis
  proof (cases "fr_index t")
    case None
    then show ?thesis using lb [of 0 "length es"] L scan n by (simp add: flat_scopes_for_def)
  next
    case (Some ix)
    then have ix: "index_over (map fst es) ix" using t by (simp add: registry_holds_def)
    obtain lo hi where r: "narrow_lower_bound ix (length (map fst es)) root = (lo, hi)" by fastforce
    then show ?thesis
      using narrow_lower_bound_contains [OF ix sorted r] lb scan n Some
      by (simp add: flat_scopes_for_def)
  qed
qed

lemma flat_iter_spec:
  assumes "registry_holds t data es"
  shows "flat_iter t data = Some es"
proof -
  note rd = assms [unfolded registry_holds_def, THEN conjunct1]
  let ?f = "\<lambda>i. do { r \<leftarrow> root_at t data i; s \<leftarrow> scope_at t data i; Some (r, s) }"
  have "?f i = Some (es ! i)" if "i < length es" for i
    using that reads_asD [OF rd] by simp
  then show ?thesis using those_nth [of es ?f] reads_asD(1) [OF rd] by (simp add: flat_iter_def)
qed

section \<open>Tables as bytes\<close>

definition pair_bytes :: "node_id \<times> node_id \<Rightarrow> bytes" where
  "pair_bytes p = u64_to_le_bytes (fst p) @ u64_to_le_bytes (snd p)"

definition entry_bytes :: "node_id \<times> scope_id \<Rightarrow> bytes" where
  "entry_bytes e = u64_to_le_bytes (fst e) @ u32_to_le_bytes (snd e)"

text \<open>A count and the records.\<close>

definition counted :: "('a \<Rightarrow> bytes) \<Rightarrow> 'a list \<Rightarrow> bytes" where
  "counted enc xs = u64_to_le_bytes (word_of_nat (length xs)) @ concat (map enc xs)"

lemma length_pair_bytes [simp]: "length (pair_bytes p) = 16"
  by (simp add: pair_bytes_def)

lemma length_entry_bytes [simp]: "length (entry_bytes e) = 12"
  by (simp add: entry_bytes_def)

lemma length_counted: "(\<And>x. length (enc x) = k) \<Longrightarrow> length (counted enc xs) = 8 + length xs * k"
  by (simp add: counted_def length_concat_stride)

lemma counted_nth:
  assumes "\<And>x. length (enc x) = k" and "i < length xs"
  obtains pre suf where "counted enc xs = pre @ enc (xs ! i) @ suf" and "length pre = 8 + i * k"
proof -
  obtain pre suf where "concat (map enc xs) = pre @ enc (xs ! i) @ suf" "length pre = i * k"
    by (rule concat_stride_nth [of enc k i xs]) (use assms in auto)
  then show thesis
    using that [of "u64_to_le_bytes (word_of_nat (length xs)) @ pre" suf] by (simp add: counted_def)
qed

lemma counted_header:
  "take 8 (counted enc xs) = u64_to_le_bytes (word_of_nat (length xs))"
  by (simp add: counted_def)

lemma unat_word_of_nat_small: "n < 2 ^ 64 \<Longrightarrow> unat (word_of_nat n :: u64) = n"
  by (simp add: unat_of_nat take_bit_eq_mod)

lemma length_word: "8 + n * k < 2 ^ 64 \<Longrightarrow> unat (8 + word_of_nat n * word_of_nat k :: u64) = 8 + n * k"
  using unat_word_of_nat_small [of "8 + n * k"] by simp

lemma reads_as_pairs:
  assumes sl: "slice data a b = Some (counted pair_bytes ps)"
  shows "reads_as (\<lambda>i. u64_at data (a + 8 + i * 16)) (\<lambda>i. u64_at data (a + 8 + i * 16 + 8)) (length ps) ps"
  unfolding reads_as_def
proof (intro conjI allI impI)
  fix i assume i: "i < length ps"
  obtain pre suf where c: "counted pair_bytes ps = pre @ pair_bytes (ps ! i) @ suf" "length pre = 8 + i * 16"
    by (rule counted_nth [of pair_bytes 16 i ps]) (use i in auto)
  have len: "b = a + 8 + length ps * 16"
    using sl slice_length [OF sl] length_counted [of pair_bytes 16 ps]
    by (auto simp: slice_def split: if_splits)
  have k: "u64_at (counted pair_bytes ps) (8 + i * 16) = Some (fst (ps ! i))"
    using c by (intro u64_at_middle [of _ pre _ "u64_to_le_bytes (snd (ps ! i)) @ suf"]) (auto simp: pair_bytes_def)
  have v: "u64_at (counted pair_bytes ps) (8 + i * 16 + 8) = Some (snd (ps ! i))"
    using c by (intro u64_at_middle [of _ "pre @ u64_to_le_bytes (fst (ps ! i))" _ suf]) (auto simp: pair_bytes_def)
  show "u64_at data (a + 8 + i * 16) = Some (fst (ps ! i))"
    using u64_at_inside [OF sl, of "8 + i * 16"] k len i by (simp add: add.assoc)
  show "u64_at data (a + 8 + i * 16 + 8) = Some (snd (ps ! i))"
    using u64_at_inside [OF sl, of "8 + i * 16 + 8"] v len i by (simp add: add.assoc)
qed simp

lemma pair_table_parse_counted:
  assumes sl: "slice data a b = Some (counted pair_bytes ps)" and n: "8 + length ps * 16 < 2 ^ 64"
  shows "pair_table_parse data a b = Inr \<lparr>pt_start = a + 8, pt_count = length ps, pt_index = None\<rparr>"
    and "table_holds \<lparr>pt_start = a + 8, pt_count = length ps, pt_index = None\<rparr> data ps"
proof -
  show "pair_table_parse data a b = Inr \<lparr>pt_start = a + 8, pt_count = length ps, pt_index = None\<rparr>"
    using length_word [OF n] unat_word_of_nat_small [of "length ps"] n
    by (simp add: pair_table_parse_def sl counted_header length_counted [of _ 16])
  show "table_holds \<lparr>pt_start = a + 8, pt_count = length ps, pt_index = None\<rparr> data ps"
    using reads_as_pairs [OF sl] by (simp add: table_holds_def key_at_def [abs_def] value_at_def [abs_def] PAIR_STRIDE_def)
qed

lemma reads_as_entries:
  assumes sl: "slice data a b = Some (counted entry_bytes es)"
  shows "reads_as (\<lambda>i. u64_at data (a + 8 + i * 12)) (\<lambda>i. u32_at data (a + 8 + i * 12 + 8)) (length es) es"
  unfolding reads_as_def
proof (intro conjI allI impI)
  fix i assume i: "i < length es"
  obtain pre suf where c: "counted entry_bytes es = pre @ entry_bytes (es ! i) @ suf" "length pre = 8 + i * 12"
    by (rule counted_nth [of entry_bytes 12 i es]) (use i in auto)
  have len: "b = a + 8 + length es * 12"
    using sl slice_length [OF sl] length_counted [of entry_bytes 12 es]
    by (auto simp: slice_def split: if_splits)
  have k: "u64_at (counted entry_bytes es) (8 + i * 12) = Some (fst (es ! i))"
    using c by (intro u64_at_middle [of _ pre _ "u32_to_le_bytes (snd (es ! i)) @ suf"]) (auto simp: entry_bytes_def)
  have v: "u32_at (counted entry_bytes es) (8 + i * 12 + 8) = Some (snd (es ! i))"
    using c by (intro u32_at_middle [of _ "pre @ u64_to_le_bytes (fst (es ! i))" _ suf]) (auto simp: entry_bytes_def)
  show "u64_at data (a + 8 + i * 12) = Some (fst (es ! i))"
    using u64_at_inside [OF sl, of "8 + i * 12"] k len i by (simp add: add.assoc)
  show "u32_at data (a + 8 + i * 12 + 8) = Some (snd (es ! i))"
    using u32_at_inside [OF sl, of "8 + i * 12 + 8"] v len i by (simp add: add.assoc)
qed simp

lemma sparse_build_spec:
  assumes "\<And>i. i < length ks \<Longrightarrow> key i = Some (ks ! i)" and stride: "0 < stride" "stride \<le> PAGE_BYTES"
  obtains ix where "sparse_build (length ks) stride key = Some ix"
    and "\<And>i. ix = Some i \<Longrightarrow> index_over ks i"
proof (cases "length ks \<le> PAGE_BYTES div stride")
  case True
  then show thesis using that [of None] by (simp add: sparse_build_def Let_def)
next
  case False
  let ?b = "PAGE_BYTES div stride"
  have b: "0 < ?b" using stride div_greater_zero_iff by blast
  have "key i = Some (ks ! i)" if m: "i \<in> set (step_by (length ks) ?b)" for i
  proof -
    obtain j where "j < length (step_by (length ks) ?b)" "i = step_by (length ks) ?b ! j"
      using m unfolding in_set_conv_nth by blast
    then have "i < length ks" using step_by_length [OF b] by (simp add: step_by_nth)
    then show ?thesis by (rule assms(1))
  qed
  then have "those (map key (step_by (length ks) ?b)) = Some (map (\<lambda>i. ks ! i) (step_by (length ks) ?b))"
    by (rule those_map_Some)
  then show thesis
    using that [of "Some \<lparr>ix_block = ?b, first_keys = map (\<lambda>i. ks ! i) (step_by (length ks) ?b)\<rparr>"] False b
    by (simp add: sparse_build_def Let_def index_over_def)
qed

lemma flat_registry_parse_counted:
  assumes sl: "slice data a b = Some (counted entry_bytes es)" and n: "8 + length es * 12 < 2 ^ 64"
  obtains t where "flat_registry_parse data a b = Inr t" and "registry_holds t data es"
proof -
  let ?t = "\<lparr>fr_start = a + 8, fr_count = length es, fr_index = None\<rparr>"
  have rd: "reads_as (root_at ?t data) (scope_at ?t data) (length es) es"
    using reads_as_entries [OF sl] by (simp add: root_at_def [abs_def] scope_at_def [abs_def] REGISTRY_STRIDE_def)
  obtain ix where ix: "sparse_build (length (map fst es)) REGISTRY_STRIDE (root_at ?t data) = Some ix"
    "\<And>i. ix = Some i \<Longrightarrow> index_over (map fst es) i"
    by (rule sparse_build_spec [of "map fst es" "root_at ?t data" REGISTRY_STRIDE])
      (use reads_asD(2) [OF rd] in \<open>auto simp: REGISTRY_STRIDE_def PAGE_BYTES_def\<close>)
  have at: "root_at (?t\<lparr>fr_index := ix\<rparr>) = root_at ?t" "scope_at (?t\<lparr>fr_index := ix\<rparr>) = scope_at ?t"
    by (simp_all add: root_at_def [abs_def] scope_at_def [abs_def])
  show thesis
  proof
    show "flat_registry_parse data a b = Inr (?t\<lparr>fr_index := ix\<rparr>)"
      using length_word [OF n] unat_word_of_nat_small [of "length es"] n ix(1)
      by (simp add: flat_registry_parse_def sl counted_header length_counted [of _ 12] Let_def)
    show "registry_holds (?t\<lparr>fr_index := ix\<rparr>) data es"
      using rd ix(2) at by (simp add: registry_holds_def)
  qed
qed

section \<open>Untrusted files\<close>

lemma bsearch_total:
  assumes "reads_as key value n ps" and "hi \<le> n"
  shows "\<exists>r. bsearch key value k lo hi = Some r"
  using assms(2)
proof (induction "hi - lo" arbitrary: lo hi rule: less_induct)
  case less
  show ?case
  proof (cases "lo < hi")
    case True
    let ?mid = "lo + (hi - lo) div 2"
    have mid: "?mid < hi" "lo \<le> ?mid" using True by auto
    then have rd: "key ?mid = Some (fst (ps ! ?mid))" "value ?mid = Some (snd (ps ! ?mid))"
      using reads_asD(2,3) [OF assms(1), of ?mid] less.prems by simp_all
    have 1: "\<exists>r. bsearch key value k (?mid + 1) hi = Some r"
      using less.hyps [of hi "?mid + 1"] less.prems mid by simp
    have 2: "\<exists>r. bsearch key value k lo ?mid = Some r"
      using less.hyps [of ?mid lo] less.prems mid by simp
    show ?thesis
      unfolding bsearch.simps [of _ _ _ lo hi] using True rd 1 2 by (simp add: Let_def)
  qed (simp add: bsearch.simps [of _ _ _ lo])
qed

lemma lower_bound_loop_total:
  assumes "\<And>i. i < n \<Longrightarrow> \<exists>x. key i = Some x" and "lo \<le> hi" and "hi \<le> n"
  shows "\<exists>L \<le> hi. lower_bound_loop key k lo hi = Some L"
  using assms(2,3)
proof (induction "hi - lo" arbitrary: lo hi rule: less_induct)
  case less
  show ?case
  proof (cases "lo < hi")
    case True
    let ?mid = "lo + (hi - lo) div 2"
    have mid: "?mid < hi" "lo \<le> ?mid" using True by auto
    then obtain x where rd: "key ?mid = Some x" using assms(1) [of ?mid] less.prems by auto
    have 1: "\<exists>L \<le> hi. lower_bound_loop key k (?mid + 1) hi = Some L"
      using less.hyps [of hi "?mid + 1"] less.prems mid by simp
    have 2: "\<exists>L \<le> ?mid. lower_bound_loop key k lo ?mid = Some L"
      using less.hyps [of ?mid lo] less.prems mid by simp
    have "\<exists>L \<le> hi. lower_bound_loop key k lo ?mid = Some L" using 2 mid(1) by (meson le_trans less_imp_le)
    then show ?thesis
      unfolding lower_bound_loop.simps [of _ _ lo hi] using True rd 1 by (simp add: Let_def)
  next
    case False
    then have "lower_bound_loop key k lo hi = Some hi"
      using less.prems by (simp add: lower_bound_loop.simps [of _ _ lo hi] lower_bound_loop.simps [of _ _ hi hi])
    then show ?thesis by blast
  qed
qed

lemma pair_table_parse_Inr:
  assumes "pair_table_parse data a b = Inr t"
  obtains payload where "slice data a b = Some payload" and "8 \<le> length payload"
    and "length payload = unat (8 + u64_from_le_bytes (take 8 payload) * 16)"
    and "t = \<lparr>pt_start = a + 8, pt_count = unat (u64_from_le_bytes (take 8 payload)), pt_index = None\<rparr>"
proof -
  obtain payload where sl: "slice data a b = Some payload"
    using assms by (cases "slice data a b") (simp_all add: pair_table_parse_def)
  moreover have "8 \<le> length payload \<and> length payload = unat (8 + u64_from_le_bytes (take 8 payload) * 16) \<and>
      t = \<lparr>pt_start = a + 8, pt_count = unat (u64_from_le_bytes (take 8 payload)), pt_index = None\<rparr>"
    using assms sl by (simp add: pair_table_parse_def Let_def ensure_Inr)
  ultimately show thesis using that by blast
qed

lemma parsed_table_reads:
  assumes p: "pair_table_parse data a b = Inr t" and n: "8 + pt_count t * 16 < 2 ^ 64"
  obtains ps where "reads_as (key_at t data) (value_at t data) (pt_count t) ps" and "pt_index t = None"
proof -
  obtain payload where sl: "slice data a b = Some payload"
    and len: "length payload = unat (8 + u64_from_le_bytes (take 8 payload) * 16)"
    and t: "t = \<lparr>pt_start = a + 8, pt_count = unat (u64_from_le_bytes (take 8 payload)), pt_index = None\<rparr>"
    using pair_table_parse_Inr [OF p] .
  let ?count = "u64_from_le_bytes (take 8 payload)"
  have "word_of_nat (pt_count t) = ?count" unfolding t by simp
  then have "length payload = 8 + pt_count t * 16"
    using len length_word [OF n] by (simp only: of_nat_numeral)
  then have b: "a + 8 + pt_count t * 16 \<le> length data"
    using sl slice_length [OF sl] by (auto simp: slice_def split: if_splits)
  have k: "\<exists>x. key_at t data i = Some x" and v: "\<exists>x. value_at t data i = Some x" if "i < pt_count t" for i
    using that b by (auto simp: key_at_def value_at_def PAIR_STRIDE_def t intro!: u64_at_Some)
  have "reads_as (key_at t data) (value_at t data) (pt_count t)
      (map (\<lambda>i. (the (key_at t data i), the (value_at t data i))) [0..<pt_count t])"
    using k v by (fastforce simp: reads_as_def)
  then show thesis using that t by simp
qed

text \<open>A lookup or a scan of a table inside the mapping returns, whatever its sparse index says.\<close>

lemma table_reads_total:
  assumes rd: "reads_as (key_at t data) (value_at t data) (pt_count t) ps"
  shows "(\<exists>ix. sparse_build (pt_count t) PAIR_STRIDE (key_at t data) = Some ix) \<and>
    (\<forall>ix k. \<exists>r. table_lookup (t\<lparr>pt_index := ix\<rparr>) data k = Some r) \<and>
    (\<forall>ix k limit out. \<exists>r. values_for (t\<lparr>pt_index := ix\<rparr>) data k limit out = Some r)"
proof (intro conjI allI)
  note n = reads_asD(1) [OF rd]
  obtain ix where "sparse_build (length (map fst ps)) PAIR_STRIDE (key_at t data) = Some ix"
    by (rule sparse_build_spec [of "map fst ps" "key_at t data" PAIR_STRIDE])
      (use rd in \<open>auto simp: reads_as_def PAIR_STRIDE_def PAGE_BYTES_def\<close>)
  then show "\<exists>ix. sparse_build (pt_count t) PAIR_STRIDE (key_at t data) = Some ix" using n by auto
  fix ix k
  let ?t = "t\<lparr>pt_index := ix\<rparr>"
  have at: "key_at ?t data = key_at t data" "value_at ?t data = value_at t data"
    by (simp_all add: key_at_def [abs_def] value_at_def [abs_def])
  obtain lo hi where r: "(case ix of Some i \<Rightarrow> narrow_exact i (pt_count t) k | None \<Rightarrow> (0, pt_count t)) = (lo, hi)"
    by fastforce
  then have "hi \<le> pt_count t" by (auto simp: narrow_exact_def Let_def split: option.splits if_splits)
  from bsearch_total [OF rd this] r show "\<exists>r. table_lookup ?t data k = Some r"
    by (simp add: table_lookup_def at cong: option.case_cong)
  fix limit out
  obtain L where L: "lower_bound ?t data k = Some L" "L \<le> pt_count t"
    using lower_bound_loop_total [of "pt_count t" "key_at t data" 0 "pt_count t" k] reads_asD(2) [OF rd]
    by (auto simp: lower_bound_def at)
  then show "\<exists>r. values_for ?t data k limit out = Some r"
    using values_loop_spec [of "key_at t data" "value_at t data" ps L] rd n by (simp add: values_for_def at)
qed

lemma parsed_table_wraps:
  assumes p: "pair_table_parse data a b = Inr t" and n: "\<not> 8 + pt_count t * 16 < 2 ^ 64" and data: "length data < 2 ^ 64"
  shows "table_for_each t data = None"
proof (rule ccontr)
  assume "table_for_each t data \<noteq> None"
  then obtain ps where "those (map (pair_at t data) [0..<pt_count t]) = Some ps" by (auto simp: table_for_each_def)
  note nth = those_Some_nth [OF this]
  have t: "pt_start t = a + 8" using pair_table_parse_Inr [OF p] by (metis pair_table.select_convs(1))
  have "0 < pt_count t" using n by (cases "pt_count t") auto
  then obtain m where m: "pt_count t = Suc m" by (cases "pt_count t") auto
  then have "pair_at t data m = Some (ps ! m)" using nth(2) [of m] by (simp add: nth_append)
  then have "pt_start t + m * 16 + 16 \<le> length data"
    by (auto simp: pair_at_def value_at_def PAIR_STRIDE_def u64_at_def slice_def split: bind_splits if_splits)
  then show False using n data by (simp add: t m)
qed

text \<open>
  C25: A pair table whose header passes the length check lies inside the mapping exactly if its count
  times the stride fits a machine word: if it does, building the sparse index, a sweep, and a lookup
  or a scan through any index, or none, return and never read past the end, whatever the bytes are;
  if the product wraps around, a sweep runs past the end.
\<close>

theorem accepted_table_reads_in_bounds:
  assumes p: "pair_table_parse data a b = Inr t" and data: "length data < 2 ^ 64"
  shows "(8 + pt_count t * 16 < 2 ^ 64 \<longleftrightarrow> (\<exists>ps. table_for_each t data = Some ps)) \<and>
    (8 + pt_count t * 16 < 2 ^ 64 \<longrightarrow>
      (\<exists>ix. sparse_build (pt_count t) PAIR_STRIDE (key_at t data) = Some ix) \<and>
      (\<forall>ix k. \<exists>r. table_lookup (t\<lparr>pt_index := ix\<rparr>) data k = Some r) \<and>
      (\<forall>ix k limit out. \<exists>r. values_for (t\<lparr>pt_index := ix\<rparr>) data k limit out = Some r))"
proof -
  have wrap: "\<not> 8 + pt_count t * 16 < 2 ^ 64 \<Longrightarrow> table_for_each t data = None"
    by (rule parsed_table_wraps [OF p _ data])
  have fits: "(\<exists>ps. table_for_each t data = Some ps) \<and>
      (\<exists>ix. sparse_build (pt_count t) PAIR_STRIDE (key_at t data) = Some ix) \<and>
      (\<forall>ix k. \<exists>r. table_lookup (t\<lparr>pt_index := ix\<rparr>) data k = Some r) \<and>
      (\<forall>ix k limit out. \<exists>r. values_for (t\<lparr>pt_index := ix\<rparr>) data k limit out = Some r)"
    if n: "8 + pt_count t * 16 < 2 ^ 64"
  proof -
    obtain ps where rd: "reads_as (key_at t data) (value_at t data) (pt_count t) ps" and ix: "pt_index t = None"
      using parsed_table_reads [OF p n] .
    from table_reads_total [OF rd] rd ix show ?thesis
      using table_for_each_spec [of t data ps] by (simp add: table_holds_def)
  qed
  show ?thesis
  proof (cases "8 + pt_count t * 16 < 2 ^ 64")
    case True
    with fits [OF True] show ?thesis by blast
  next
    case False
    with wrap [OF False] show ?thesis by simp
  qed
qed

theorem accepted_table_reads_in_bounds_witness:
  "\<exists>t ps. pair_table_parse (counted pair_bytes [(9, 4), (2, 1)]) 0 40 = Inr t \<and> pt_count t = 2 \<and>
     table_for_each t (counted pair_bytes [(9, 4), (2, 1)]) = Some ps \<and>
     (\<exists>r. table_lookup (t\<lparr>pt_index := Some \<lparr>ix_block = 1, first_keys = [9, 2]\<rparr>\<rparr>)
        (counted pair_bytes [(9, 4), (2, 1)]) 2 = Some r)"
proof -
  let ?data = "counted pair_bytes [(9, 4), (2, 1)]"
  have len: "length ?data = 40" by (simp add: length_counted [of pair_bytes 16])
  have sl: "slice ?data 0 40 = Some ?data" using len by (simp add: slice_def)
  note p = pair_table_parse_counted(1) [OF sl]
  from accepted_table_reads_in_bounds [OF p] p len show ?thesis by auto
qed

text \<open>
  C27: The length check of a pair table multiplies at machine width and wraps around: a header that
  claims \<open>2 ^ 60\<close> pairs passes it on an empty body, and every lookup in the table it yields reads
  past the end of the mapping.
\<close>

theorem pair_table_length_check_wraps:
  "pair_table_parse (u64_to_le_bytes (2 ^ 60)) 0 8 = Inr \<lparr>pt_start = 8, pt_count = 2 ^ 60, pt_index = None\<rparr>
    \<and> (\<forall>k. table_lookup \<lparr>pt_start = 8, pt_count = 2 ^ 60, pt_index = None\<rparr> (u64_to_le_bytes (2 ^ 60)) k = None)"
proof -
  have "unat ((2::u64) ^ 60) = 2 ^ 60" by simp
  then have "pair_table_parse (u64_to_le_bytes (2 ^ 60)) 0 8 =
      Inr \<lparr>pt_start = 8, pt_count = 2 ^ 60, pt_index = None\<rparr>"
    by (simp add: pair_table_parse_def slice_def)
  moreover have "table_lookup \<lparr>pt_start = 8, pt_count = 2 ^ 60, pt_index = None\<rparr> (u64_to_le_bytes (2 ^ 60)) k = None" for k
    by (simp add: table_lookup_def bsearch.simps key_at_def u64_at_def slice_def Let_def)
  ultimately show ?thesis by simp
qed

end
