(* ===== verification/Member_Filter.thy ===== *)
theory Member_Filter
  imports Pair_Table
begin

text \<open>
  The blocked membership filters of \<^verbatim>\<open>src/storage/filter.rs\<close>, with the hash they use. All the bits
  of a key lie in one block of eight words.

  A negative answer of a filter is used without a lookup, so the property that matters is that a
  filter never denies a key it was built over, at any number of bits and for any size hint; the
  encoded form carries everything a reader needs.
\<close>

section \<open>Hashing\<close>

unbundle bit_operations_syntax

definition K :: nat where "K = 6"
definition BLOCK_BITS :: nat where "BLOCK_BITS = 512"
definition BLOCK_WORDS :: nat where "BLOCK_WORDS = BLOCK_BITS div 64"
definition DEFAULT_FILTER_BITS :: nat where "DEFAULT_FILTER_BITS = 8"
definition FILTER_MAGIC :: u32 where "FILTER_MAGIC = 0x424C4631"

definition clamp_filter_bits :: "nat \<Rightarrow> nat" where
  "clamp_filter_bits bits = min bits 64"

definition mix :: "u64 \<Rightarrow> u64" where
  "mix x =
     (let x = x + 0x9E3779B97F4A7C15; z = x;
          z = (z XOR drop_bit 30 z) * 0xBF58476D1CE4E5B9;
          z = (z XOR drop_bit 27 z) * 0x94D049BB133111EB
      in z XOR drop_bit 31 z)"

definition overlay_key :: "scope_id \<Rightarrow> node_id \<Rightarrow> u64" where
  "overlay_key scope node = mix (node XOR push_bit 40 (ucast scope) * 0x9E3779B9)"

section \<open>The filter\<close>

record blocked_filter =
  bf_blocks :: "u64 list list"

text \<open>One step of the loop that sets the bits of a key.\<close>

definition set_bit_of :: "u64 \<times> u64 list \<Rightarrow> u64 \<times> u64 list" where
  "set_bit_of hp =
     (let h = mix (fst hp); bit = unat (h mod word_of_nat BLOCK_BITS);
          w = bit div 64
      in (h, (snd hp)[w := (snd hp ! w) OR push_bit (bit mod 64) 1]))"

text \<open>
  The block of a key is a remainder by the number of blocks. A filter that is built has at least one;
  a decoded one may have none, and \<open>may_contain\<close> then panics.
\<close>

definition locate :: "blocked_filter \<Rightarrow> u64 \<Rightarrow> nat \<times> u64 list" where
  "locate f key =
     (let h = mix key; block = unat (drop_bit 32 h) mod length (bf_blocks f)
      in (block, snd ((set_bit_of ^^ K) (h, replicate BLOCK_WORDS 0))))"

definition set_key :: "u64 \<Rightarrow> blocked_filter \<Rightarrow> blocked_filter" where
  "set_key key f =
     (let (block, pattern) = locate f key in
      f\<lparr>bf_blocks := (bf_blocks f)[block := map2 (\<lambda>b p. b OR p) (bf_blocks f ! block) pattern]\<rparr>)"

text \<open>The number of bits is a product of machine words.\<close>

definition filter_build :: "u64 list \<Rightarrow> nat \<Rightarrow> nat \<Rightarrow> blocked_filter" where
  "filter_build keys hint bits_per_key =
     (let bits = max (clamp_filter_bits bits_per_key) 1;
          wanted = unat (word_of_nat hint * word_of_nat bits :: u64);
          blocks = max ((wanted + BLOCK_BITS - 1) div BLOCK_BITS) 1
      in fold set_key keys \<lparr>bf_blocks = replicate blocks (replicate BLOCK_WORDS 0)\<rparr>)"

definition build_with :: "u64 list \<Rightarrow> nat \<Rightarrow> nat \<Rightarrow> blocked_filter option" where
  "build_with keys hint bits_per_key =
     (let bits = clamp_filter_bits bits_per_key in
      if bits = 0 then None else Some (filter_build keys hint bits))"

text \<open>Taking the remainder by zero panics: \<^const>\<open>None\<close>. Every block has eight words, so no other read can fail.\<close>

definition may_contain :: "blocked_filter \<Rightarrow> u64 \<Rightarrow> bool option" where
  "may_contain f key =
     (if bf_blocks f = [] then None
      else let (block, pattern) = locate f key
           in Some (list_all (\<lambda>(b, p). b AND p = p) (zip (bf_blocks f ! block) pattern)))"

definition filter_heap_bytes :: "blocked_filter \<Rightarrow> nat" where
  "filter_heap_bytes f = length (bf_blocks f) * BLOCK_WORDS * 8"

definition filter_encode :: "blocked_filter \<Rightarrow> bytes" where
  "filter_encode f =
     u32_to_le_bytes FILTER_MAGIC @ u32_to_le_bytes (word_of_nat (length (bf_blocks f))) @
     concat (map (\<lambda>block. concat (map u64_to_le_bytes block)) (bf_blocks f))"

definition filter_decode :: "bytes \<Rightarrow> blocked_filter result" where
  "filter_decode data =
     ensure (8 \<le> length data) Truncated (
     let magic = u32_from_le_bytes (take 4 data) in
     ensure (magic = FILTER_MAGIC) (WrongMagic magic) (
     let count = unat (u32_from_le_bytes (take 4 (drop 4 data))); want = 8 + count * BLOCK_WORDS * 8 in
     ensure (length data = want) LengthMismatch (
     and_then (ok_or Panic (those (map (\<lambda>b. those (map (\<lambda>w. u64_at data (8 + (b * BLOCK_WORDS + w) * 8))
        [0..<BLOCK_WORDS])) [0..<count]))) (\<lambda>blocks.
     Inr \<lparr>bf_blocks = blocks\<rparr>))))"

section \<open>No false negatives\<close>

definition filter_ok :: "blocked_filter \<Rightarrow> bool" where
  "filter_ok f \<longleftrightarrow> bf_blocks f \<noteq> [] \<and> (\<forall>b \<in> set (bf_blocks f). length b = BLOCK_WORDS)"

lemma length_set_bit_of: "length (snd ((set_bit_of ^^ n) hp)) = length (snd hp)"
  by (induction n) (simp_all add: set_bit_of_def Let_def)

lemma locate_ok:
  assumes "filter_ok f"
  shows "fst (locate f key) < length (bf_blocks f)" and "length (snd (locate f key)) = BLOCK_WORDS"
    and "length (bf_blocks f ! fst (locate f key)) = BLOCK_WORDS"
proof -
  show 1: "fst (locate f key) < length (bf_blocks f)"
    using assms by (simp add: filter_ok_def locate_def Let_def)
  show "length (snd (locate f key)) = BLOCK_WORDS"
    by (simp add: locate_def Let_def length_set_bit_of)
  show "length (bf_blocks f ! fst (locate f key)) = BLOCK_WORDS"
    using assms 1 by (simp add: filter_ok_def)
qed

lemma locate_cong: "length (bf_blocks f) = length (bf_blocks g) \<Longrightarrow> locate f key = locate g key"
  by (simp add: locate_def)

lemma length_set_key: "length (bf_blocks (set_key key f)) = length (bf_blocks f)"
  by (simp add: set_key_def split: prod.splits)

lemma set_key_ok: "filter_ok f \<Longrightarrow> filter_ok (set_key key f)"
  using locate_ok [of f key]
  by (auto simp: set_key_def filter_ok_def split: prod.splits dest!: set_update_subset_insert [THEN subsetD])

definition covers_key :: "blocked_filter \<Rightarrow> u64 \<Rightarrow> bool" where
  "covers_key f key \<longleftrightarrow>
     (\<forall>w < BLOCK_WORDS. (bf_blocks f ! fst (locate f key) ! w) AND (snd (locate f key) ! w) = snd (locate f key) ! w)"

lemma may_contain_covers: "filter_ok f \<Longrightarrow> may_contain f key = Some (covers_key f key)"
  using locate_ok [of f key]
  by (auto simp: may_contain_def covers_key_def list_all_length filter_ok_def split: prod.splits)

lemma or_and_absorb: "b AND p = p \<Longrightarrow> (b OR q) AND p = (p :: u64)" "(b OR p) AND p = (p :: u64)"
proof -
  assume bp: "b AND p = p"
  have "bit b n" if "bit p n" for n using that bit_and_iff [of b p n] by (simp add: bp)
  then show "(b OR q) AND p = p" by (intro bit_word_eqI) (auto simp: bit_and_iff bit_or_iff)
next
  show "(b OR p) AND p = p" by (intro bit_word_eqI) (auto simp: bit_and_iff bit_or_iff)
qed

lemma set_key_word:
  assumes ok: "filter_ok f" and b: "b < length (bf_blocks f)" and w: "w < BLOCK_WORDS"
  shows "bf_blocks (set_key key f) ! b ! w =
    (if b = fst (locate f key) then (bf_blocks f ! b ! w) OR (snd (locate f key) ! w) else bf_blocks f ! b ! w)"
  using locate_ok [OF ok, of key] b w by (auto simp: set_key_def split: prod.splits)

lemma set_key_covers:
  assumes ok: "filter_ok f"
  shows "covers_key (set_key key f) key" and "covers_key f k \<Longrightarrow> covers_key (set_key key f) k"
  using locate_ok(1) [OF ok] locate_cong [OF length_set_key, of key f] set_key_word [OF ok, of _ _ key]
  by (auto simp: covers_key_def or_and_absorb)

lemma fold_set_key_covers:
  "filter_ok f \<Longrightarrow> (\<forall>k \<in> S. covers_key f k) \<Longrightarrow>
     filter_ok (fold set_key keys f) \<and> (\<forall>k \<in> S \<union> set keys. covers_key (fold set_key keys f) k)"
proof (induction keys arbitrary: f S)
  case (Cons key keys)
  from Cons(1) [of "set_key key f" "insert key S"] show ?case
    using Cons(2,3) set_key_covers(1) [of f key] set_key_covers(2) [of f _ key] set_key_ok [of f key] by simp
qed simp

lemma filter_build_covers:
  assumes "k \<in> set keys"
  shows "may_contain (filter_build keys hint bits) k = Some True"
proof -
  let ?f = "filter_build keys hint bits"
  have "filter_ok ?f \<and> (\<forall>k \<in> {} \<union> set keys. covers_key ?f k)"
    unfolding filter_build_def Let_def
    by (rule fold_set_key_covers) (auto simp: filter_ok_def)
  then show ?thesis using assms by (simp add: may_contain_covers)
qed

lemma build_with_covers: "build_with keys hint bits = Some f \<Longrightarrow> k \<in> set keys \<Longrightarrow> may_contain f k = Some True"
  using filter_build_covers by (auto simp: build_with_def Let_def split: if_splits)

lemma filter_build_ok: "filter_ok (filter_build keys hint bits)"
proof -
  let ?f = "filter_build keys hint bits"
  have "filter_ok ?f \<and> (\<forall>k \<in> {} \<union> set keys. covers_key ?f k)"
    unfolding filter_build_def Let_def
    by (rule fold_set_key_covers) (auto simp: filter_ok_def)
  then show ?thesis by blast
qed

lemma build_with_ok: "build_with keys hint bits = Some f \<Longrightarrow> filter_ok f"
  using filter_build_ok by (auto simp: build_with_def Let_def split: if_splits)

section \<open>Encoding\<close>

definition block_bytes :: "u64 list \<Rightarrow> bytes" where
  "block_bytes block = concat (map u64_to_le_bytes block)"

lemma length_filter_encode:
  assumes "\<forall>b \<in> set bs. length b = 8"
  shows "length (concat (map block_bytes bs)) = length bs * 64"
  using assms by (induction bs) (auto simp: block_bytes_def length_concat_stride [of _ 8])

lemma concat_block_nth:
  assumes "\<forall>b \<in> set bs. length b = 8" and "i < length bs"
  obtains pre suf where "concat (map block_bytes bs) = pre @ block_bytes (bs ! i) @ suf"
    and "length pre = i * 64"
proof
  show "concat (map block_bytes bs) =
      concat (map block_bytes (take i bs)) @ block_bytes (bs ! i) @ concat (map block_bytes (drop (Suc i) bs))"
    using id_take_nth_drop [OF assms(2)] by (metis concat.simps(2) concat_append list.map(2) map_append)
  have "\<forall>b \<in> set (take i bs). length b = 8" using assms(1) by (auto dest: in_set_takeD)
  then show "length (concat (map block_bytes (take i bs))) = i * 64"
    using length_filter_encode assms(2) by simp
qed

lemma filter_decode_encode:
  assumes ok: "filter_ok f" and n: "length (bf_blocks f) < 2 ^ 32"
  shows "filter_decode (filter_encode f) = Inr f"
proof -
  let ?bs = "bf_blocks f" and ?data = "filter_encode f"
  let ?head = "u32_to_le_bytes FILTER_MAGIC @ u32_to_le_bytes (word_of_nat (length ?bs))"
  have data: "?data = ?head @ concat (map block_bytes ?bs)"
    by (simp add: filter_encode_def block_bytes_def [abs_def])
  have B: "BLOCK_WORDS = 8" by (simp add: BLOCK_WORDS_def BLOCK_BITS_def)
  have len: "\<forall>b \<in> set ?bs. length b = 8" using ok B by (simp add: filter_ok_def)
  have count: "unat (word_of_nat (length ?bs) :: u32) = length ?bs"
    using n by (simp add: unat_of_nat take_bit_eq_mod)
  have "those (map (\<lambda>w. u64_at ?data (8 + (b * 8 + w) * 8)) [0..<8]) = Some (?bs ! b)" if b: "b < length ?bs" for b
  proof -
    obtain pre suf where c: "concat (map block_bytes ?bs) = pre @ block_bytes (?bs ! b) @ suf" "length pre = b * 64"
      using concat_block_nth [OF len b] .
    have "length (?bs ! b) = 8" using len b by simp
    then show ?thesis
      using words_at [of ?data "?head @ pre" "?bs ! b" suf] c
      by (simp add: data block_bytes_def algebra_simps)
  qed
  then have "those (map (\<lambda>b. those (map (\<lambda>w. u64_at ?data (8 + (b * 8 + w) * 8)) [0..<8])) [0..<length ?bs]) = Some ?bs"
    by (intro those_nth)
  moreover have "length ?data = 8 + length ?bs * 64" by (simp add: data length_filter_encode [OF len])
  moreover have "take 4 ?data = u32_to_le_bytes FILTER_MAGIC"
    "take 4 (drop 4 ?data) = u32_to_le_bytes (word_of_nat (length ?bs))" by (simp_all add: data)
  ultimately show ?thesis by (simp add: filter_decode_def B count Let_def)
qed

text \<open>
  C23: A filter built over a list of keys, at any number of bits and for any size hint, written to a
  file and read back, answers for every one of these keys that it may be present.
\<close>

theorem filter_never_denies_a_key:
  assumes "k \<in> set keys" and "build_with keys hint bits = Some f" and "length (bf_blocks f) < 2 ^ 32"
  shows "\<exists>g. filter_decode (filter_encode f) = Inr g \<and> may_contain g k = Some True"
  using build_with_covers [OF assms(2,1)] filter_decode_encode [OF build_with_ok [OF assms(2)] assms(3)] by simp

theorem filter_never_denies_a_key_witness:
  "\<exists>f g. build_with [3, 7, 2 ^ 40] 3 8 = Some f \<and> filter_decode (filter_encode f) = Inr g \<and>
     may_contain g 7 = Some True"
proof -
  obtain f where f: "build_with [3, 7, 2 ^ 40] 3 8 = Some f"
    by (simp add: build_with_def clamp_filter_bits_def)
  have "length (bf_blocks f) = 1"
    using f by (auto simp: build_with_def filter_build_def clamp_filter_bits_def Let_def BLOCK_BITS_def length_set_key)
  then show ?thesis using filter_never_denies_a_key [OF _ f, of 7] f by auto
qed

lemma u64_at_bytes:
  assumes "u64_at data i = Some w"
  shows "u64_to_le_bytes w = take 8 (drop i data)" and "i + 8 \<le> length data"
proof -
  have sl: "slice data i (i + 8) = Some (take 8 (drop i data))" and "i + 8 \<le> length data"
    using assms by (auto simp: u64_at_def slice_def split: if_splits)
  then show "i + 8 \<le> length data" by simp
  have "length (take 8 (drop i data)) = 8" using \<open>i + 8 \<le> length data\<close> by simp
  moreover have "w = u64_from_le_bytes (take 8 (drop i data))" using assms sl by (simp add: u64_at_def)
  ultimately show "u64_to_le_bytes w = take 8 (drop i data)" by (simp add: u64_to_from_le_bytes)
qed

lemma take_chunk: "take (Suc m * k) (drop at xs) = take (m * k) (drop at xs) @ take k (drop (at + m * k) xs)"
  using take_add [of "m * k" k "drop at xs"] by (simp only: mult_Suc add.commute [of k] add.commute [of at] drop_drop)

lemma words_bytes:
  assumes "those (map (\<lambda>w. u64_at data (at + w * 8)) [0..<n]) = Some ws"
  shows "length ws = n" and "concat (map u64_to_le_bytes ws) = take (n * 8) (drop at data)"
    and "n = 0 \<or> at + n * 8 \<le> length data"
proof -
  note nth = those_Some_nth [OF assms]
  show n: "length ws = n" using nth(1) by simp
  have at: "u64_to_le_bytes (ws ! i) = take 8 (drop (at + i * 8) data)" "at + i * 8 + 8 \<le> length data" if "i < n" for i
    using u64_at_bytes [of data "at + i * 8" "ws ! i"] nth(2) [of i] that by simp_all
  show fit: "n = 0 \<or> at + n * 8 \<le> length data" using at(2) [of "n - 1"] by (cases n) auto
  have "concat (map u64_to_le_bytes (take m ws)) = take (m * 8) (drop at data)" if "m \<le> n" for m
    using that
  proof (induction m)
    case (Suc m)
    then have "take (Suc m) ws = take m ws @ [ws ! m]" using n by (simp add: take_Suc_conv_app_nth)
    then show ?case using Suc at(1) [of m] unfolding take_chunk by simp
  qed simp
  from this [of n] n show "concat (map u64_to_le_bytes ws) = take (n * 8) (drop at data)" by simp
qed

lemma filter_decode_blocks:
  assumes "filter_decode data = Inr f"
  defines "n \<equiv> unat (u32_from_le_bytes (take 4 (drop 4 data)))"
  shows "length data = 8 + n * 64" and "take 4 data = u32_to_le_bytes FILTER_MAGIC"
    and "those (map (\<lambda>b. those (map (\<lambda>w. u64_at data (8 + b * 64 + w * 8)) [0..<8])) [0..<n]) = Some (bf_blocks f)"
proof -
  have B: "BLOCK_WORDS = 8" by (simp add: BLOCK_WORDS_def BLOCK_BITS_def)
  have at: "8 + (b * 8 + w) * 8 = 8 + b * 64 + w * 8" for b w :: nat by simp
  have *: "8 \<le> length data" "u32_from_le_bytes (take 4 data) = FILTER_MAGIC" "length data = 8 + n * 8 * 8"
    "those (map (\<lambda>b. those (map (\<lambda>w. u64_at data (8 + b * 64 + w * 8)) [0..<8])) [0..<n]) = Some (bf_blocks f)"
    using assms(1) unfolding filter_decode_def Let_def result_Inr B at n_def [symmetric] by auto
  show "length data = 8 + n * 64" using *(3) by simp
  have "length (take 4 data) = 4" using *(1) by simp
  then show "take 4 data = u32_to_le_bytes FILTER_MAGIC" using *(2) u32_to_from_le_bytes by metis
  show "those (map (\<lambda>b. those (map (\<lambda>w. u64_at data (8 + b * 64 + w * 8)) [0..<8])) [0..<n]) = Some (bf_blocks f)" by (rule *(4))
qed

lemma filter_encode_decode:
  assumes "filter_decode data = Inr f"
  shows "filter_encode f = data" and "\<forall>b \<in> set (bf_blocks f). length b = BLOCK_WORDS"
    and "bf_blocks f = [] \<longleftrightarrow> length data = 8"
proof -
  define n where "n = unat (u32_from_le_bytes (take 4 (drop 4 data)))"
  note d = filter_decode_blocks [OF assms, folded n_def]
  note nth = those_Some_nth [OF d(3)]
  have len: "length (bf_blocks f) = n" using nth(1) by simp
  have block: "those (map (\<lambda>w. u64_at data (8 + i * 64 + w * 8)) [0..<8]) = Some (bf_blocks f ! i)" if "i < n" for i
    using nth(2) [of i] that by simp
  note w = words_bytes [OF block]
  show "\<forall>b \<in> set (bf_blocks f). length b = BLOCK_WORDS"
    using w(1) len by (fastforce simp: in_set_conv_nth BLOCK_WORDS_def BLOCK_BITS_def)
  show "bf_blocks f = [] \<longleftrightarrow> length data = 8" using d(1) len by (cases "bf_blocks f") auto
  have body: "concat (map block_bytes (take m (bf_blocks f))) = take (m * 64) (drop 8 data)" if "m \<le> n" for m
    using that
  proof (induction m)
    case (Suc m)
    then have "take (Suc m) (bf_blocks f) = take m (bf_blocks f) @ [bf_blocks f ! m]"
      using len by (simp add: take_Suc_conv_app_nth)
    then show ?case using Suc w(2) [of m] unfolding take_chunk by (simp add: block_bytes_def)
  qed simp
  have "concat (map block_bytes (bf_blocks f)) = drop 8 data" using body [of n] len d(1) by simp
  moreover have "u32_to_le_bytes (word_of_nat (length (bf_blocks f))) = take 4 (drop 4 data)"
  proof -
    have "length (take 4 (drop 4 data)) = 4" using d(1) by simp
    then show ?thesis unfolding len n_def by (simp add: u32_to_from_le_bytes)
  qed
  moreover have "take 4 data @ take 4 (drop 4 data) @ drop 8 data = data"
    using append_take_drop_id [of 4 data] append_take_drop_id [of 4 "drop 4 data"] by simp
  ultimately show "filter_encode f = data"
    using d(2) by (simp add: filter_encode_def block_bytes_def [abs_def])
qed

text \<open>
  C28: An accepted filter blob is the encoding of the filter it yields, whatever the bytes were: decoding
  loses nothing and accepts nothing that was not written for that filter. Probing the filter stays
  inside its blocks for every key, with one exception that decoding lets through: on a blob that is
  only a header, which says zero blocks, every probe divides by zero.
\<close>

theorem accepted_filter_is_canonical:
  assumes "filter_decode data = Inr f"
  shows "filter_encode f = data \<and> (\<forall>k. may_contain f k = None \<longleftrightarrow> length data = 8) \<and>
    (\<forall>k. length data \<noteq> 8 \<longrightarrow> fst (locate f k) < length (bf_blocks f) \<and>
       length (bf_blocks f ! fst (locate f k)) = length (snd (locate f k)))"
proof -
  note d = filter_encode_decode [OF assms]
  have "filter_ok f" if "length data \<noteq> 8" using d(2,3) that by (simp add: filter_ok_def)
  then show ?thesis using d(1,3) locate_ok by (auto simp: may_contain_def split: prod.splits)
qed

theorem accepted_filter_is_canonical_witness:
  "\<exists>f. filter_decode (u32_to_le_bytes FILTER_MAGIC @ u32_to_le_bytes 0) = Inr f \<and> (\<forall>k. may_contain f k = None)"
proof -
  have d: "filter_decode (u32_to_le_bytes FILTER_MAGIC @ u32_to_le_bytes 0) = Inr \<lparr>bf_blocks = []\<rparr>"
    by (simp add: filter_decode_def)
  with accepted_filter_is_canonical [OF d] show ?thesis by simp
qed

end
