(* ===== verification/Blocked_Table.thy ===== *)
theory Blocked_Table
  imports Pair_Table
begin

text \<open>
  The blocked encoding that \<^verbatim>\<open>src/storage/registry.rs\<close> and \<^verbatim>\<open>src/storage/members.rs\<close> share record
  for record: keys in ascending order, each with its list of values, as delta varints in blocks that
  a table of offsets and first keys points into. The registry stores the scopes of a root, the
  member index the children of a parent; both writers feed the fields grouped in \<open>blocked_writer\<close>,
  and both readers parse the same framing into a \<open>blocked_table\<close>. The two writers and readers
  themselves are in the theories of their components.

  The file relates the bytes to their meaning. A payload is described by the list of its blocks,
  each a list of records; the writer produces such a payload for the records it was given, and a
  table parsed from it finds every record in the one block that can hold it.
\<close>

section \<open>Writing\<close>

definition BLOCK_BYTES :: nat where "BLOCK_BYTES = 512"

record blocked_writer =
  bw_key :: "node_id option"
  bw_values :: "u64 list"
  bw_body :: bytes
  bw_records :: u32
  bw_first :: node_id
  bw_prev :: node_id
  bw_blocks :: bytes
  bw_offsets :: "u64 list"
  bw_block_bytes :: nat

definition bw_new :: "nat \<Rightarrow> blocked_writer" where
  "bw_new block_bytes =
     \<lparr>bw_key = None, bw_values = [], bw_body = [], bw_records = 0, bw_first = 0, bw_prev = 0,
      bw_blocks = [], bw_offsets = [], bw_block_bytes = block_bytes\<rparr>"

fun put_gaps :: "u64 \<Rightarrow> u64 list \<Rightarrow> bytes" where
  "put_gaps prev [] = []"
| "put_gaps prev (v # vs) = put_varint (v - prev) @ put_gaps v vs"

definition close_block :: "blocked_writer \<Rightarrow> blocked_writer" where
  "close_block w =
     (if bw_records w = 0 then w
      else w\<lparr>bw_offsets := bw_offsets w @ [word_of_nat (length (bw_blocks w))],
             bw_blocks := bw_blocks w @ u64_to_le_bytes (bw_first w) @ u32_to_le_bytes (bw_records w) @ bw_body w,
             bw_body := [], bw_records := 0\<rparr>)"

text \<open>The first record of a block: its key is absolute in the block header.\<close>

definition open_block :: "node_id \<Rightarrow> bytes \<Rightarrow> blocked_writer \<Rightarrow> blocked_writer" where
  "open_block key rec w = w\<lparr>bw_first := key, bw_prev := key, bw_body := rec, bw_records := 1\<rparr>"

definition close_record :: "blocked_writer \<Rightarrow> blocked_writer" where
  "close_record w =
     (case bw_key w of
        None \<Rightarrow> w
      | Some key \<Rightarrow>
          let w = w\<lparr>bw_key := None\<rparr>;
              rec = put_varint (word_of_nat (length (bw_values w))) @ put_gaps 0 (bw_values w)
          in if bw_records w > 0 then
               let gap = put_varint (key - bw_prev w) in
               if length (bw_body w) + length gap + length rec \<le> bw_block_bytes w then
                 w\<lparr>bw_body := bw_body w @ gap @ rec, bw_records := bw_records w + 1, bw_prev := key\<rparr>
               else open_block key rec (close_block w)
             else open_block key rec w)"

text \<open>One more value: for the key of the open record, or for a new one.\<close>

definition push_entry :: "node_id \<Rightarrow> u64 \<Rightarrow> blocked_writer \<Rightarrow> blocked_writer" where
  "push_entry k v w =
     (if bw_key w = Some k then w\<lparr>bw_values := bw_values w @ [v]\<rparr>
      else (close_record w)\<lparr>bw_key := Some k, bw_values := [v]\<rparr>)"

definition blocked_payload :: "u64 \<Rightarrow> blocked_writer \<Rightarrow> bytes" where
  "blocked_payload entries w =
     (let w = close_block (close_record w) in
      u64_to_le_bytes entries @ u64_to_le_bytes (word_of_nat (length (bw_offsets w))) @
      concat (map u64_to_le_bytes (bw_offsets w)) @
      u64_to_le_bytes (word_of_nat (length (bw_blocks w))) @ bw_blocks w)"

section \<open>Parsing\<close>

record blocked_table =
  bt_blocks_at :: nat
  bt_count :: nat
  bt_offsets :: "u64 list"
  bt_first_keys :: "node_id list"

text \<open>The loop that reads the first key of each block.\<close>

fun read_first_keys :: "bytes \<Rightarrow> nat \<Rightarrow> u64 list \<Rightarrow> nat list \<Rightarrow> node_id list result" where
  "read_first_keys data blocks_at offsets [] = Inr []"
| "read_first_keys data blocks_at offsets (i # is) =
     (let at = blocks_at + unat (offsets ! i) in
      ensure (offsets ! (i + 1) - offsets ! i \<ge> 12 \<and> at + 12 \<le> length data) (BlockTooShort i) (
      and_then (ok_or Panic (u64_at data at)) (\<lambda>k.
      and_then (read_first_keys data blocks_at offsets is) (\<lambda>ks. Inr (k # ks)))))"

definition blocked_parse :: "bytes \<Rightarrow> nat \<Rightarrow> nat \<Rightarrow> blocked_table result" where
  "blocked_parse data a b =
     and_then (ok_or RangeOutsideMapping (slice data a b)) (\<lambda>payload.
     ensure (16 \<le> length payload) Truncated (
     let count = u64_from_le_bytes (take 8 payload);
         blocks = u64_from_le_bytes (take 8 (drop 8 payload));
         table = unat (16 + (blocks + 1) * 8) in
     ensure (table \<le> length payload) NoRoomForOffsets (
     and_then (ok_or Panic (those (map (\<lambda>i. u64_at payload (16 + i * 8)) [0..<unat blocks + 1]))) (\<lambda>offsets.
     ensure (unat (offsets ! unat blocks) = length payload - table) LengthMismatch (
     ensure (successively (<) offsets) OffsetsNotIncreasing (
     and_then (read_first_keys data (a + table) offsets [0..<unat blocks]) (\<lambda>first_keys.
     ensure (successively (<) first_keys) FirstKeysNotSorted (
     Inr \<lparr>bt_blocks_at = a + table, bt_count = unat count, bt_offsets = offsets,
          bt_first_keys = first_keys\<rparr>))))))))"

definition blocked_heap_bytes :: "blocked_table \<Rightarrow> nat" where
  "blocked_heap_bytes t = (length (bt_offsets t) + length (bt_first_keys t)) * 8"

text \<open>The values of one record, rebuilt from their gaps.\<close>

fun read_gaps :: "bytes \<Rightarrow> nat \<Rightarrow> u64 \<Rightarrow> nat \<Rightarrow> varint_error + u64 list \<times> nat" where
  "read_gaps data 0 v i = Inr ([], i)"
| "read_gaps data (Suc k) v i =
     and_then (get_varint data i) (\<lambda>(gap, i).
     and_then (read_gaps data k (v + gap) i) (\<lambda>(vs, i). Inr ((v + gap) # vs, i)))"

section \<open>The layout\<close>

type_synonym records = "(node_id \<times> u64 list) list"

definition record_bytes :: "u64 list \<Rightarrow> bytes" where
  "record_bytes vs = put_varint (word_of_nat (length vs)) @ put_gaps 0 vs"

fun rest_bytes :: "node_id \<Rightarrow> records \<Rightarrow> bytes" where
  "rest_bytes prev [] = []"
| "rest_bytes prev ((k, vs) # rs) = put_varint (k - prev) @ record_bytes vs @ rest_bytes k rs"

fun block_body :: "records \<Rightarrow> bytes" where
  "block_body [] = []"
| "block_body ((k, vs) # rs) = record_bytes vs @ rest_bytes k rs"

definition block_layout :: "records \<Rightarrow> bytes" where
  "block_layout rs = u64_to_le_bytes (fst (hd rs)) @ u32_to_le_bytes (word_of_nat (length rs)) @ block_body rs"

text \<open>Where the blocks start, and where the last one ends.\<close>

fun starts :: "nat \<Rightarrow> bytes list \<Rightarrow> nat list" where
  "starts at [] = [at]"
| "starts at (b # bs) = at # starts (at + length b) bs"

definition layout :: "u64 \<Rightarrow> records list \<Rightarrow> bytes" where
  "layout n bs =
     u64_to_le_bytes n @ u64_to_le_bytes (word_of_nat (length bs)) @
     concat (map u64_to_le_bytes (map word_of_nat (starts 0 (map block_layout bs)))) @
     concat (map block_layout bs)"

lemma length_starts [simp]: "length (starts at bs) = Suc (length bs)"
  by (induction bs arbitrary: at) auto

lemma starts_nth: "i \<le> length bs \<Longrightarrow> starts at bs ! i = at + length (concat (take i bs))"
proof (induction bs arbitrary: at i)
  case (Cons b bs)
  then show ?case by (cases i) (auto simp: add.assoc)
qed simp

lemma starts_snoc: "starts at (bs @ [b]) = starts at bs @ [at + length (concat (bs @ [b]))]"
  by (induction bs arbitrary: at) (auto simp: add.assoc)

lemma starts_nonempty [simp]: "starts at bs \<noteq> []"
  by (cases bs) auto

lemma rest_bytes_snoc:
  "rest_bytes p (rs @ [(k, vs)]) =
     rest_bytes p rs @ put_varint (k - (if rs = [] then p else fst (last rs))) @ record_bytes vs"
  by (induction p rs rule: rest_bytes.induct) auto

lemma block_body_snoc:
  "rs \<noteq> [] \<Longrightarrow> block_body (rs @ [(k, vs)]) = block_body rs @ put_varint (k - fst (last rs)) @ record_bytes vs"
  by (cases rs) (auto simp: rest_bytes_snoc)

lemma length_put_varint: "1 \<le> length (put_varint v)"
  using put_varint_nonempty [of v] by (simp add: Suc_le_eq)

lemma length_block_body: "length rs \<le> length (block_body rs)"
proof -
  have rec: "1 \<le> length (record_bytes vs)" for vs
    using length_put_varint [of "word_of_nat (length vs)"] by (simp add: record_bytes_def)
  have "length rs \<le> length (rest_bytes p rs)" for p rs
  proof (induction p rs rule: rest_bytes.induct)
    case (2 p k vs rs)
    then show ?case using rec [of vs] by simp
  qed simp
  then show ?thesis using rec by (cases rs) (auto simp: add_le_mono [of 1, simplified])
qed

section \<open>The writer follows the layout\<close>

text \<open>The writer holds the closed blocks \<open>bs\<close> and the records \<open>rs\<close> of the open one.\<close>

definition writer_holds :: "blocked_writer \<Rightarrow> records list \<Rightarrow> records \<Rightarrow> bool" where
  "writer_holds w bs rs \<longleftrightarrow>
     bw_blocks w = concat (map block_layout bs) \<and>
     bw_offsets w @ [word_of_nat (length (bw_blocks w))] = map word_of_nat (starts 0 (map block_layout bs)) \<and>
     (\<forall>b \<in> set bs. b \<noteq> [] \<and> length b < 2 ^ 32) \<and>
     bw_records w = word_of_nat (length rs) \<and> bw_body w = block_body rs \<and>
     (rs \<noteq> [] \<longrightarrow> bw_first w = fst (hd rs) \<and> bw_prev w = fst (last rs)) \<and>
     length rs < 2 ^ 32 \<and> bw_block_bytes w < 2 ^ 32"

lemma writer_holds_new: "n < 2 ^ 32 \<Longrightarrow> writer_holds (bw_new n) [] []"
  by (simp add: writer_holds_def bw_new_def)

lemma records_zero: "length rs < 2 ^ 32 \<Longrightarrow> (word_of_nat (length rs) :: u32) = 0 \<longleftrightarrow> rs = []"
  using unat_of_nat [where 'a = 32, of "length rs"] by (auto simp: word_unat_eq_iff take_bit_eq_mod)

lemma close_block_holds:
  assumes w: "writer_holds w bs rs" and rs: "rs \<noteq> []"
  shows "writer_holds (close_block w) (bs @ [rs]) []"
proof -
  have "bw_records w \<noteq> 0" using w rs records_zero by (auto simp: writer_holds_def)
  then show ?thesis
    using w rs by (auto simp: writer_holds_def close_block_def block_layout_def starts_snoc)
qed

lemma close_block_empty: "writer_holds w bs [] \<Longrightarrow> close_block w = w"
  by (simp add: writer_holds_def close_block_def)

lemma open_block_holds:
  assumes "writer_holds w bs []"
  shows "writer_holds (open_block k (record_bytes vs) w) bs [(k, vs)]"
  using assms by (auto simp: writer_holds_def open_block_def)

lemma close_block_key: "bw_key (close_block w) = bw_key w" "bw_block_bytes (close_block w) = bw_block_bytes w"
  by (simp_all add: close_block_def)

lemma close_record_holds:
  assumes w: "writer_holds w bs rs" and k: "bw_key w = Some k"
  obtains bs' rs' where "writer_holds (close_record w) bs' rs'" and "rs' \<noteq> []"
    and "concat bs' @ rs' = concat bs @ rs @ [(k, bw_values w)]" and "bw_key (close_record w) = None"
proof -
  let ?w = "w\<lparr>bw_key := None\<rparr>" and ?vs = "bw_values w"
  let ?gap = "put_varint (k - bw_prev w)"
  have w': "writer_holds ?w bs rs" using w by (auto simp: writer_holds_def)
  show thesis
  proof (cases "rs = []")
    case True
    then have "bw_records w = 0" using w by (simp add: writer_holds_def)
    then have "close_record w = open_block k (record_bytes ?vs) ?w"
      using k by (simp add: close_record_def record_bytes_def Let_def)
    then show thesis
      using that [of bs "[(k, ?vs)]"] open_block_holds [of ?w bs k ?vs] w' True by (simp add: open_block_def)
  next
    case ne: False
    then have pos: "bw_records w > 0"
      using w records_zero [of rs] by (simp add: writer_holds_def word_neq_0_conv [symmetric])
    show thesis
    proof (cases "length (bw_body w) + length ?gap + length (record_bytes ?vs) \<le> bw_block_bytes w")
      case fits: True
      then have r: "close_record w = ?w\<lparr>bw_body := bw_body w @ ?gap @ record_bytes ?vs,
          bw_records := bw_records w + 1, bw_prev := k\<rparr>"
        using k pos by (simp add: close_record_def record_bytes_def Let_def)
      have body: "block_body (rs @ [(k, ?vs)]) = bw_body w @ ?gap @ record_bytes ?vs"
        using w ne by (simp add: writer_holds_def block_body_snoc)
      then have "length (rs @ [(k, ?vs)]) \<le> bw_block_bytes w"
        using length_block_body [of "rs @ [(k, ?vs)]"] fits by simp
      moreover have "bw_block_bytes w < 2 ^ 32" using w by (simp add: writer_holds_def)
      ultimately have small: "length (rs @ [(k, ?vs)]) < 2 ^ 32" by linarith
      have "writer_holds (close_record w) bs (rs @ [(k, ?vs)])"
        using w ne small by (auto simp: writer_holds_def r block_body_snoc)
      then show thesis using that [of bs "rs @ [(k, ?vs)]"] by (simp add: r)
    next
      case full: False
      then have r: "close_record w = open_block k (record_bytes ?vs) (close_block ?w)"
        using k pos by (simp add: close_record_def record_bytes_def Let_def)
      show thesis
        using that [of "bs @ [rs]" "[(k, ?vs)]"] open_block_holds [OF close_block_holds [OF w' ne], of k ?vs]
        by (simp add: r open_block_def close_block_key)
    qed
  qed
qed

lemma blocked_payload_layout:
  assumes w: "writer_holds w bs rs" and ne: "bw_key w \<noteq> None"
  obtains bs' where "blocked_payload n w = layout n bs'" and "\<forall>b \<in> set bs'. b \<noteq> [] \<and> length b < 2 ^ 32"
    and "concat bs' = concat bs @ rs @ [(the (bw_key w), bw_values w)]"
proof -
  obtain k where k: "bw_key w = Some k" using ne by blast
  obtain bs' rs' where c: "writer_holds (close_record w) bs' rs'" "rs' \<noteq> []"
    "concat bs' @ rs' = concat bs @ rs @ [(k, bw_values w)]"
    using close_record_holds [OF w k] by metis
  let ?w = "close_block (close_record w)"
  have h: "writer_holds ?w (bs' @ [rs']) []" using close_block_holds [OF c(1,2)] .
  then have off: "bw_offsets ?w @ [word_of_nat (length (bw_blocks ?w))] =
      map word_of_nat (starts 0 (map block_layout (bs' @ [rs'])))"
    and blocks: "bw_blocks ?w = concat (map block_layout (bs' @ [rs']))"
    and small: "\<forall>b \<in> set (bs' @ [rs']). b \<noteq> [] \<and> length b < 2 ^ 32"
    unfolding writer_holds_def by blast+
  have "length (bw_offsets ?w) = length (bs' @ [rs'])"
    using arg_cong [OF off, of length] by simp
  moreover have "concat (map u64_to_le_bytes (bw_offsets ?w)) @ u64_to_le_bytes (word_of_nat (length (bw_blocks ?w))) =
      concat (map u64_to_le_bytes (map word_of_nat (starts 0 (map block_layout (bs' @ [rs'])))))"
    unfolding off [symmetric] by simp
  ultimately have "blocked_payload n w = layout n (bs' @ [rs'])"
    unfolding blocked_payload_def layout_def Let_def blocks [symmetric] by simp
  then show thesis using that [of "bs' @ [rs']"] small c(3) k by simp
qed

section \<open>The parsed table points at the blocks\<close>

text \<open>The blocks \<open>bs\<close> lie in the mapping where the table says they do.\<close>

definition table_blocks :: "blocked_table \<Rightarrow> bytes \<Rightarrow> records list \<Rightarrow> bool" where
  "table_blocks t data bs \<longleftrightarrow>
     bt_first_keys t = map (\<lambda>b. fst (hd b)) bs \<and> (\<forall>b \<in> set bs. b \<noteq> [] \<and> length b < 2 ^ 32) \<and>
     (\<forall>j < length bs. \<exists>pre suf. data = pre @ block_layout (bs ! j) @ suf \<and>
        length pre = bt_blocks_at t + unat (bt_offsets t ! j) \<and>
        unat (bt_offsets t ! Suc j) = unat (bt_offsets t ! j) + length (block_layout (bs ! j)))"

lemma slice_split: "slice data a b = Some xs \<Longrightarrow> \<exists>pre suf. data = pre @ xs @ suf \<and> length pre = a \<and> b = a + length xs"
  by (rule exI [of _ "take a data"], rule exI [of _ "drop (b - a) (drop a data)"])
    (auto simp: slice_def append_take_drop_id simp del: drop_drop split: if_splits)

lemma length_block_layout: "12 \<le> length (block_layout b)"
  by (simp add: block_layout_def)

lemma read_first_keys_spec:
  assumes "\<And>i. i \<in> set is \<Longrightarrow> 12 \<le> offsets ! (i + 1) - offsets ! i \<and>
      blocks_at + unat (offsets ! i) + 12 \<le> length data \<and>
      u64_at data (blocks_at + unat (offsets ! i)) = Some (f i)"
  shows "read_first_keys data blocks_at offsets is = Inr (map f is)"
  using assms by (induction "is") (simp_all add: Let_def)

lemma gap_of_offsets: "unat x + 12 \<le> unat y \<Longrightarrow> 12 \<le> (y :: u64) - x"
  using unat_sub [of x y] by (simp add: word_le_nat_alt)

text \<open>Where the blocks of a layout start, and its header.\<close>

definition block_start :: "records list \<Rightarrow> nat \<Rightarrow> nat" where
  "block_start bs i = length (concat (take i (map block_layout bs)))"

abbreviation layout_offsets :: "records list \<Rightarrow> u64 list" where
  "layout_offsets bs \<equiv> map word_of_nat (starts 0 (map block_layout bs))"

abbreviation table_size :: "records list \<Rightarrow> nat" where
  "table_size bs \<equiv> 16 + Suc (length bs) * 8"

lemma block_start_Suc: "i < length bs \<Longrightarrow> block_start bs (Suc i) = block_start bs i + length (block_layout (bs ! i))"
  by (simp add: block_start_def take_Suc_conv_app_nth)

lemma block_start_le: "block_start bs i \<le> length (concat (map block_layout bs))"
  unfolding block_start_def using append_take_drop_id [of i "map block_layout bs"]
  by (metis concat_append length_append le_add1)

lemma layout_split:
  obtains head where "layout n bs = head @ concat (map block_layout bs)" and "length head = table_size bs"
    and "head = u64_to_le_bytes n @ u64_to_le_bytes (word_of_nat (length bs)) @ concat (map u64_to_le_bytes (layout_offsets bs))"
proof
  show "layout n bs = (u64_to_le_bytes n @ u64_to_le_bytes (word_of_nat (length bs)) @
      concat (map u64_to_le_bytes (layout_offsets bs))) @ concat (map block_layout bs)"
    by (simp add: layout_def)
  show "length (u64_to_le_bytes n @ u64_to_le_bytes (word_of_nat (length bs)) @
      concat (map u64_to_le_bytes (layout_offsets bs))) = table_size bs"
    by (simp add: length_concat_stride [of u64_to_le_bytes 8] del: map_map)
qed simp

lemma length_layout: "length (layout n bs) = table_size bs + length (concat (map block_layout bs))"
  by (rule layout_split [of n bs]) simp

lemma layout_offset:
  assumes "length (layout n bs) < 2 ^ 64" and "i \<le> length bs"
  shows "unat (layout_offsets bs ! i) = block_start bs i"
proof -
  have "starts 0 (map block_layout bs) ! i = block_start bs i"
    using starts_nth [of i "map block_layout bs" 0] assms(2) by (simp add: block_start_def)
  moreover have "block_start bs i < 2 ^ 64"
    using assms(1) block_start_le [of bs i] by (simp add: length_layout)
  ultimately show ?thesis using assms(2) unat_word_of_nat_small [of "block_start bs i"] by simp
qed

lemma layout_block_at:
  assumes sl: "slice data a b = Some (layout n bs)" and i: "i < length bs"
  obtains p q where "data = p @ block_layout (bs ! i) @ q" and "length p = a + table_size bs + block_start bs i"
proof -
  let ?L = "map block_layout bs"
  obtain pre suf where data: "data = pre @ layout n bs @ suf" "length pre = a"
    using slice_split [OF sl] by blast
  obtain head where head: "layout n bs = head @ concat ?L" "length head = table_size bs"
    by (rule layout_split)
  have "concat ?L = concat (take i ?L) @ block_layout (bs ! i) @ concat (drop (Suc i) ?L)"
    using id_take_nth_drop [of i ?L] i by (metis concat.simps(2) concat_append length_map nth_map)
  then show thesis
    using that [of "pre @ head @ concat (take i ?L)" "concat (drop (Suc i) ?L) @ suf"] data head
    by (simp add: block_start_def)
qed

lemma layout_first_keys:
  assumes sl: "slice data a b = Some (layout n bs)" and fit: "length (layout n bs) < 2 ^ 64"
  shows "read_first_keys data (a + table_size bs) (layout_offsets bs) [0..<length bs] = Inr (map (\<lambda>b. fst (hd b)) bs)"
proof -
  have "read_first_keys data (a + table_size bs) (layout_offsets bs) [0..<length bs] =
      Inr (map (\<lambda>i. fst (hd (bs ! i))) [0..<length bs])"
  proof (rule read_first_keys_spec)
    fix i assume "i \<in> set [0..<length bs]"
    then have i: "i < length bs" by simp
    obtain p q where d: "data = p @ block_layout (bs ! i) @ q" "length p = a + table_size bs + block_start bs i"
      using layout_block_at [OF sl i] .
    have off: "unat (layout_offsets bs ! i) = block_start bs i"
      "unat (layout_offsets bs ! Suc i) = block_start bs i + length (block_layout (bs ! i))"
      using layout_offset [OF fit] block_start_Suc i by simp_all
    have "u64_at data (a + table_size bs + block_start bs i) = Some (fst (hd (bs ! i)))"
      using d by (intro u64_at_middle [of _ p _ "u32_to_le_bytes (word_of_nat (length (bs ! i))) @ block_body (bs ! i) @ q"])
        (auto simp: block_layout_def)
    then show "12 \<le> layout_offsets bs ! (i + 1) - layout_offsets bs ! i \<and>
        a + table_size bs + unat (layout_offsets bs ! i) + 12 \<le> length data \<and>
        u64_at data (a + table_size bs + unat (layout_offsets bs ! i)) = Some (fst (hd (bs ! i)))"
      using gap_of_offsets [of "layout_offsets bs ! i" "layout_offsets bs ! Suc i"] off d
        length_block_layout [of "bs ! i"] by simp
  qed
  also have "map (\<lambda>i. fst (hd (bs ! i))) [0..<length bs] = map (\<lambda>b. fst (hd b)) bs"
    by (rule nth_equalityI) simp_all
  finally show ?thesis .
qed

lemma layout_offsets_increase:
  assumes fit: "length (layout n bs) < 2 ^ 64"
  shows "successively (<) (layout_offsets bs)"
  unfolding successively_conv_nth
proof (intro allI impI)
  fix i assume "Suc i < length (layout_offsets bs)"
  then have i: "i < length bs" by simp
  have "unat (layout_offsets bs ! i) = block_start bs i"
    "unat (layout_offsets bs ! Suc i) = block_start bs i + length (block_layout (bs ! i))"
    using layout_offset [OF fit] block_start_Suc i by simp_all
  then have "unat (layout_offsets bs ! i) < unat (layout_offsets bs ! Suc i)"
    using length_block_layout [of "bs ! i"] by linarith
  then show "layout_offsets bs ! i < layout_offsets bs ! Suc i" by (simp only: word_less_nat_alt)
qed

lemma blocked_parse_layout:
  assumes sl: "slice data a b = Some (layout n bs)" and fit: "length (layout n bs) < 2 ^ 64"
    and bs: "\<forall>b \<in> set bs. b \<noteq> [] \<and> length b < 2 ^ 32" and keys: "sorted_wrt (<) (map (\<lambda>b. fst (hd b)) bs)"
  obtains t where "blocked_parse data a b = Inr t" and "bt_count t = unat n" and "table_blocks t data bs"
proof -
  let ?B = "length bs" and ?T = "table_size bs"
  let ?t = "\<lparr>bt_blocks_at = a + ?T, bt_count = unat n, bt_offsets = layout_offsets bs,
    bt_first_keys = map (\<lambda>b. fst (hd b)) bs\<rparr>"
  obtain head where lay: "layout n bs = head @ concat (map block_layout bs)"
    "head = u64_to_le_bytes n @ u64_to_le_bytes (word_of_nat ?B) @ concat (map u64_to_le_bytes (layout_offsets bs))"
    by (rule layout_split)
  have B: "unat (word_of_nat ?B :: u64) = ?B" using length_layout [of n bs] fit by (intro unat_word_of_nat_small) simp
  have T: "unat (16 + (word_of_nat ?B + 1) * 8 :: u64) = ?T"
    using unat_word_of_nat_small [of ?T] length_layout [of n bs] fit by (simp add: algebra_simps)
  have reads: "those (map (\<lambda>i. u64_at (layout n bs) (16 + i * 8)) [0..<?B + 1]) = Some (layout_offsets bs)"
    using words_at [of "layout n bs" "u64_to_le_bytes n @ u64_to_le_bytes (word_of_nat ?B)" "layout_offsets bs"] lay
    by simp
  have last: "unat (layout_offsets bs ! ?B) = length (layout n bs) - ?T"
    using layout_offset [OF fit, of ?B] length_layout [of n bs] by (simp add: block_start_def)
  have h: "take 8 (layout n bs) = u64_to_le_bytes n" "take 8 (drop 8 (layout n bs)) = u64_to_le_bytes (word_of_nat ?B)"
    by (simp_all add: lay)
  have "successively (<) (map (\<lambda>b. fst (hd b)) bs)" using keys by (rule successively_if_sorted_wrt)
  moreover have "16 \<le> length (layout n bs)" "?T \<le> length (layout n bs)" using length_layout [of n bs] by simp_all
  ultimately have "blocked_parse data a b = Inr ?t"
    using reads last layout_offsets_increase [OF fit] layout_first_keys [OF sl fit]
    by (simp only: blocked_parse_def sl ok_or.simps and_then.simps ensure_True h u64_from_to_le_bytes B T Let_def)
  moreover have "table_blocks ?t data bs"
    unfolding table_blocks_def
  proof (intro conjI allI impI)
    fix j assume j: "j < ?B"
    from layout_block_at [OF sl j]
    show "\<exists>p q. data = p @ block_layout (bs ! j) @ q \<and> length p = bt_blocks_at ?t + unat (bt_offsets ?t ! j) \<and>
        unat (bt_offsets ?t ! Suc j) = unat (bt_offsets ?t ! j) + length (block_layout (bs ! j))"
      using layout_offset [OF fit, of j] layout_offset [OF fit, of "Suc j"] block_start_Suc [OF j] j
      by (metis Suc_leI blocked_table.select_convs(1,3) less_imp_le)
  qed (use bs in auto)
  ultimately show thesis using that by simp
qed

section \<open>Entries and records\<close>

definition ungroup :: "('k \<times> 'v list) list \<Rightarrow> ('k \<times> 'v) list" where
  "ungroup rs = concat (map (\<lambda>(k, vs). map (Pair k) vs) rs)"

lemma ungroup_simps [simp]:
  "ungroup [] = []" "ungroup ((k, vs) # rs) = map (Pair k) vs @ ungroup rs"
  "ungroup (rs @ rs') = ungroup rs @ ungroup rs'"
  by (simp_all add: ungroup_def)

lemma filter_ungroup_other: "k \<notin> fst ` set rs \<Longrightarrow> filter (\<lambda>e. fst e = k) (ungroup rs) = []"
  by (induction rs) (auto simp: filter_empty_conv)

lemma filter_ungroup:
  assumes "distinct (map fst rs)"
  shows "map snd (filter (\<lambda>e. fst e = k) (ungroup rs)) = (case map_of rs k of None \<Rightarrow> [] | Some vs \<Rightarrow> vs)"
  using assms
proof (induction rs)
  case (Cons r rs)
  obtain x vs where r: "r = (x, vs)" by fastforce
  have "filter (\<lambda>e. fst e = k) (map (Pair x) vs) = (if x = k then map (Pair x) vs else [])"
    by (induction vs) auto
  then show ?case using Cons filter_ungroup_other [of k rs] by (auto simp: r comp_def)
qed simp

text \<open>The writer holds the entries \<open>es\<close>, grouped by key.\<close>

definition holds_entries :: "blocked_writer \<Rightarrow> (node_id \<times> u64) list \<Rightarrow> bool" where
  "holds_entries w es \<longleftrightarrow> (\<exists>bs rs. writer_holds w bs rs \<and>
     (case bw_key w of
        None \<Rightarrow> es = [] \<and> bs = [] \<and> rs = []
      | Some k \<Rightarrow> bw_values w \<noteq> [] \<and> ungroup (concat bs @ rs @ [(k, bw_values w)]) = es \<and>
          sorted_wrt (<) (map fst (concat bs @ rs @ [(k, bw_values w)]))))"

lemma holds_entries_new: "n < 2 ^ 32 \<Longrightarrow> holds_entries (bw_new n) []"
  using writer_holds_new [of n] by (force simp: holds_entries_def bw_new_def)

lemma holds_entries_last:
  assumes "holds_entries w es" and "bw_key w = Some k"
  shows "es \<noteq> []" and "last es = (k, last (bw_values w))"
  using assms by (auto simp: holds_entries_def last_map)

lemma push_entry_holds:
  assumes w: "holds_entries w es" and ord: "es \<noteq> [] \<Longrightarrow> fst (last es) \<le> k"
  shows "holds_entries (push_entry k v w) (es @ [(k, v)])"
proof -
  obtain bs rs where h: "writer_holds w bs rs"
    and c: "case bw_key w of None \<Rightarrow> es = [] \<and> bs = [] \<and> rs = []
      | Some k \<Rightarrow> bw_values w \<noteq> [] \<and> ungroup (concat bs @ rs @ [(k, bw_values w)]) = es \<and>
          sorted_wrt (<) (map fst (concat bs @ rs @ [(k, bw_values w)]))"
    using w unfolding holds_entries_def by blast
  show ?thesis
  proof (cases "bw_key w")
    case None
    then have "push_entry k v w = w\<lparr>bw_key := Some k, bw_values := [v]\<rparr>"
      by (simp add: push_entry_def close_record_def)
    moreover have "writer_holds (w\<lparr>bw_key := Some k, bw_values := [v]\<rparr>) [] []"
      using h c None by (auto simp: writer_holds_def)
    ultimately show ?thesis using c None by (force simp: holds_entries_def)
  next
    case (Some x)
    note S = c [unfolded Some, simplified]
    show ?thesis
    proof (cases "x = k")
      case True
      have "writer_holds (w\<lparr>bw_values := bw_values w @ [v]\<rparr>) bs rs" using h by (auto simp: writer_holds_def)
      then show ?thesis using S Some True by (force simp: holds_entries_def push_entry_def)
    next
      case False
      have "last es = (x, last (bw_values w))" "es \<noteq> []"
        using holds_entries_last [OF w Some] by simp_all
      with ord False have lt: "x < k" by simp
      obtain bs' rs' where c: "writer_holds (close_record w) bs' rs'"
        "concat bs' @ rs' = concat bs @ rs @ [(x, bw_values w)]"
        using close_record_holds [OF h Some] by metis
      let ?w = "(close_record w)\<lparr>bw_key := Some k, bw_values := [v]\<rparr>"
      have w': "writer_holds ?w bs' rs'" using c(1) by (auto simp: writer_holds_def)
      have e: "concat bs' @ rs' @ [(k, [v])] = (concat bs @ rs @ [(x, bw_values w)]) @ [(k, [v])]"
        using c(2) by (simp only: append_assoc [symmetric])
      have "ungroup (concat bs' @ rs' @ [(k, [v])]) = es @ [(k, v)]"
        unfolding e using S by auto
      moreover have "sorted_wrt (<) (map fst (concat bs' @ rs' @ [(k, [v])]))"
        unfolding e using S lt by (fastforce simp: sorted_wrt_append)
      ultimately show ?thesis
        using w' Some False unfolding holds_entries_def push_entry_def by (intro exI [of _ bs'] exI [of _ rs']) simp
    qed
  qed
qed

lemma holds_entries_payload:
  assumes w: "holds_entries w es" and ne: "es \<noteq> []"
  obtains bs where "blocked_payload n w = layout n bs" and "ungroup (concat bs) = es"
    and "sorted_wrt (<) (map fst (concat bs))" and "\<forall>b \<in> set bs. b \<noteq> [] \<and> length b < 2 ^ 32"
proof -
  obtain bs rs k where h: "writer_holds w bs rs" and k: "bw_key w = Some k"
    and c: "ungroup (concat bs @ rs @ [(k, bw_values w)]) = es"
      "sorted_wrt (<) (map fst (concat bs @ rs @ [(k, bw_values w)]))"
    using w ne unfolding holds_entries_def by (auto split: option.splits)
  obtain bs' where "blocked_payload n w = layout n bs'" "\<forall>b \<in> set bs'. b \<noteq> [] \<and> length b < 2 ^ 32"
    "concat bs' = concat bs @ rs @ [(k, bw_values w)]"
    by (rule blocked_payload_layout [OF h, of n]) (use k in auto)
  then show thesis using that [of bs'] c by simp
qed

section \<open>Finding a record\<close>

lemma block_for_key:
  fixes bs :: "('k::linorder \<times> 'v) list list" and x :: 'k
  assumes "sorted_wrt (<) (map fst (concat bs))" and "\<forall>b \<in> set bs. b \<noteq> []"
  defines "after \<equiv> partition_point (\<lambda>k. k \<le> x) (map (\<lambda>b. fst (hd b)) bs)"
  shows "after = 0 \<Longrightarrow> map_of (concat bs) x = None"
    and "0 < after \<Longrightarrow> after - 1 < length bs \<and> map_of (concat bs) x = map_of (bs ! (after - 1)) x"
proof -
  have "(after = 0 \<longrightarrow> map_of (concat bs) x = None) \<and>
      (0 < after \<longrightarrow> after - 1 < length bs \<and> map_of (concat bs) x = map_of (bs ! (after - 1)) x)"
    using assms(1,2) unfolding after_def
  proof (induction bs)
    case (Cons b bs)
    let ?p = "partition_point (\<lambda>k. k \<le> x) (map (\<lambda>b. fst (hd b)) bs)"
    obtain k v b' where b: "b = (k, v) # b'" using Cons(3) by (cases b) auto
    show ?case
    proof (cases "k \<le> x")
      case True
      then have p: "partition_point (\<lambda>k. k \<le> x) (map (\<lambda>b. fst (hd b)) (b # bs)) = Suc ?p"
        by (simp add: partition_point_def b)
      have IH: "(?p = 0 \<longrightarrow> map_of (concat bs) x = None) \<and>
          (0 < ?p \<longrightarrow> ?p - 1 < length bs \<and> map_of (concat bs) x = map_of (bs ! (?p - 1)) x)"
        using Cons by (simp add: sorted_wrt_append)
      show ?thesis
      proof (cases "?p = 0")
        case True
        then show ?thesis using IH p by (simp add: map_add_def split: option.split)
      next
        case False
        then obtain c bs' where bs: "bs = c # bs'" "fst (hd c) \<le> x" "c \<noteq> []"
          using Cons(3) by (cases bs) (auto simp: partition_point_def split: if_splits)
        have "fst y < fst (hd c)" if "y \<in> set b" for y
          using Cons(2) that bs(3) by (auto simp: sorted_wrt_append bs(1))
        with bs(2) have "x \<notin> fst ` set b" by force
        then have "map_of b x = None" by (simp add: map_of_eq_None_iff)
        then show ?thesis using IH p False by (auto simp: map_add_def split: option.splits)
      qed
    next
      case False
      have "k \<le> fst y" if "y \<in> set (concat (b # bs))" for y
        using Cons(2) that by (fastforce simp: b sorted_wrt_append intro: less_imp_le)
      with False have "x < fst y" if "y \<in> set (concat (b # bs))" for y
        using that by (meson le_less_trans not_le order_less_le_trans)
      then have "x \<notin> fst ` set (concat (b # bs))" by force
      then have "map_of (concat (b # bs)) x = None" by (rule map_of_eq_None_iff [THEN iffD2])
      then show ?thesis using False by (simp add: partition_point_def b)
    qed
  qed (simp add: partition_point_def)
  then show "after = 0 \<Longrightarrow> map_of (concat bs) x = None"
    and "0 < after \<Longrightarrow> after - 1 < length bs \<and> map_of (concat bs) x = map_of (bs ! (after - 1)) x"
    by blast+
qed

lemma first_keys_ascend:
  "sorted_wrt (<) (map fst (concat bs)) \<Longrightarrow> \<forall>b \<in> set bs. b \<noteq> [] \<Longrightarrow>
     sorted_wrt (<) (map (\<lambda>b. fst (hd b)) bs)"
proof (induction bs)
  case (Cons b bs)
  have "fst (hd b) < fst (hd c)" if "c \<in> set bs" for c
  proof -
    have "hd b \<in> set b" "hd c \<in> set c" using Cons(3) that by auto
    then show ?thesis using Cons(2) that by (auto simp: sorted_wrt_append)
  qed
  then show ?case using Cons by (simp add: sorted_wrt_append)
qed simp

lemma read_gaps_put:
  "data = pre @ put_gaps v vs @ suf \<Longrightarrow> i = length pre \<Longrightarrow>
     read_gaps data (length vs) v i = Inr (vs, i + length (put_gaps v vs))"
proof (induction vs arbitrary: pre v i)
  case (Cons x vs)
  have "get_varint data i = Inr (x - v, i + length (put_varint (x - v)))"
    using Cons(2,3) by (intro get_put_varint [of _ pre _ "put_gaps x vs @ suf"]) auto
  moreover have "read_gaps data (length vs) x (i + length (put_varint (x - v))) =
      Inr (vs, i + length (put_varint (x - v)) + length (put_gaps x vs))"
    using Cons(2,3) by (intro Cons(1) [of "pre @ put_varint (x - v)"]) auto
  ultimately show ?case by simp
qed simp

lemma length_put_gaps: "length vs \<le> length (put_gaps v vs)"
proof (induction vs arbitrary: v)
  case (Cons x vs)
  then show ?case using add_mono [OF length_put_varint [of "x - v"] Cons [of x]] by simp
qed simp

lemma length_values_le:
  assumes "(k, vs) \<in> set (concat bs)"
  shows "length vs \<le> length (layout n bs)"
proof -
  have rest: "length vs \<le> length (rest_bytes p rs)" if "(k, vs) \<in> set rs" for p rs
    using that length_put_gaps [of vs 0] by (induction p rs rule: rest_bytes.induct) (auto simp: record_bytes_def)
  obtain b where b: "b \<in> set bs" "(k, vs) \<in> set b" using assms by auto
  have "length vs \<le> length (block_body b)"
  proof (cases b rule: block_body.cases)
    case (2 x ws rs)
    then show ?thesis
      using b(2) rest [of rs x] length_put_gaps [of vs 0] by (auto simp: record_bytes_def)
  qed (use b(2) in simp)
  also have "\<dots> \<le> length (block_layout b)" by (simp add: block_layout_def)
  also have "\<dots> \<le> length (concat (map block_layout bs))"
    using b(1) by (induction bs) auto
  finally show ?thesis by (simp add: length_layout)
qed

lemma values_small:
  assumes "length (layout n bs) < 2 ^ 64"
  shows "\<forall>(k, vs) \<in> set (concat bs). length vs < 2 ^ 64"
proof clarify
  fix k vs assume "(k, vs) \<in> set (concat bs)"
  from length_values_le [OF this] assms show "length vs < 2 ^ 64" by (rule le_less_trans)
qed

lemma read_record:
  assumes "data = pre @ record_bytes vs @ suf" and "i = length pre" and "length vs < 2 ^ 64"
  obtains j where "get_varint data i = Inr (word_of_nat (length vs), j)"
    and "unat (word_of_nat (length vs) :: u64) = length vs"
    and "read_gaps data (length vs) 0 j = Inr (vs, i + length (record_bytes vs))"
proof
  let ?k = "put_varint (word_of_nat (length vs))"
  show "get_varint data i = Inr (word_of_nat (length vs), i + length ?k)"
    using assms(1,2) by (intro get_put_varint [of _ pre _ "put_gaps 0 vs @ suf"]) (auto simp: record_bytes_def)
  show "unat (word_of_nat (length vs) :: u64) = length vs"
    using assms(3) by (rule unat_word_of_nat_small)
  show "read_gaps data (length vs) 0 (i + length ?k) = Inr (vs, i + length (record_bytes vs))"
    using read_gaps_put [of data "pre @ ?k" 0 vs suf] assms(1,2) by (simp add: record_bytes_def)
qed

lemma table_block:
  assumes "table_blocks t data bs" and "j < length bs"
  defines "at \<equiv> bt_blocks_at t + unat (bt_offsets t ! j)"
  obtains pre suf where "data = pre @ block_body (bs ! j) @ suf" and "length pre = at + 12"
    and "u32_at data (at + 8) = Some (word_of_nat (length (bs ! j)))"
    and "unat (word_of_nat (length (bs ! j)) :: u32) = length (bs ! j)"
    and "bt_first_keys t ! j = fst (hd (bs ! j))"
    and "at + 12 + length (block_body (bs ! j)) = bt_blocks_at t + unat (bt_offsets t ! (j + 1))"
    and "bs ! j \<noteq> []"
proof -
  obtain pre suf where d: "data = pre @ block_layout (bs ! j) @ suf" "length pre = at"
    "unat (bt_offsets t ! Suc j) = unat (bt_offsets t ! j) + length (block_layout (bs ! j))"
    using assms(1,2) unfolding table_blocks_def at_def by blast
  let ?k = "u64_to_le_bytes (fst (hd (bs ! j)))" and ?n = "word_of_nat (length (bs ! j)) :: u32"
  have lay: "block_layout (bs ! j) = ?k @ u32_to_le_bytes ?n @ block_body (bs ! j)"
    by (simp add: block_layout_def)
  have small: "bs ! j \<noteq> []" "length (bs ! j) < 2 ^ 32"
    using assms(1,2) by (simp_all add: table_blocks_def)
  have 1: "data = (pre @ ?k @ u32_to_le_bytes ?n) @ block_body (bs ! j) @ suf"
    "length (pre @ ?k @ u32_to_le_bytes ?n) = at + 12" using d lay by simp_all
  have 2: "u32_at data (at + 8) = Some ?n"
    using d lay by (intro u32_at_middle [of _ "pre @ ?k" _ "block_body (bs ! j) @ suf"]) auto
  have 3: "unat ?n = length (bs ! j)" using small by (simp add: unat_of_nat take_bit_eq_mod)
  have 4: "bt_first_keys t ! j = fst (hd (bs ! j))" using assms(1,2) by (simp add: table_blocks_def)
  have 5: "at + 12 + length (block_body (bs ! j)) = bt_blocks_at t + unat (bt_offsets t ! (j + 1))"
    using d(3) lay by (simp add: at_def)
  show thesis using that [OF 1 2 3 4 5 small(1)] .
qed

lemma sorted_block: "b \<in> set bs \<Longrightarrow> sorted_wrt (<) (map fst (concat bs)) \<Longrightarrow> sorted_wrt (<) (map fst b)"
  by (induction bs) (auto simp: sorted_wrt_append)

end
