(* ===== verification/Registry_Codec.thy ===== *)
theory Registry_Codec
  imports Blocked_Table
begin

text \<open>
  The registry of \<^verbatim>\<open>src/storage/registry.rs\<close>: which scopes hold overlay state on a shared root. The
  writer emits the flat encoding of \<^verbatim>\<open>src/storage/base.rs\<close> or the blocked one; the reader decodes
  the single block that can hold a root, and the iterator decodes all of them in order.

  Entries pushed in ascending order come back: the scopes of every root are the ones pushed for it,
  and the iterator lists the entries in the order they were pushed.
\<close>

section \<open>The writer\<close>

datatype registry_encoding = Flat | Blocked

definition registry_encoding_from_str :: "string \<Rightarrow> string + registry_encoding" where
  "registry_encoding_from_str s =
     (if s = ''flat'' \<or> s = ''v1'' then Inr Flat
      else if s = ''blocked'' \<or> s = ''varint'' \<or> s = ''v2'' then Inr Blocked
      else Inl s)"

definition registry_encoding_to_str :: "registry_encoding \<Rightarrow> string" where
  "registry_encoding_to_str e = (case e of Flat \<Rightarrow> ''flat'' | Blocked \<Rightarrow> ''blocked'')"

definition FLAT_BLOB_TYPE :: string where "FLAT_BLOB_TYPE = ''blaze-registry-v1''"
definition BLOCKED_BLOB_TYPE :: string where "BLOCKED_BLOB_TYPE = ''blaze-registry-v2''"

record registry_writer =
  rw_encoding :: registry_encoding
  rw_entries :: u64
  rw_flat :: bytes
  rw_blk :: blocked_writer

definition rw_with_block_size :: "registry_encoding \<Rightarrow> nat \<Rightarrow> registry_writer" where
  "rw_with_block_size encoding block_bytes =
     \<lparr>rw_encoding = encoding, rw_entries = 0,
      rw_flat = (if encoding = Flat then u64_to_le_bytes 0 else []),
      rw_blk = bw_new block_bytes\<rparr>"

definition rw_new :: "registry_encoding \<Rightarrow> registry_writer" where
  "rw_new encoding = rw_with_block_size encoding BLOCK_BYTES"

definition rw_push :: "node_id \<times> scope_id \<Rightarrow> registry_writer \<Rightarrow> registry_writer" where
  "rw_push e w =
     (let (root, scope) = e in
      case rw_encoding w of
        Flat \<Rightarrow> w\<lparr>rw_flat := rw_flat w @ u64_to_le_bytes root @ u32_to_le_bytes scope, rw_entries := rw_entries w + 1\<rparr>
      | Blocked \<Rightarrow>
          if bw_key (rw_blk w) = Some root \<and> bw_values (rw_blk w) \<noteq> [] \<and> last (bw_values (rw_blk w)) = ucast scope then w
          else w\<lparr>rw_blk := push_entry root (ucast scope) (rw_blk w), rw_entries := rw_entries w + 1\<rparr>)"

definition rw_finish :: "registry_writer \<Rightarrow> (string \<times> bytes) option" where
  "rw_finish w =
     (if rw_entries w = 0 then None
      else case rw_encoding w of
        Flat \<Rightarrow> Some (FLAT_BLOB_TYPE, u64_to_le_bytes (rw_entries w) @ drop 8 (rw_flat w))
      | Blocked \<Rightarrow> Some (BLOCKED_BLOB_TYPE, blocked_payload (rw_entries w) (rw_blk w)))"

section \<open>The reader\<close>

definition blocked_registry_parse :: "bytes \<Rightarrow> nat \<Rightarrow> nat \<Rightarrow> blocked_table result" where
  "blocked_registry_parse data a b = blocked_parse data a b"

text \<open>The loop over the records of a block, which stops at the first root past the wanted one.\<close>

fun registry_records :: "bytes \<Rightarrow> nat \<Rightarrow> node_id \<Rightarrow> nat \<Rightarrow> bool \<Rightarrow> node_id \<Rightarrow> nat \<Rightarrow> scope_id list result" where
  "registry_records data fin want 0 first cur i = Inr []"
| "registry_records data fin want (Suc n) first cur i =
     and_then (if first then Inr (cur, i)
               else map_err VarintError (and_then (get_varint data i) (\<lambda>(gap, next). Inr (cur + gap, next)))) (\<lambda>(cur, i).
     and_then (map_err VarintError (get_varint data i)) (\<lambda>(k, i).
     if cur > want then Inr []
     else and_then (map_err VarintError (read_gaps data (unat k) 0 i)) (\<lambda>(scopes, i).
       if cur = want then Inr (map ucast scopes)
       else ensure (i \<le> fin) RecordPastBlock (registry_records data fin want n False cur i))))"

definition registry_decode_block :: "blocked_table \<Rightarrow> bytes \<Rightarrow> nat \<Rightarrow> node_id \<Rightarrow> scope_id list result" where
  "registry_decode_block t data block want =
     (let at = bt_blocks_at t + unat (bt_offsets t ! block);
          fin = bt_blocks_at t + unat (bt_offsets t ! (block + 1)) in
      and_then (ok_or Panic (u32_at data (at + 8))) (\<lambda>records.
      registry_records data fin want (unat records) True (bt_first_keys t ! block) (at + 12)))"

text \<open>An error of the block is no scopes; \<^const>\<open>None\<close> is a panic.\<close>

definition blocked_scopes_for :: "blocked_table \<Rightarrow> bytes \<Rightarrow> node_id \<Rightarrow> scope_id list option" where
  "blocked_scopes_for t data root =
     (let after = partition_point (\<lambda>r. r \<le> root) (bt_first_keys t) in
      if after = 0 then Some []
      else case registry_decode_block t data (after - 1) root of
        Inl Panic \<Rightarrow> None
      | Inl _ \<Rightarrow> Some []
      | Inr scopes \<Rightarrow> Some scopes)"

section \<open>The iterator\<close>

record blocked_iter =
  it_block :: nat
  it_at :: nat
  it_records :: nat
  it_root :: node_id
  it_first :: bool
  it_scopes :: nat
  it_scope :: u64

definition blocked_iter_new :: blocked_iter where
  "blocked_iter_new = \<lparr>it_block = 0, it_at = 0, it_records = 0, it_root = 0, it_first = True,
     it_scopes = 0, it_scope = 0\<rparr>"

datatype iter_step = Crash | Stop | Yield "node_id \<times> scope_id" blocked_iter | Again blocked_iter

text \<open>One turn of the loop in \<^verbatim>\<open>next\<close>: an entry, the end, or the loop goes round.\<close>

definition iter_turn :: "bytes \<Rightarrow> blocked_table \<Rightarrow> blocked_iter \<Rightarrow> iter_step" where
  "iter_turn data t it =
     (if it_scopes it > 0 then
        case get_varint data (it_at it) of
          Inl _ \<Rightarrow> Stop
        | Inr (gap, next) \<Rightarrow>
            Yield (it_root it, ucast (it_scope it + gap))
              (it\<lparr>it_at := next, it_scope := it_scope it + gap, it_scopes := it_scopes it - 1\<rparr>)
      else if it_records it = 0 then
        if it_block it \<ge> length (bt_first_keys t) then Stop
        else let at = bt_blocks_at t + unat (bt_offsets t ! it_block it) in
          case u32_at data (at + 8) of
            None \<Rightarrow> Crash
          | Some records \<Rightarrow>
              Again (it\<lparr>it_root := bt_first_keys t ! it_block it, it_records := unat records,
                it_at := at + 12, it_first := True, it_block := it_block it + 1\<rparr>)
      else
        case (if it_first it then Inr (it_root it, it_at it)
              else and_then (get_varint data (it_at it)) (\<lambda>(gap, next). Inr (it_root it + gap, next))) of
          Inl _ \<Rightarrow> Stop
        | Inr (root, at) \<Rightarrow>
            (case get_varint data at of
               Inl _ \<Rightarrow> Stop
             | Inr (k, next) \<Rightarrow>
                 Again (it\<lparr>it_root := root, it_at := next, it_first := False, it_scopes := unat k,
                   it_scope := 0, it_records := it_records it - 1\<rparr>)))"

lemma iter_turn_progress:
  "iter_turn data t it = Yield e it' \<or> iter_turn data t it = Again it' \<Longrightarrow>
     (it', it) \<in> measures [\<lambda>it. length (bt_first_keys t) - it_block it, it_records, it_scopes]"
  by (auto simp: iter_turn_def Let_def split: if_splits sum.splits option.splits)

function iter_collect :: "bytes \<Rightarrow> blocked_table \<Rightarrow> blocked_iter \<Rightarrow> (node_id \<times> scope_id) list option" where
  "iter_collect data t it =
     (case iter_turn data t it of
        Crash \<Rightarrow> None
      | Stop \<Rightarrow> Some []
      | Yield e it' \<Rightarrow> map_option ((#) e) (iter_collect data t it')
      | Again it' \<Rightarrow> iter_collect data t it')"
  by pat_completeness auto
termination
proof (relation "measures [\<lambda>(data, t, it). length (bt_first_keys t) - it_block it,
    \<lambda>(data, t, it). it_records it, \<lambda>(data, t, it). it_scopes it]")
  fix data t it e it'
  assume "iter_turn data t it = Yield e it'"
  then show "((data, t, it'), data, t, it) \<in> measures [\<lambda>(data, t, it). length (bt_first_keys t) - it_block it,
      \<lambda>(data, t, it). it_records it, \<lambda>(data, t, it). it_scopes it]"
    using iter_turn_progress [of data t it e it'] by simp
next
  fix data t it it'
  assume "iter_turn data t it = Again it'"
  then show "((data, t, it'), data, t, it) \<in> measures [\<lambda>(data, t, it). length (bt_first_keys t) - it_block it,
      \<lambda>(data, t, it). it_records it, \<lambda>(data, t, it). it_scopes it]"
    using iter_turn_progress [of data t it _ it'] by simp
qed simp

declare iter_collect.simps [simp del]

definition blocked_registry_iter :: "blocked_table \<Rightarrow> bytes \<Rightarrow> (node_id \<times> scope_id) list option" where
  "blocked_registry_iter t data = iter_collect data t blocked_iter_new"

section \<open>The writer holds what was pushed\<close>

definition scope_entries :: "(node_id \<times> scope_id) list \<Rightarrow> (node_id \<times> u64) list" where
  "scope_entries es = map (\<lambda>(r, s). (r, ucast s)) es"

lemma scope_entries_simps [simp]:
  "scope_entries [] = []" "scope_entries (es @ [(r, s)]) = scope_entries es @ [(r, ucast s)]"
  "scope_entries es = [] \<longleftrightarrow> es = []"
  by (simp_all add: scope_entries_def)

lemma last_scope_entries: "es \<noteq> [] \<Longrightarrow> last (scope_entries es) = (fst (last es), ucast (snd (last es)))"
  by (cases es rule: rev_cases) (auto simp: scope_entries_def split: prod.splits)

lemma ucast_scope [simp]: "ucast (ucast (s :: u32) :: u64) = s"
  by (rule bit_word_eqI) (simp add: bit_ucast_iff)

lemma ucast_scope_inj: "(ucast (s :: u32) :: u64) = ucast s' \<longleftrightarrow> s = s'"
  using ucast_scope by metis

text \<open>What the writer holds after a list of pushes; the blocked form drops a repeated entry.\<close>

definition rw_holds :: "registry_writer \<Rightarrow> (node_id \<times> scope_id) list \<Rightarrow> bool" where
  "rw_holds w es \<longleftrightarrow>
     (case rw_encoding w of
        Flat \<Rightarrow> rw_entries w = word_of_nat (length es) \<and>
          rw_flat w = u64_to_le_bytes 0 @ concat (map entry_bytes es)
      | Blocked \<Rightarrow> rw_entries w = word_of_nat (length (remdups_adj es)) \<and>
          holds_entries (rw_blk w) (scope_entries (remdups_adj es)))"

lemma rw_holds_new: "n < 2 ^ 32 \<Longrightarrow> rw_holds (rw_with_block_size enc n) []"
  by (cases enc) (simp_all add: rw_holds_def rw_with_block_size_def holds_entries_new)

lemma remdups_adj_snoc:
  "remdups_adj (es @ [e]) = (if es \<noteq> [] \<and> last es = e then remdups_adj es else remdups_adj es @ [e])"
  by (cases es rule: rev_cases) (auto simp: remdups_adj_append_two)

lemma remdups_adj_last: "es \<noteq> [] \<Longrightarrow> last (remdups_adj es) = last es"
  by (induction es rule: remdups_adj.induct) auto

lemma rw_push_holds:
  assumes w: "rw_holds w es" and ord: "sorted (es @ [e])"
  shows "rw_holds (rw_push e w) (es @ [e])" and "rw_encoding (rw_push e w) = rw_encoding w"
proof -
  obtain r s where e: "e = (r, s)" by fastforce
  show "rw_encoding (rw_push e w) = rw_encoding w"
    by (simp add: e rw_push_def split: registry_encoding.split)
  show "rw_holds (rw_push e w) (es @ [e])"
  proof (cases "rw_encoding w")
    case Flat
    then show ?thesis using w by (simp add: e rw_push_def rw_holds_def entry_bytes_def)
  next
    case Blocked
    let ?ds = "remdups_adj es" and ?b = "rw_blk w"
    have h: "holds_entries ?b (scope_entries ?ds)" and n: "rw_entries w = word_of_nat (length ?ds)"
      using w Blocked by (simp_all add: rw_holds_def)
    have le: "es \<noteq> [] \<Longrightarrow> last es \<le> e" using ord by (cases es rule: rev_cases) (auto simp: sorted_append)
    show ?thesis
    proof (cases "bw_key ?b = Some r \<and> bw_values ?b \<noteq> [] \<and> last (bw_values ?b) = ucast s")
      case True
      then have ne: "es \<noteq> []" and "last (scope_entries ?ds) = (r, ucast s)"
        using holds_entries_last [OF h, of r] by auto
      then have "last es = e" using last_scope_entries [of ?ds] remdups_adj_last [OF ne] ucast_scope_inj
        by (metis e fst_conv prod.collapse remdups_adj_Nil_iff snd_conv)
      then show ?thesis using w Blocked True ne by (simp add: e rw_push_def rw_holds_def remdups_adj_snoc)
    next
      case False
      have new: "\<not> (es \<noteq> [] \<and> last es = e)"
      proof
        assume l: "es \<noteq> [] \<and> last es = e"
        then have ls: "last (scope_entries ?ds) = (r, ucast s)" "scope_entries ?ds \<noteq> []"
          using last_scope_entries [of ?ds] remdups_adj_last [of es] by (auto simp: e)
        then obtain k where k: "bw_key ?b = Some k" "bw_values ?b \<noteq> []"
          using h by (auto simp: holds_entries_def split: option.splits)
        then show False using False ls holds_entries_last(2) [OF h k(1)] by simp
      qed
      have "fst (last (scope_entries ?ds)) \<le> r" if "scope_entries ?ds \<noteq> []"
        using le that last_scope_entries [of ?ds] remdups_adj_last [of es] by (auto simp: e less_eq_prod_def)
      then have "holds_entries (push_entry r (ucast s) ?b) (scope_entries ?ds @ [(r, ucast s)])"
        by (rule push_entry_holds [OF h])
      moreover have "rw_push e w = w\<lparr>rw_blk := push_entry r (ucast s) ?b, rw_entries := rw_entries w + 1\<rparr>"
        using Blocked False by (auto simp: e rw_push_def)
      ultimately show ?thesis using Blocked new n by (simp add: e rw_holds_def remdups_adj_snoc)
    qed
  qed
qed

lemma rw_fold_holds:
  assumes "sorted (ds @ es)" and "rw_holds w ds"
  shows "rw_holds (fold rw_push es w) (ds @ es) \<and> rw_encoding (fold rw_push es w) = rw_encoding w"
  using assms
proof (induction es arbitrary: ds w)
  case (Cons e es)
  have "sorted (ds @ [e])" using Cons(2) by (simp add: sorted_append)
  from rw_push_holds [OF Cons(3) this] Cons(1) [of "ds @ [e]" "rw_push e w"] Cons(2)
  show ?case by simp
qed simp

section \<open>Reading back\<close>

lemma registry_records_rest:
  assumes "data = pre @ rest_bytes prev rs @ suf" and "i = length pre" and "i + length (rest_bytes prev rs) \<le> fin"
    and "sorted_wrt (<) (map fst rs)" and "\<forall>(k, vs) \<in> set rs. length vs < 2 ^ 64"
  shows "registry_records data fin want (length rs) False prev i =
    Inr (map ucast (case map_of rs want of None \<Rightarrow> [] | Some vs \<Rightarrow> vs))"
  using assms
proof (induction prev rs arbitrary: pre i rule: rest_bytes.induct)
  case (2 prev k vs rs)
  let ?gap = "put_varint (k - prev)"
  have g: "get_varint data i = Inr (k - prev, i + length ?gap)"
    using 2(2,3) by (intro get_put_varint [of _ pre _ "record_bytes vs @ rest_bytes k rs @ suf"]) auto
  obtain j where r: "get_varint data (i + length ?gap) = Inr (word_of_nat (length vs), j)"
    "unat (word_of_nat (length vs) :: u64) = length vs"
    "read_gaps data (length vs) 0 j = Inr (vs, i + length ?gap + length (record_bytes vs))"
    by (rule read_record [of data "pre @ ?gap" vs "rest_bytes k rs @ suf" "i + length ?gap"]) (use 2 in auto)
  have IH: "registry_records data fin want (length rs) False k (i + length ?gap + length (record_bytes vs)) =
      Inr (map ucast (case map_of rs want of None \<Rightarrow> [] | Some vs \<Rightarrow> vs))"
    by (rule 2(1) [of "pre @ ?gap @ record_bytes vs"]) (use 2 in auto)
  have "map_of rs want = None" if "\<not> k < want"
    using 2(5) that by (fastforce simp: map_of_eq_None_iff)
  then show ?case using g r IH 2(4) by auto
qed simp

lemma registry_records_block:
  assumes "data = pre @ block_body b @ suf" and "i = length pre" and "i + length (block_body b) \<le> fin"
    and "sorted_wrt (<) (map fst b)" and "\<forall>(k, vs) \<in> set b. length vs < 2 ^ 64" and "b \<noteq> []"
  shows "registry_records data fin want (length b) True (fst (hd b)) i =
    Inr (map ucast (case map_of b want of None \<Rightarrow> [] | Some vs \<Rightarrow> vs))"
proof -
  obtain k vs rs where b: "b = (k, vs) # rs" using assms(6) by (cases b) auto
  obtain j where r: "get_varint data i = Inr (word_of_nat (length vs), j)"
    "unat (word_of_nat (length vs) :: u64) = length vs"
    "read_gaps data (length vs) 0 j = Inr (vs, i + length (record_bytes vs))"
    by (rule read_record [of data pre vs "rest_bytes k rs @ suf" i]) (use assms b in auto)
  have "registry_records data fin want (length rs) False k (i + length (record_bytes vs)) =
      Inr (map ucast (case map_of rs want of None \<Rightarrow> [] | Some vs \<Rightarrow> vs))"
    by (rule registry_records_rest [of _ "pre @ record_bytes vs" _ _ suf]) (use assms b in auto)
  moreover have "map_of rs want = None" if "\<not> k < want"
    using assms(4) that by (fastforce simp: b map_of_eq_None_iff)
  ultimately show ?thesis using r assms(3) by (auto simp: b)
qed

lemma blocked_scopes_for_spec:
  assumes t: "table_blocks t data bs" and keys: "sorted_wrt (<) (map fst (concat bs))"
    and small: "\<forall>(k, vs) \<in> set (concat bs). length vs < 2 ^ 64"
  shows "blocked_scopes_for t data root =
    Some (map ucast (case map_of (concat bs) root of None \<Rightarrow> [] | Some vs \<Rightarrow> vs))"
proof -
  let ?after = "partition_point (\<lambda>r. r \<le> root) (bt_first_keys t)"
  have first: "bt_first_keys t = map (\<lambda>b. fst (hd b)) bs" and ne: "\<forall>b \<in> set bs. b \<noteq> []"
    using t by (auto simp: table_blocks_def)
  note find = block_for_key [OF keys ne, of root]
  show ?thesis
  proof (cases "?after = 0")
    case True
    then show ?thesis using find(1) by (simp add: blocked_scopes_for_def first)
  next
    case False
    let ?j = "?after - 1"
    have j: "?j < length bs" and m: "map_of (concat bs) root = map_of (bs ! ?j) root"
      using find(2) False by (simp_all add: first)
    from table_block [OF t j] obtain pre suf where b:
      "data = pre @ block_body (bs ! ?j) @ suf" "length pre = bt_blocks_at t + unat (bt_offsets t ! ?j) + 12"
      "u32_at data (bt_blocks_at t + unat (bt_offsets t ! ?j) + 8) = Some (word_of_nat (length (bs ! ?j)))"
      "unat (word_of_nat (length (bs ! ?j)) :: u32) = length (bs ! ?j)" "bt_first_keys t ! ?j = fst (hd (bs ! ?j))"
      "bt_blocks_at t + unat (bt_offsets t ! ?j) + 12 + length (block_body (bs ! ?j)) =
         bt_blocks_at t + unat (bt_offsets t ! (?j + 1))" "bs ! ?j \<noteq> []"
      by metis
    have sub: "bs ! ?j \<in> set bs" using j by simp
    have "sorted_wrt (<) (map fst (bs ! ?j))"
      using keys by (rule sorted_block [OF sub])
    then have "registry_decode_block t data ?j root =
        Inr (map ucast (case map_of (bs ! ?j) root of None \<Rightarrow> [] | Some vs \<Rightarrow> vs))"
      unfolding registry_decode_block_def Let_def b(3) ok_or.simps and_then.simps b(4,5)
      by (intro registry_records_block [OF b(1)]) (use b small sub in auto)
    then show ?thesis using False by (simp add: blocked_scopes_for_def m)
  qed
qed

section \<open>The iterator lists the entries\<close>

definition scopes_of :: "records \<Rightarrow> (node_id \<times> scope_id) list" where
  "scopes_of rs = map (\<lambda>(k, v). (k, ucast v)) (ungroup rs)"

lemma scopes_of_simps [simp]:
  "scopes_of [] = []" "scopes_of ((k, vs) # rs) = map (\<lambda>v. (k, ucast v)) vs @ scopes_of rs"
  "scopes_of (rs @ rs') = scopes_of rs @ scopes_of rs'"
  by (simp_all add: scopes_of_def comp_def)

lemma append_fun: "(@) (x # xs) = (\<lambda>ys. x # xs @ ys)" "(@) (xs @ zs) = (\<lambda>ys. xs @ zs @ ys)"
  by auto

lemma iter_collect_gaps:
  assumes "data = pre @ put_gaps v vs @ suf" and "it_at it = length pre" and "it_scopes it = length vs"
    and "it_scope it = v"
  shows "\<exists>v'. iter_collect data t it =
    map_option ((@) (map (\<lambda>v. (it_root it, ucast v)) vs))
      (iter_collect data t (it\<lparr>it_at := length pre + length (put_gaps v vs), it_scopes := 0, it_scope := v'\<rparr>))"
  using assms
proof (induction vs arbitrary: pre v it)
  case Nil
  then have "it\<lparr>it_at := length pre, it_scopes := 0, it_scope := v\<rparr> = it" by simp
  then show ?case by (intro exI [of _ v]) (simp add: option.map_ident)
next
  case (Cons x vs)
  let ?g = "put_varint (x - v)"
  let ?it = "it\<lparr>it_at := it_at it + length ?g, it_scope := x, it_scopes := length vs\<rparr>"
  have "get_varint data (it_at it) = Inr (x - v, it_at it + length ?g)"
    using Cons(2,3) by (intro get_put_varint [of _ pre _ "put_gaps x vs @ suf"]) auto
  then have "iter_turn data t it = Yield (it_root it, ucast x) ?it"
    using Cons(4,5) by (simp add: iter_turn_def)
  then have 1: "iter_collect data t it = map_option ((#) (it_root it, ucast x)) (iter_collect data t ?it)"
    by (simp add: iter_collect.simps [of data t it])
  obtain v' where 2: "iter_collect data t ?it =
      map_option ((@) (map (\<lambda>v. (it_root ?it, ucast v)) vs))
        (iter_collect data t (?it\<lparr>it_at := length (pre @ ?g) + length (put_gaps x vs), it_scopes := 0, it_scope := v'\<rparr>))"
    using Cons(1) [of "pre @ ?g" x ?it] Cons(2,3) by auto
  show ?case
    by (rule exI [of _ v'], subst 1, subst 2) (simp add: option.map_comp comp_def add.assoc append_fun)
qed

definition resting :: "blocked_iter \<Rightarrow> nat \<Rightarrow> bool" where
  "resting it j \<longleftrightarrow> it_records it = 0 \<and> it_scopes it = 0 \<and> it_block it = j"

lemma iter_collect_record:
  assumes d: "data = pre @ record_bytes vs @ suf" and n: "length vs < 2 ^ 64"
    and turn: "\<And>k next. get_varint data (length pre) = Inr (k, next) \<Longrightarrow> iter_turn data t it =
      Again (it\<lparr>it_root := root, it_at := next, it_first := False, it_scopes := unat k, it_scope := 0, it_records := m\<rparr>)"
  shows "\<exists>v. iter_collect data t it = map_option ((@) (map (\<lambda>v. (root, ucast v)) vs))
    (iter_collect data t (it\<lparr>it_root := root, it_at := length pre + length (record_bytes vs), it_first := False,
      it_scopes := 0, it_scope := v, it_records := m\<rparr>))"
proof -
  let ?p = "put_varint (word_of_nat (length vs))"
  obtain j where r: "get_varint data (length pre) = Inr (word_of_nat (length vs), j)"
    "unat (word_of_nat (length vs) :: u64) = length vs"
    by (rule read_record [OF d refl n])
  have j: "j = length (pre @ ?p)"
    using r(1) get_put_varint [of data pre "word_of_nat (length vs)" "put_gaps 0 vs @ suf" "length pre"] d
    by (simp add: record_bytes_def)
  let ?it = "it\<lparr>it_root := root, it_at := j, it_first := False, it_scopes := length vs, it_scope := 0, it_records := m\<rparr>"
  have "iter_turn data t it = Again ?it" using turn [OF r(1)] r(2) by simp
  then have "iter_collect data t it = iter_collect data t ?it" by (simp add: iter_collect.simps [of data t it])
  moreover have "\<exists>v. iter_collect data t ?it = map_option ((@) (map (\<lambda>v. (it_root ?it, ucast v)) vs))
      (iter_collect data t (?it\<lparr>it_at := length (pre @ ?p) + length (put_gaps 0 vs), it_scopes := 0, it_scope := v\<rparr>))"
    by (rule iter_collect_gaps [of _ _ _ _ suf]) (use d j in \<open>auto simp: record_bytes_def\<close>)
  ultimately show ?thesis by (cases it) (simp add: record_bytes_def add.assoc)
qed

lemma iter_collect_rest:
  assumes "data = pre @ rest_bytes prev rs @ suf" and "it_at it = length pre" and "it_records it = length rs"
    and "it_root it = prev" and "\<not> it_first it" and "it_scopes it = 0" and "\<forall>(k, vs) \<in> set rs. length vs < 2 ^ 64"
  shows "\<exists>it'. iter_collect data t it = map_option ((@) (scopes_of rs)) (iter_collect data t it') \<and>
    resting it' (it_block it)"
  using assms
proof (induction prev rs arbitrary: pre it rule: rest_bytes.induct)
  case (1 prev)
  then show ?case by (intro exI [of _ it]) (simp add: resting_def option.map_ident)
next
  case (2 prev k vs rs)
  let ?gap = "put_varint (k - prev)"
  have g: "get_varint data (it_at it) = Inr (k - prev, it_at it + length ?gap)"
    using 2(2,3) by (intro get_put_varint [of _ pre _ "record_bytes vs @ rest_bytes k rs @ suf"]) auto
  have d: "data = (pre @ ?gap) @ record_bytes vs @ rest_bytes k rs @ suf" using 2(2) by simp
  have "\<exists>v. iter_collect data t it = map_option ((@) (map (\<lambda>v. (k, ucast v)) vs))
      (iter_collect data t (it\<lparr>it_root := k, it_at := length (pre @ ?gap) + length (record_bytes vs), it_first := False,
        it_scopes := 0, it_scope := v, it_records := length rs\<rparr>))"
    by (rule iter_collect_record [OF d]) (use 2 g in \<open>auto simp: iter_turn_def\<close>)
  then obtain v where v: "iter_collect data t it = map_option ((@) (map (\<lambda>v. (k, ucast v)) vs))
      (iter_collect data t (it\<lparr>it_root := k, it_at := length (pre @ ?gap) + length (record_bytes vs), it_first := False,
        it_scopes := 0, it_scope := v, it_records := length rs\<rparr>))" (is "_ = map_option _ (iter_collect data t ?it)") ..
  obtain it' where "iter_collect data t ?it = map_option ((@) (scopes_of rs)) (iter_collect data t it')"
    "resting it' (it_block ?it)"
    using 2(1) [of "pre @ ?gap @ record_bytes vs" ?it] 2(2,8) by auto
  then show ?case using v by (intro exI [of _ it']) (simp add: option.map_comp comp_def append_fun)
qed

lemma iter_collect_block:
  assumes t: "table_blocks t data bs" and j: "j < length bs" and it: "resting it j"
    and small: "\<forall>(k, vs) \<in> set (bs ! j). length vs < 2 ^ 64"
  shows "\<exists>it'. iter_collect data t it = map_option ((@) (scopes_of (bs ! j))) (iter_collect data t it') \<and>
    resting it' (Suc j)"
proof -
  let ?at = "bt_blocks_at t + unat (bt_offsets t ! j)"
  from table_block [OF t j] obtain pre suf where b:
    "data = pre @ block_body (bs ! j) @ suf" "length pre = ?at + 12"
    "u32_at data (?at + 8) = Some (word_of_nat (length (bs ! j)))"
    "unat (word_of_nat (length (bs ! j)) :: u32) = length (bs ! j)" "bt_first_keys t ! j = fst (hd (bs ! j))"
    "bs ! j \<noteq> []"
    by metis
  obtain k vs rs where r: "bs ! j = (k, vs) # rs" using b(6) by (cases "bs ! j") auto
  let ?it = "it\<lparr>it_root := k, it_records := Suc (length rs), it_at := ?at + 12, it_first := True, it_block := Suc j\<rparr>"
  have "j < length (bt_first_keys t)" using t j by (simp add: table_blocks_def)
  then have "iter_turn data t it = Again ?it"
    using it b(3-5) by (simp add: iter_turn_def resting_def r Let_def)
  then have 1: "iter_collect data t it = iter_collect data t ?it" by (simp add: iter_collect.simps [of data t it])
  have d: "data = pre @ record_bytes vs @ rest_bytes k rs @ suf" using b(1) r by simp
  have s: "it_scopes ?it = 0" using it by (simp add: resting_def)
  have "\<exists>v. iter_collect data t ?it = map_option ((@) (map (\<lambda>v. (k, ucast v)) vs))
      (iter_collect data t (?it\<lparr>it_root := k, it_at := length pre + length (record_bytes vs), it_first := False,
        it_scopes := 0, it_scope := v, it_records := length rs\<rparr>))"
    by (rule iter_collect_record [OF d]) (use small r b(2) s in \<open>auto simp: iter_turn_def\<close>)
  then obtain v where v: "iter_collect data t ?it = map_option ((@) (map (\<lambda>v. (k, ucast v)) vs))
      (iter_collect data t (?it\<lparr>it_root := k, it_at := length pre + length (record_bytes vs), it_first := False,
        it_scopes := 0, it_scope := v, it_records := length rs\<rparr>))" (is "_ = map_option _ (iter_collect data t ?it2)") ..
  obtain it' where "iter_collect data t ?it2 = map_option ((@) (scopes_of rs)) (iter_collect data t it')"
    "resting it' (it_block ?it2)"
    using iter_collect_rest [of data "pre @ record_bytes vs" k rs suf ?it2 t] d small r by auto
  then show ?thesis using 1 v by (intro exI [of _ it']) (simp add: r option.map_comp comp_def append_fun)
qed

lemma iter_collect_blocks:
  assumes t: "table_blocks t data bs" and small: "\<forall>(k, vs) \<in> set (concat bs). length vs < 2 ^ 64"
  shows "j \<le> length bs \<Longrightarrow> resting it j \<Longrightarrow> iter_collect data t it = Some (scopes_of (concat (drop j bs)))"
proof (induction "length bs - j" arbitrary: j it)
  case 0
  then have "iter_turn data t it = Stop" using t by (simp add: iter_turn_def resting_def table_blocks_def)
  then show ?case using 0 by (simp add: iter_collect.simps [of data t it])
next
  case (Suc n)
  then have j: "j < length bs" by simp
  have "\<forall>(k, vs) \<in> set (bs ! j). length vs < 2 ^ 64" using small nth_mem [OF j] by auto
  from iter_collect_block [OF t j Suc(4) this]
  obtain it' where it': "iter_collect data t it = map_option ((@) (scopes_of (bs ! j))) (iter_collect data t it')"
    "resting it' (Suc j)"
    by blast
  have "iter_collect data t it' = Some (scopes_of (concat (drop (Suc j) bs)))"
    using Suc(1) [of "Suc j" it'] Suc(2) j it'(2) by simp
  then show ?case using it'(1) by (simp add: Cons_nth_drop_Suc [OF j, symmetric])
qed

lemma blocked_registry_iter_spec:
  assumes "table_blocks t data bs" and "\<forall>(k, vs) \<in> set (concat bs). length vs < 2 ^ 64"
  shows "blocked_registry_iter t data = Some (scopes_of (concat bs))"
  using iter_collect_blocks [OF assms, of 0 blocked_iter_new]
  by (simp add: blocked_registry_iter_def resting_def blocked_iter_new_def)

section \<open>The registry of a layer, in either encoding\<close>

datatype registry_table = FlatTable flat_registry | BlockedTable blocked_table

definition registry_count :: "registry_table \<Rightarrow> nat" where
  "registry_count r = (case r of FlatTable t \<Rightarrow> fr_count t | BlockedTable t \<Rightarrow> bt_count t)"

definition registry_scopes_for :: "registry_table \<Rightarrow> bytes \<Rightarrow> node_id \<Rightarrow> scope_id list option" where
  "registry_scopes_for r data root =
     (case r of FlatTable t \<Rightarrow> flat_scopes_for t data root | BlockedTable t \<Rightarrow> blocked_scopes_for t data root)"

definition registry_heap_bytes :: "registry_table \<Rightarrow> nat" where
  "registry_heap_bytes r =
     (case r of
        FlatTable t \<Rightarrow> (case fr_index t of None \<Rightarrow> 0 | Some ix \<Rightarrow> length (first_keys ix) * 8)
      | BlockedTable t \<Rightarrow> blocked_heap_bytes t)"

definition registry_entries_of :: "registry_table \<Rightarrow> bytes \<Rightarrow> (node_id \<times> scope_id) list option" where
  "registry_entries_of r data =
     (case r of FlatTable t \<Rightarrow> flat_iter t data | BlockedTable t \<Rightarrow> blocked_registry_iter t data)"

text \<open>The blob type decides how a registry payload is parsed.\<close>

definition registry_parse :: "string \<Rightarrow> bytes \<Rightarrow> nat \<Rightarrow> nat \<Rightarrow> registry_table result" where
  "registry_parse blob_type data a b =
     (if blob_type = FLAT_BLOB_TYPE then and_then (flat_registry_parse data a b) (\<lambda>t. Inr (FlatTable t))
      else and_then (blocked_registry_parse data a b) (\<lambda>t. Inr (BlockedTable t)))"

definition registry_means :: "registry_table \<Rightarrow> bytes \<Rightarrow> (node_id \<times> scope_id) list \<Rightarrow> bool" where
  "registry_means r data es \<longleftrightarrow>
     (\<forall>root. registry_scopes_for r data root = Some (map snd (filter (\<lambda>e. fst e = root) es))) \<and>
     registry_entries_of r data = Some es"

lemma scopes_of_entries: "ungroup rs = scope_entries es \<Longrightarrow> scopes_of rs = es"
  by (simp add: scopes_of_def scope_entries_def case_prod_beta comp_def)

lemma filter_scope_entries:
  "map ucast (map snd (filter (\<lambda>e. fst e = k) (scope_entries es))) = map snd (filter (\<lambda>e. fst e = k) es)"
  by (induction es) (auto simp: scope_entries_def)

lemma blocked_registry_means:
  assumes sl: "slice data a b = Some (layout n bs)" and fit: "length (layout n bs) < 2 ^ 64"
    and bs: "\<forall>b \<in> set bs. b \<noteq> [] \<and> length b < 2 ^ 32" "sorted_wrt (<) (map fst (concat bs))"
      "ungroup (concat bs) = scope_entries es"
  obtains t where "blocked_registry_parse data a b = Inr t" and "registry_means (BlockedTable t) data es"
proof -
  have "\<forall>b \<in> set bs. b \<noteq> []" using bs(1) by blast
  from blocked_parse_layout [OF sl fit bs(1) first_keys_ascend [OF bs(2) this]]
  obtain t where t: "blocked_parse data a b = Inr t" "table_blocks t data bs" by metis
  have small: "\<forall>(k, vs) \<in> set (concat bs). length vs < 2 ^ 64"
    using fit by (rule values_small)
  have distinct: "distinct (map fst (concat bs))" using bs(2) by (simp only: strict_sorted_iff)
  have "registry_scopes_for (BlockedTable t) data root = Some (map snd (filter (\<lambda>e. fst e = root) es))" for root
    using blocked_scopes_for_spec [OF t(2) bs(2) small, of root] filter_ungroup [OF distinct, of root, symmetric]
    by (simp only: registry_scopes_for_def registry_table.case bs(3) filter_scope_entries)
  moreover have "registry_entries_of (BlockedTable t) data = Some es"
    using blocked_registry_iter_spec [OF t(2) small] scopes_of_entries [OF bs(3)]
    by (simp add: registry_entries_of_def)
  ultimately show thesis using that t(1) by (simp add: registry_means_def blocked_registry_parse_def)
qed

lemma flat_registry_means:
  assumes sl: "slice data a b = Some (counted entry_bytes es)" and fit: "8 + length es * 12 < 2 ^ 64"
    and sorted: "sorted es"
  obtains t where "flat_registry_parse data a b = Inr t" and "registry_means (FlatTable t) data es"
proof -
  obtain t where t: "flat_registry_parse data a b = Inr t" "registry_holds t data es"
    using flat_registry_parse_counted [OF sl fit] .
  have "sorted (map fst es)" using sorted by (induction es) (auto simp: less_eq_prod_def)
  then have "registry_means (FlatTable t) data es"
    using flat_scopes_for_spec [OF t(2)] flat_iter_spec [OF t(2)]
    by (simp add: registry_means_def registry_scopes_for_def registry_entries_of_def)
  then show thesis using that t(1) by blast
qed

text \<open>The payload a writer finishes with, placed anywhere in a file, reads back as its entries.\<close>

lemma registry_payload_means:
  assumes es: "sorted_wrt (<) es" "es \<noteq> []" and n: "block < 2 ^ 32" "length es < 2 ^ 59"
    and fin: "rw_finish (fold rw_push es (rw_with_block_size enc block)) = Some (blob, payload)"
    and sl: "slice data a b = Some payload" and fit: "length payload < 2 ^ 64"
  obtains r where "registry_parse blob data a b = Inr r" and "registry_means r data es"
proof -
  let ?w = "fold rw_push es (rw_with_block_size enc block)"
  have sorted: "sorted es" and dd: "remdups_adj es = es"
    using es(1) by (simp_all add: strict_sorted_iff remdups_adj_distinct)
  have h: "rw_holds ?w es" and enc: "rw_encoding ?w = enc"
    using rw_fold_holds [of "[]" es "rw_with_block_size enc block"] rw_holds_new [OF n(1)] sorted
    by (simp_all add: rw_with_block_size_def)
  show thesis
  proof (cases enc)
    case Flat
    have "payload = counted entry_bytes es" and b: "blob = FLAT_BLOB_TYPE"
      using fin h enc Flat by (auto simp: rw_finish_def rw_holds_def counted_def split: if_splits)
    then obtain t where "flat_registry_parse data a b = Inr t" "registry_means (FlatTable t) data es"
      using flat_registry_means [of data a b es] sl n(2) sorted by auto
    then show thesis using that b by (simp add: registry_parse_def)
  next
    case Blocked
    have "holds_entries (rw_blk ?w) (scope_entries es)" using h enc Blocked dd by (simp add: rw_holds_def)
    then obtain bs where bs: "blocked_payload (rw_entries ?w) (rw_blk ?w) = layout (rw_entries ?w) bs"
      "ungroup (concat bs) = scope_entries es" "sorted_wrt (<) (map fst (concat bs))"
      "\<forall>b \<in> set bs. b \<noteq> [] \<and> length b < 2 ^ 32"
      by (rule holds_entries_payload) (use es in auto)
    have p: "payload = layout (rw_entries ?w) bs" and b: "blob = BLOCKED_BLOB_TYPE"
      using fin enc Blocked bs(1) by (auto simp: rw_finish_def split: if_splits)
    obtain t where "blocked_registry_parse data a b = Inr t" "registry_means (BlockedTable t) data es"
      using blocked_registry_means [OF sl [unfolded p] fit [unfolded p] bs(4,3,2)] .
    then show thesis using that b by (simp add: registry_parse_def FLAT_BLOB_TYPE_def BLOCKED_BLOB_TYPE_def)
  qed
qed

lemma rw_finish_Some:
  assumes "sorted_wrt (<) es" and "es \<noteq> []" and "block < 2 ^ 32" and "length es < 2 ^ 59"
  shows "\<exists>blob payload. rw_finish (fold rw_push es (rw_with_block_size enc block)) = Some (blob, payload)"
proof -
  let ?w = "fold rw_push es (rw_with_block_size enc block)"
  have "sorted es" and "remdups_adj es = es"
    using assms(1) by (simp_all add: strict_sorted_iff remdups_adj_distinct)
  then have "rw_holds ?w es" using rw_fold_holds [of "[]" es] rw_holds_new [OF assms(3)] by simp
  then have "rw_entries ?w = word_of_nat (length es)"
    using \<open>remdups_adj es = es\<close> by (auto simp: rw_holds_def split: registry_encoding.splits)
  moreover have "unat (word_of_nat (length es) :: u64) = length es"
    using assms(4) by (intro unat_word_of_nat_small) simp
  ultimately have "rw_entries ?w \<noteq> 0" using assms(2) by auto
  then show ?thesis by (simp add: rw_finish_def split: registry_encoding.split)
qed

text \<open>
  C21: A registry written from entries in ascending order, in either encoding and at any block size,
  reads back from wherever it lies in a file: the scopes of each root are the ones written for it,
  and the iterator lists the entries in order.
\<close>

theorem registry_reads_back:
  assumes "sorted_wrt (<) es" and "es \<noteq> []" and "block < 2 ^ 32" and "length es < 2 ^ 59"
  shows "\<exists>blob payload. rw_finish (fold rw_push es (rw_with_block_size enc block)) = Some (blob, payload) \<and>
    (length payload < 2 ^ 64 \<longrightarrow>
      (\<exists>r. registry_parse blob (pre @ payload @ suf) (length pre) (length pre + length payload) = Inr r \<and>
        (\<forall>root. registry_scopes_for r (pre @ payload @ suf) root = Some (map snd (filter (\<lambda>e. fst e = root) es))) \<and>
        registry_entries_of r (pre @ payload @ suf) = Some es))"
proof -
  obtain blob payload where f: "rw_finish (fold rw_push es (rw_with_block_size enc block)) = Some (blob, payload)"
    using rw_finish_Some [OF assms] by blast
  have "\<exists>r. registry_parse blob (pre @ payload @ suf) (length pre) (length pre + length payload) = Inr r \<and>
      registry_means r (pre @ payload @ suf) es" if "length payload < 2 ^ 64"
    using registry_payload_means [OF assms f slice_middle that] by blast
  then show ?thesis using f by (auto simp: registry_means_def)
qed

theorem registry_reads_back_witness:
  "\<exists>payload r. rw_finish (fold rw_push [(4, 1), (4, 9), (300, 2)] (rw_with_block_size Blocked 4)) =
       Some (BLOCKED_BLOB_TYPE, payload) \<and> length payload < 2 ^ 64 \<and>
     registry_parse BLOCKED_BLOB_TYPE ([1, 2] @ payload @ [3]) 2 (2 + length payload) = Inr r \<and>
     registry_scopes_for r ([1, 2] @ payload @ [3]) 4 = Some [1, 9]"
proof -
  let ?es = "[(4, 1), (4, 9), (300, 2)] :: (node_id \<times> scope_id) list"
  let ?w = "fold rw_push ?es (rw_with_block_size Blocked 4)"
  have "map_option (\<lambda>(b, p). (b, length p)) (rw_finish ?w) = Some (BLOCKED_BLOB_TYPE, 69)" by code_simp
  then obtain payload where p: "rw_finish ?w = Some (BLOCKED_BLOB_TYPE, payload)" "length payload = 69" by auto
  have "sorted_wrt (<) ?es" by code_simp
  from registry_reads_back [OF this, of 4 Blocked "[1, 2]" "[3]"] p show ?thesis
    by (auto simp flip: numeral_2_eq_2)
qed

end
