(* ===== verification/Member_Codec.thy ===== *)
theory Member_Codec
  imports Blocked_Table
begin

text \<open>
  The member index of \<^verbatim>\<open>src/storage/members.rs\<close>: the pairs of a routing table by parent, so that a
  component can be listed downward. The flat form is a pair table with repeated keys; the blocked
  form is the layout of \<open>Blocked_Table\<close>, whose reader stops decoding at the caller's limit.

  Pairs pushed in ascending order read back: the children of a parent, up to the limit, are the
  first ones pushed for it, in either encoding.
\<close>

section \<open>The writer\<close>

datatype member_encoding = MemberFlat | MemberBlocked

definition member_encoding_from_str :: "string \<Rightarrow> string + member_encoding" where
  "member_encoding_from_str s =
     (if s = ''flat'' \<or> s = ''v1'' then Inr MemberFlat
      else if s = ''blocked'' \<or> s = ''varint'' \<or> s = ''v2'' then Inr MemberBlocked
      else Inl s)"

definition member_encoding_to_str :: "member_encoding \<Rightarrow> string" where
  "member_encoding_to_str e = (case e of MemberFlat \<Rightarrow> ''flat'' | MemberBlocked \<Rightarrow> ''blocked'')"

datatype member_tier = Shared | Overlay

definition SHARED_FLAT_BLOB_TYPE :: string where "SHARED_FLAT_BLOB_TYPE = ''blaze-shared-members-v1''"
definition SHARED_BLOCKED_BLOB_TYPE :: string where "SHARED_BLOCKED_BLOB_TYPE = ''blaze-shared-members-v2''"
definition OVERLAY_FLAT_BLOB_TYPE :: string where "OVERLAY_FLAT_BLOB_TYPE = ''blaze-overlay-members-v1''"
definition OVERLAY_BLOCKED_BLOB_TYPE :: string where "OVERLAY_BLOCKED_BLOB_TYPE = ''blaze-overlay-members-v2''"

record member_writer =
  mw_encoding :: member_encoding
  mw_tier :: member_tier
  mw_pairs :: u64
  mw_flat :: bytes
  mw_blk :: blocked_writer

definition mw_with_block_size :: "member_encoding \<Rightarrow> member_tier \<Rightarrow> nat \<Rightarrow> member_writer" where
  "mw_with_block_size encoding tr block_bytes =
     \<lparr>mw_encoding = encoding, mw_tier = tr, mw_pairs = 0,
      mw_flat = (if encoding = MemberFlat then u64_to_le_bytes 0 else []),
      mw_blk = bw_new block_bytes\<rparr>"

definition mw_new :: "member_encoding \<Rightarrow> member_tier \<Rightarrow> member_writer" where
  "mw_new encoding tr = mw_with_block_size encoding tr BLOCK_BYTES"

definition mw_push :: "node_id \<times> node_id \<Rightarrow> member_writer \<Rightarrow> member_writer" where
  "mw_push p w =
     (let (parent, child) = p in
      case mw_encoding w of
        MemberFlat \<Rightarrow>
          w\<lparr>mw_flat := mw_flat w @ u64_to_le_bytes parent @ u64_to_le_bytes child, mw_pairs := mw_pairs w + 1\<rparr>
      | MemberBlocked \<Rightarrow> w\<lparr>mw_blk := push_entry parent child (mw_blk w), mw_pairs := mw_pairs w + 1\<rparr>)"

definition mw_finish :: "member_writer \<Rightarrow> (string \<times> bytes) option" where
  "mw_finish w =
     (if mw_pairs w = 0 then None
      else let (flat_type, blocked_type) =
             (case mw_tier w of
                Shared \<Rightarrow> (SHARED_FLAT_BLOB_TYPE, SHARED_BLOCKED_BLOB_TYPE)
              | Overlay \<Rightarrow> (OVERLAY_FLAT_BLOB_TYPE, OVERLAY_BLOCKED_BLOB_TYPE)) in
           case mw_encoding w of
             MemberFlat \<Rightarrow> Some (flat_type, u64_to_le_bytes (mw_pairs w) @ drop 8 (mw_flat w))
           | MemberBlocked \<Rightarrow> Some (blocked_type, blocked_payload (mw_pairs w) (mw_blk w)))"

section \<open>The reader\<close>

definition blocked_members_parse :: "bytes \<Rightarrow> nat \<Rightarrow> nat \<Rightarrow> blocked_table result" where
  "blocked_members_parse data a b = blocked_parse data a b"

text \<open>
  The children of the wanted record. Decoding stops at the limit; a varint that cannot be read ends
  the record with what was appended so far.
\<close>

fun take_children :: "bytes \<Rightarrow> nat \<Rightarrow> nat \<Rightarrow> node_id \<Rightarrow> nat \<Rightarrow> node_id list \<Rightarrow> node_id list" where
  "take_children data 0 limit child i out = out"
| "take_children data (Suc k) 0 child i out = out"
| "take_children data (Suc k) (Suc limit) child i out =
     (case get_varint data i of
        Inl _ \<Rightarrow> out
      | Inr (gap, next) \<Rightarrow> take_children data k limit (child + gap) next (out @ [child + gap]))"

text \<open>The records of a block. An error of the block leaves the vector as it is.\<close>

fun member_records :: "bytes \<Rightarrow> nat \<Rightarrow> node_id \<Rightarrow> nat \<Rightarrow> node_id list \<Rightarrow> nat \<Rightarrow> bool \<Rightarrow> node_id \<Rightarrow> nat \<Rightarrow> node_id list"
where
  "member_records data fin want limit out 0 first cur i = out"
| "member_records data fin want limit out (Suc n) first cur i =
     (case (if first then Inr (cur, i)
            else and_then (get_varint data i) (\<lambda>(gap, next). Inr (cur + gap, next))) of
        Inl _ \<Rightarrow> out
      | Inr (cur, i) \<Rightarrow>
          (case get_varint data i of
             Inl _ \<Rightarrow> out
           | Inr (k, i) \<Rightarrow>
               if cur > want then out
               else if cur = want then take_children data (unat k) limit 0 i out
               else (case read_gaps data (unat k) 0 i of
                  Inl _ \<Rightarrow> out
                | Inr (_, i) \<Rightarrow>
                    if i \<le> fin then member_records data fin want limit out n False cur i else out)))"

definition member_decode_block ::
  "blocked_table \<Rightarrow> bytes \<Rightarrow> nat \<Rightarrow> node_id \<Rightarrow> nat \<Rightarrow> node_id list \<Rightarrow> node_id list option" where
  "member_decode_block t data block want limit out =
     (let at = bt_blocks_at t + unat (bt_offsets t ! block);
          fin = bt_blocks_at t + unat (bt_offsets t ! (block + 1)) in
      do { records \<leftarrow> u32_at data (at + 8);
           Some (member_records data fin want limit out (unat records) True (bt_first_keys t ! block) (at + 12)) })"

definition blocked_children_of :: "blocked_table \<Rightarrow> bytes \<Rightarrow> node_id \<Rightarrow> nat \<Rightarrow> node_id list \<Rightarrow> node_id list option" where
  "blocked_children_of t data parent limit out =
     (if limit = 0 then Some out
      else let after = partition_point (\<lambda>p. p \<le> parent) (bt_first_keys t) in
        if after = 0 then Some out
        else member_decode_block t data (after - 1) parent limit out)"

text \<open>A member index in whichever encoding its run was written with.\<close>

datatype member_table = FlatMembers pair_table | BlockedMembers blocked_table

definition table_children_of :: "member_table \<Rightarrow> bytes \<Rightarrow> node_id \<Rightarrow> nat \<Rightarrow> node_id list \<Rightarrow> node_id list option" where
  "table_children_of m data parent limit out =
     (case m of
        FlatMembers t \<Rightarrow> values_for t data parent limit out
      | BlockedMembers t \<Rightarrow> blocked_children_of t data parent limit out)"

definition member_heap_bytes :: "member_table \<Rightarrow> nat" where
  "member_heap_bytes m =
     (case m of
        FlatMembers t \<Rightarrow> (case pt_index t of None \<Rightarrow> 0 | Some ix \<Rightarrow> length (first_keys ix) * 8)
      | BlockedMembers t \<Rightarrow> blocked_heap_bytes t)"

section \<open>The writer holds what was pushed\<close>

definition mw_holds :: "member_writer \<Rightarrow> (node_id \<times> node_id) list \<Rightarrow> bool" where
  "mw_holds w ps \<longleftrightarrow> mw_pairs w = word_of_nat (length ps) \<and>
     (case mw_encoding w of
        MemberFlat \<Rightarrow> mw_flat w = u64_to_le_bytes 0 @ concat (map pair_bytes ps)
      | MemberBlocked \<Rightarrow> holds_entries (mw_blk w) ps)"

lemma mw_holds_new: "n < 2 ^ 32 \<Longrightarrow> mw_holds (mw_with_block_size enc tr n) []"
  by (cases enc) (simp_all add: mw_holds_def mw_with_block_size_def holds_entries_new)

lemma mw_push_holds:
  assumes "mw_holds w ps" and "sorted (ps @ [p])"
  shows "mw_holds (mw_push p w) (ps @ [p])" and "mw_encoding (mw_push p w) = mw_encoding w"
    and "mw_tier (mw_push p w) = mw_tier w"
proof -
  have "fst (last ps) \<le> fst p" if "ps \<noteq> []"
    using assms(2) that by (cases ps rule: rev_cases) (auto simp: sorted_append less_eq_prod_def)
  then show "mw_holds (mw_push p w) (ps @ [p])"
    using assms(1) push_entry_holds [of "mw_blk w" ps "fst p" "snd p"]
    by (auto simp: mw_holds_def mw_push_def pair_bytes_def split: prod.splits member_encoding.splits)
qed (simp_all add: mw_push_def split: prod.splits member_encoding.splits)

lemma mw_fold_holds:
  assumes "sorted (ds @ ps)" and "mw_holds w ds"
  shows "mw_holds (fold mw_push ps w) (ds @ ps) \<and> mw_encoding (fold mw_push ps w) = mw_encoding w \<and>
    mw_tier (fold mw_push ps w) = mw_tier w"
  using assms
proof (induction ps arbitrary: ds w)
  case (Cons p ps)
  have "sorted (ds @ [p])" using Cons(2) by (simp add: sorted_append)
  from mw_push_holds [OF Cons(3) this] Cons(1) [of "ds @ [p]" "mw_push p w"] Cons(2)
  show ?case by simp
qed simp

section \<open>Reading back\<close>

lemma take_children_put:
  "data = pre @ put_gaps v vs @ suf \<Longrightarrow> i = length pre \<Longrightarrow>
     take_children data (length vs) limit v i out = out @ take limit vs"
proof (induction vs arbitrary: pre v i out limit)
  case (Cons x vs)
  show ?case
  proof (cases limit)
    case (Suc l)
    have "get_varint data i = Inr (x - v, i + length (put_varint (x - v)))"
      using Cons(2,3) by (intro get_put_varint [of _ pre _ "put_gaps x vs @ suf"]) auto
    moreover have "take_children data (length vs) l x (i + length (put_varint (x - v))) (out @ [x]) =
        (out @ [x]) @ take l vs"
      using Cons(2,3) by (intro Cons(1) [of "pre @ put_varint (x - v)"]) auto
    ultimately show ?thesis by (simp add: Suc)
  qed simp
qed simp

lemma take_children_record:
  assumes "data = pre @ record_bytes vs @ suf" and "i = length pre" and "length vs < 2 ^ 64"
    and "get_varint data i = Inr (k, j)"
  shows "take_children data (unat k) limit 0 j out = out @ take limit vs"
proof -
  let ?p = "put_varint (word_of_nat (length vs))"
  have "get_varint data i = Inr (word_of_nat (length vs), i + length ?p)"
    using assms(1,2) by (intro get_put_varint [of _ pre _ "put_gaps 0 vs @ suf"]) (auto simp: record_bytes_def)
  then have "k = word_of_nat (length vs)" "j = i + length ?p" using assms(4) by simp_all
  moreover have "unat (word_of_nat (length vs) :: u64) = length vs" using assms(3) by (rule unat_word_of_nat_small)
  ultimately show ?thesis
    using take_children_put [of data "pre @ ?p" 0 vs suf j limit out] assms(1,2) by (simp add: record_bytes_def)
qed

lemma member_records_rest:
  assumes "data = pre @ rest_bytes prev rs @ suf" and "i = length pre" and "i + length (rest_bytes prev rs) \<le> fin"
    and "sorted_wrt (<) (map fst rs)" and "\<forall>(k, vs) \<in> set rs. length vs < 2 ^ 64"
  shows "member_records data fin want limit out (length rs) False prev i =
    out @ take limit (case map_of rs want of None \<Rightarrow> [] | Some vs \<Rightarrow> vs)"
  using assms
proof (induction prev rs arbitrary: pre i rule: rest_bytes.induct)
  case (2 prev k vs rs)
  let ?gap = "put_varint (k - prev)"
  have g: "get_varint data i = Inr (k - prev, i + length ?gap)"
    using 2(2,3) by (intro get_put_varint [of _ pre _ "record_bytes vs @ rest_bytes k rs @ suf"]) auto
  obtain j where r: "get_varint data (i + length ?gap) = Inr (word_of_nat (length vs), j)"
    "unat (word_of_nat (length vs) :: u64) = length vs"
    "read_gaps data (length vs) 0 j = Inr (vs, i + length ?gap + length (record_bytes vs))"
    by (rule read_record [of data "pre @ ?gap" vs "rest_bytes k rs @ suf" "i + length ?gap"]) (use 2 in auto)
  have t: "take_children data (unat (word_of_nat (length vs) :: u64)) limit 0 j out = out @ take limit vs"
    by (rule take_children_record [of data "pre @ ?gap" vs "rest_bytes k rs @ suf" "i + length ?gap"])
      (use 2 r in auto)
  have IH: "member_records data fin want limit out (length rs) False k (i + length ?gap + length (record_bytes vs)) =
      out @ take limit (case map_of rs want of None \<Rightarrow> [] | Some vs \<Rightarrow> vs)"
    by (rule 2(1) [of "pre @ ?gap @ record_bytes vs"]) (use 2 in auto)
  have "map_of rs want = None" if "\<not> k < want"
    using 2(5) that by (fastforce simp: map_of_eq_None_iff)
  then show ?case using g r t IH 2(4) by auto
qed simp

lemma member_records_block:
  assumes "data = pre @ block_body b @ suf" and "i = length pre" and "i + length (block_body b) \<le> fin"
    and "sorted_wrt (<) (map fst b)" and "\<forall>(k, vs) \<in> set b. length vs < 2 ^ 64" and "b \<noteq> []"
  shows "member_records data fin want limit out (length b) True (fst (hd b)) i =
    out @ take limit (case map_of b want of None \<Rightarrow> [] | Some vs \<Rightarrow> vs)"
proof -
  obtain k vs rs where b: "b = (k, vs) # rs" using assms(6) by (cases b) auto
  obtain j where r: "get_varint data i = Inr (word_of_nat (length vs), j)"
    "unat (word_of_nat (length vs) :: u64) = length vs"
    "read_gaps data (length vs) 0 j = Inr (vs, i + length (record_bytes vs))"
    by (rule read_record [of data pre vs "rest_bytes k rs @ suf" i]) (use assms b in auto)
  have t: "take_children data (unat (word_of_nat (length vs) :: u64)) limit 0 j out = out @ take limit vs"
    by (rule take_children_record [of data pre vs "rest_bytes k rs @ suf" i]) (use assms b r in auto)
  have "member_records data fin want limit out (length rs) False k (i + length (record_bytes vs)) =
      out @ take limit (case map_of rs want of None \<Rightarrow> [] | Some vs \<Rightarrow> vs)"
    by (rule member_records_rest [of _ "pre @ record_bytes vs" _ _ suf]) (use assms b in auto)
  moreover have "map_of rs want = None" if "\<not> k < want"
    using assms(4) that by (fastforce simp: b map_of_eq_None_iff)
  ultimately show ?thesis using r t assms(3) by (auto simp: b)
qed

lemma blocked_children_of_spec:
  assumes t: "table_blocks t data bs" and keys: "sorted_wrt (<) (map fst (concat bs))"
    and small: "\<forall>(k, vs) \<in> set (concat bs). length vs < 2 ^ 64"
  shows "blocked_children_of t data parent limit out =
    Some (out @ take limit (case map_of (concat bs) parent of None \<Rightarrow> [] | Some vs \<Rightarrow> vs))"
proof -
  let ?after = "partition_point (\<lambda>r. r \<le> parent) (bt_first_keys t)"
  have first: "bt_first_keys t = map (\<lambda>b. fst (hd b)) bs" and ne: "\<forall>b \<in> set bs. b \<noteq> []"
    using t by (auto simp: table_blocks_def)
  note find = block_for_key [OF keys ne, of parent]
  show ?thesis
  proof (cases "?after = 0")
    case True
    then show ?thesis using find(1) by (simp add: blocked_children_of_def first)
  next
    case False
    let ?j = "?after - 1"
    have j: "?j < length bs" and m: "map_of (concat bs) parent = map_of (bs ! ?j) parent"
      using find(2) False by (simp_all add: first)
    from table_block [OF t j] obtain pre suf where b:
      "data = pre @ block_body (bs ! ?j) @ suf" "length pre = bt_blocks_at t + unat (bt_offsets t ! ?j) + 12"
      "u32_at data (bt_blocks_at t + unat (bt_offsets t ! ?j) + 8) = Some (word_of_nat (length (bs ! ?j)))"
      "unat (word_of_nat (length (bs ! ?j)) :: u32) = length (bs ! ?j)" "bt_first_keys t ! ?j = fst (hd (bs ! ?j))"
      "bt_blocks_at t + unat (bt_offsets t ! ?j) + 12 + length (block_body (bs ! ?j)) =
         bt_blocks_at t + unat (bt_offsets t ! (?j + 1))" "bs ! ?j \<noteq> []"
      by metis
    have sub: "bs ! ?j \<in> set bs" using j by simp
    have "sorted_wrt (<) (map fst (bs ! ?j))" using keys by (rule sorted_block [OF sub])
    then have "member_decode_block t data ?j parent limit out =
        Some (out @ take limit (case map_of (bs ! ?j) parent of None \<Rightarrow> [] | Some vs \<Rightarrow> vs))"
      unfolding member_decode_block_def Let_def b(3) Option.bind.simps b(4,5) option.inject
      by (intro member_records_block [OF b(1)]) (use b small sub in auto)
    then show ?thesis using False by (simp add: blocked_children_of_def m)
  qed
qed

text \<open>The blob type decides how a member payload is parsed.\<close>

definition member_parse :: "string \<Rightarrow> bytes \<Rightarrow> nat \<Rightarrow> nat \<Rightarrow> member_table result" where
  "member_parse blob_type data a b =
     (if blob_type = SHARED_FLAT_BLOB_TYPE \<or> blob_type = OVERLAY_FLAT_BLOB_TYPE
      then and_then (pair_table_parse data a b) (\<lambda>t. Inr (FlatMembers t))
      else and_then (blocked_members_parse data a b) (\<lambda>t. Inr (BlockedMembers t)))"

definition children_mean :: "member_table \<Rightarrow> bytes \<Rightarrow> (node_id \<times> node_id) list \<Rightarrow> bool" where
  "children_mean m data ps \<longleftrightarrow> (\<forall>parent limit out. table_children_of m data parent limit out =
     Some (out @ take limit (map snd (filter (\<lambda>p. fst p = parent) ps))))"

definition member_blob_types :: "member_tier \<Rightarrow> string \<times> string" where
  "member_blob_types tr =
     (case tr of
        Shared \<Rightarrow> (SHARED_FLAT_BLOB_TYPE, SHARED_BLOCKED_BLOB_TYPE)
      | Overlay \<Rightarrow> (OVERLAY_FLAT_BLOB_TYPE, OVERLAY_BLOCKED_BLOB_TYPE))"

lemmas member_blob_type_defs = SHARED_FLAT_BLOB_TYPE_def SHARED_BLOCKED_BLOB_TYPE_def
  OVERLAY_FLAT_BLOB_TYPE_def OVERLAY_BLOCKED_BLOB_TYPE_def

lemma mw_finish_cases:
  assumes "mw_finish w = Some (blob, payload)"
  shows "mw_encoding w = MemberFlat \<Longrightarrow> blob = fst (member_blob_types (mw_tier w)) \<and>
      payload = u64_to_le_bytes (mw_pairs w) @ drop 8 (mw_flat w)"
    and "mw_encoding w = MemberBlocked \<Longrightarrow> blob = snd (member_blob_types (mw_tier w)) \<and>
      payload = blocked_payload (mw_pairs w) (mw_blk w)"
  using assms by (auto simp: mw_finish_def member_blob_types_def split: if_splits member_tier.splits)

lemma flat_members_mean:
  assumes "slice data a b = Some (counted pair_bytes ps)" and "8 + length ps * 16 < 2 ^ 64" and "sorted ps"
  obtains t where "pair_table_parse data a b = Inr t" and "children_mean (FlatMembers t) data ps"
proof -
  have "sorted (map fst ps)" using assms(3) by (induction ps) (auto simp: less_eq_prod_def)
  then show thesis
    using that pair_table_parse_counted [OF assms(1,2)] values_for_spec
    by (simp add: children_mean_def table_children_of_def)
qed

lemma blocked_members_mean:
  assumes sl: "slice data a b = Some (layout n bs)" and fit: "length (layout n bs) < 2 ^ 64"
    and bs: "\<forall>b \<in> set bs. b \<noteq> [] \<and> length b < 2 ^ 32" "sorted_wrt (<) (map fst (concat bs))"
  obtains t where "blocked_members_parse data a b = Inr t"
    and "children_mean (BlockedMembers t) data (ungroup (concat bs))"
proof -
  have "\<forall>b \<in> set bs. b \<noteq> []" using bs(1) by blast
  from blocked_parse_layout [OF sl fit bs(1) first_keys_ascend [OF bs(2) this]]
  obtain t where t: "blocked_parse data a b = Inr t" "table_blocks t data bs" by metis
  have "distinct (map fst (concat bs))" using bs(2) by (simp only: strict_sorted_iff)
  then have "children_mean (BlockedMembers t) data (ungroup (concat bs))"
    using blocked_children_of_spec [OF t(2) bs(2) values_small [OF fit]] filter_ungroup [of "concat bs"]
    by (simp add: children_mean_def table_children_of_def)
  then show thesis using that t(1) by (simp add: blocked_members_parse_def)
qed

lemma member_payload_means:
  assumes ps: "sorted ps" "ps \<noteq> []" and n: "block < 2 ^ 32" "length ps < 2 ^ 59"
    and fin: "mw_finish (fold mw_push ps (mw_with_block_size enc tr block)) = Some (blob, payload)"
    and sl: "slice data a b = Some payload" and fit: "length payload < 2 ^ 64"
  obtains m where "member_parse blob data a b = Inr m" and "children_mean m data ps"
    and "blob = (if enc = MemberFlat then fst (member_blob_types tr) else snd (member_blob_types tr))"
proof -
  let ?w = "fold mw_push ps (mw_with_block_size enc tr block)"
  have h: "mw_holds ?w ps" and enc: "mw_encoding ?w = enc" and tr: "mw_tier ?w = tr"
    using mw_fold_holds [of "[]" ps "mw_with_block_size enc tr block"] mw_holds_new [OF n(1)] ps(1)
    by (simp_all add: mw_with_block_size_def)
  show thesis
  proof (cases enc)
    case MemberFlat
    have "payload = counted pair_bytes ps" and b: "blob = fst (member_blob_types tr)"
      using mw_finish_cases(1) [OF fin] h enc tr MemberFlat by (simp_all add: mw_holds_def counted_def)
    then obtain t where "pair_table_parse data a b = Inr t" "children_mean (FlatMembers t) data ps"
      using flat_members_mean [of data a b ps] sl n(2) ps(1) by auto
    then show thesis
      using that [of "FlatMembers t"] b MemberFlat
      by (auto simp: member_parse_def member_blob_types_def split: member_tier.splits)
  next
    case MemberBlocked
    have he: "holds_entries (mw_blk ?w) ps" using h enc MemberBlocked by (simp add: mw_holds_def)
    obtain bs where bs: "blocked_payload (mw_pairs ?w) (mw_blk ?w) = layout (mw_pairs ?w) bs"
      "ungroup (concat bs) = ps" "sorted_wrt (<) (map fst (concat bs))"
      "\<forall>b \<in> set bs. b \<noteq> [] \<and> length b < 2 ^ 32"
      using holds_entries_payload [OF he ps(2)] .
    have p: "payload = layout (mw_pairs ?w) bs" and b: "blob = snd (member_blob_types tr)"
      using mw_finish_cases(2) [OF fin] enc tr MemberBlocked bs(1) by simp_all
    obtain t where "blocked_members_parse data a b = Inr t" "children_mean (BlockedMembers t) data ps"
      using blocked_members_mean [OF sl [unfolded p] fit [unfolded p] bs(4,3)] bs(2) by auto
    then show thesis
      using that [of "BlockedMembers t"] b MemberBlocked
      by (auto simp: member_parse_def member_blob_types_def member_blob_type_defs split: member_tier.splits)
  qed
qed

lemma length_word_zero:
  assumes "length ps < 2 ^ 64"
  shows "(word_of_nat (length ps) :: u64) = 0 \<longleftrightarrow> ps = []"
proof
  assume "(word_of_nat (length ps) :: u64) = 0"
  then have "unat (word_of_nat (length ps) :: u64) = 0" by simp
  then show "ps = []" using unat_word_of_nat_small [OF assms] by simp
qed simp

lemma mw_finish_iff:
  assumes "sorted ps" and "block < 2 ^ 32" and "length ps < 2 ^ 59"
  shows "mw_finish (fold mw_push ps (mw_with_block_size enc tr block)) = None \<longleftrightarrow> ps = []"
proof -
  let ?w = "fold mw_push ps (mw_with_block_size enc tr block)"
  have "mw_pairs ?w = word_of_nat (length ps)"
    using mw_fold_holds [of "[]" ps] mw_holds_new [OF assms(2)] assms(1) by (simp add: mw_holds_def)
  moreover have "(word_of_nat (length ps) :: u64) = 0 \<longleftrightarrow> ps = []"
    using assms(3) by (intro length_word_zero) simp
  ultimately have "mw_pairs ?w = 0 \<longleftrightarrow> ps = []" by (simp only:)
  then show ?thesis by (simp add: mw_finish_def split: member_encoding.split member_tier.split)
qed

text \<open>
  C22: A member index written from pairs in ascending order, in either encoding, at any block size
  and for either tier, reads back from wherever it lies in a file: for every limit, the children of
  a parent are the first ones written for it, appended to what the caller already had.
\<close>

theorem members_read_back:
  assumes "sorted ps" and "ps \<noteq> []" and "block < 2 ^ 32" and "length ps < 2 ^ 59"
  shows "\<exists>blob payload. mw_finish (fold mw_push ps (mw_with_block_size enc tr block)) = Some (blob, payload) \<and>
    (length payload < 2 ^ 64 \<longrightarrow>
      (\<exists>m. member_parse blob (pre @ payload @ suf) (length pre) (length pre + length payload) = Inr m \<and>
        (\<forall>parent limit out. table_children_of m (pre @ payload @ suf) parent limit out =
           Some (out @ take limit (map snd (filter (\<lambda>p. fst p = parent) ps))))))"
proof -
  obtain blob payload where f: "mw_finish (fold mw_push ps (mw_with_block_size enc tr block)) = Some (blob, payload)"
    using mw_finish_iff [OF assms(1,3,4), of enc tr] assms(2) by auto
  have "\<exists>m. member_parse blob (pre @ payload @ suf) (length pre) (length pre + length payload) = Inr m \<and>
      children_mean m (pre @ payload @ suf) ps" if "length payload < 2 ^ 64"
    using member_payload_means [OF assms f slice_middle that] by metis
  then show ?thesis using f by (auto simp: children_mean_def)
qed

theorem members_read_back_witness:
  "\<exists>payload m. mw_finish (fold mw_push [(4, 5), (4, 9), (300, 302)] (mw_with_block_size MemberBlocked Shared 4)) =
       Some (SHARED_BLOCKED_BLOB_TYPE, payload) \<and>
     member_parse SHARED_BLOCKED_BLOB_TYPE ([1, 2] @ payload @ [3]) 2 (2 + length payload) = Inr m \<and>
     table_children_of m ([1, 2] @ payload @ [3]) 4 1 [7] = Some [7, 5]"
proof -
  let ?ps = "[(4, 5), (4, 9), (300, 302)] :: (node_id \<times> node_id) list"
  let ?w = "fold mw_push ?ps (mw_with_block_size MemberBlocked Shared 4)"
  have "map_option (\<lambda>(b, p). (b, length p)) (mw_finish ?w) = Some (SHARED_BLOCKED_BLOB_TYPE, 70)" by code_simp
  then obtain payload where p: "mw_finish ?w = Some (SHARED_BLOCKED_BLOB_TYPE, payload)" "length payload = 70" by auto
  have "sorted ?ps" by code_simp
  from members_read_back [OF this, of 4 MemberBlocked Shared "[1, 2]" "[3]"] p show ?thesis
    by (auto simp flip: numeral_2_eq_2)
qed

end
