(* ===== verification/Puffin.thy ===== *)
theory Puffin
  imports Byte_Codec
begin

text \<open>
  The Puffin container of \<^verbatim>\<open>src/storage/puffin.rs\<close>: blobs between two magic markers, followed by a
  JSON footer that says where they lie. The JSON text is produced and read by a library, so it is a
  pair of functions that the container is given; what the code relies on is that reading returns
  what was written.

  The file shows that a written container reads back as its blobs, and that an index read from
  arbitrary bytes never names a range outside the blob area.
\<close>

section \<open>Blobs\<close>

text \<open>The string properties, an ordered map in the code, are an association list in key order.\<close>

type_synonym properties = "(string \<times> string) list"

definition MAGIC :: bytes where
  "MAGIC = [0x50, 0x46, 0x41, 0x31]"

record blob =
  blob_type :: string
  blob_data :: bytes
  blob_properties :: properties
  blob_snapshot_id :: i64
  blob_sequence_number :: i64

record blob_index =
  bi_type :: string
  bi_offset :: nat
  bi_length :: nat
  bi_properties :: properties
  bi_snapshot_id :: i64
  bi_sequence_number :: i64

definition bi_range :: "blob_index \<Rightarrow> nat \<times> nat" where
  "bi_range b = (bi_offset b, bi_offset b + bi_length b)"

record blob_metadata =
  bm_type :: string
  bm_fields :: "32 word list"
  bm_snapshot_id :: i64
  bm_sequence_number :: i64
  bm_offset :: u64
  bm_length :: u64
  bm_compression_codec :: "string option"
  bm_properties :: properties

record file_metadata =
  fm_blobs :: "blob_metadata list"
  fm_properties :: properties

text \<open>The JSON library: \<^verbatim>\<open>serde_json::to_vec\<close> and \<^verbatim>\<open>serde_json::from_slice\<close> on the footer.\<close>

record json =
  to_vec :: "file_metadata \<Rightarrow> bytes"
  from_slice :: "bytes \<Rightarrow> file_metadata option"

text \<open>
  What the container relies on, for the one footer it writes. The properties of a footer come from
  ordered maps, so nothing is asked of the library for lists that are not in key order.
\<close>

definition json_ok :: "json \<Rightarrow> file_metadata \<Rightarrow> bool" where
  "json_ok j m \<longleftrightarrow> from_slice j (to_vec j m) = Some m"

section \<open>Writing\<close>

definition metadata_of :: "nat \<Rightarrow> blob \<Rightarrow> blob_metadata" where
  "metadata_of offset b =
     \<lparr>bm_type = blob_type b, bm_fields = [], bm_snapshot_id = blob_snapshot_id b,
      bm_sequence_number = blob_sequence_number b, bm_offset = word_of_nat offset,
      bm_length = word_of_nat (length (blob_data b)), bm_compression_codec = None,
      bm_properties = blob_properties b\<rparr>"

text \<open>The loop that appends the payloads and notes where each one starts.\<close>

fun write_blobs :: "bytes \<Rightarrow> blob list \<Rightarrow> bytes \<times> blob_metadata list" where
  "write_blobs out [] = (out, [])"
| "write_blobs out (b # bs) =
     (let (out', metas) = write_blobs (out @ blob_data b) bs in (out', metadata_of (length out) b # metas))"

text \<open>The assertion on the size of the footer panics: \<^const>\<open>None\<close>.\<close>

definition puffin_write :: "json \<Rightarrow> blob list \<Rightarrow> properties \<Rightarrow> bytes option" where
  "puffin_write j blobs file_properties =
     (let (out, metas) = write_blobs MAGIC blobs;
          payload = to_vec j \<lparr>fm_blobs = metas, fm_properties = file_properties\<rparr> in
      if length payload < 2 ^ 32
      then Some (out @ MAGIC @ payload @ u32_to_le_bytes (word_of_nat (length payload)) @ u32_to_le_bytes 0 @ MAGIC)
      else None)"

section \<open>Reading\<close>

definition checked_sub :: "nat \<Rightarrow> nat \<Rightarrow> nat option" where
  "checked_sub a b = (if b \<le> a then Some (a - b) else None)"

definition index_blob :: "nat \<Rightarrow> nat \<Rightarrow> blob_metadata \<Rightarrow> puffin_error + blob_index" where
  "index_blob n magic_start m =
     (let start = unat (bm_offset m); fin = min (start + unat (bm_length m)) (2 ^ 64 - 1) in
      if start < length MAGIC \<or> fin > magic_start
      then Inl (BlobOutOfBounds (bm_offset m) (bm_length m) n)
      else Inr \<lparr>bi_type = bm_type m, bi_offset = start, bi_length = unat (bm_length m),
                bi_properties = bm_properties m, bi_snapshot_id = bm_snapshot_id m,
                bi_sequence_number = bm_sequence_number m\<rparr>)"

fun collect_results :: "('e + 'a) list \<Rightarrow> 'e + 'a list" where
  "collect_results [] = Inr []"
| "collect_results (r # rs) = and_then r (\<lambda>x. and_then (collect_results rs) (\<lambda>xs. Inr (x # xs)))"

definition read_index :: "json \<Rightarrow> bytes \<Rightarrow> puffin_error + blob_index list" where
  "read_index j data =
     (let n = length data in
      ensure (\<not> n < length MAGIC * 3 + 8) TooSmall (
      ensure (take 4 data = MAGIC) (BadMagic ''file start'') (
      ensure (drop (n - 4) data = MAGIC) (BadMagic ''file end'') (
      let flags = u32_from_le_bytes (take 4 (drop (n - 8) data)) in
      ensure (flags = 0) (UnsupportedFlags flags) (
      let payload_len = unat (u32_from_le_bytes (take 4 (drop (n - 12) data)));
          payload_end = n - 12 in
      and_then (ok_or TooSmall (checked_sub payload_end payload_len)) (\<lambda>payload_start.
      and_then (ok_or TooSmall (checked_sub payload_start 4)) (\<lambda>magic_start.
      ensure (take (payload_start - magic_start) (drop magic_start data) = MAGIC) (BadMagic ''footer start'') (
      and_then (ok_or BadFooter (from_slice j (take (payload_end - payload_start) (drop payload_start data)))) (\<lambda>footer.
      collect_results (map (index_blob n magic_start) (fm_blobs footer)))))))))))"

text \<open>Taking the range of a blob out of the file panics when it does not lie inside: \<^const>\<open>None\<close>.\<close>

definition blob_at :: "bytes \<Rightarrow> blob_index \<Rightarrow> blob option" where
  "blob_at data i =
     do { payload \<leftarrow> slice data (fst (bi_range i)) (snd (bi_range i));
          Some \<lparr>blob_type = bi_type i, blob_data = payload,
                blob_properties = bi_properties i, blob_snapshot_id = bi_snapshot_id i,
                blob_sequence_number = bi_sequence_number i\<rparr> }"

definition puffin_read :: "json \<Rightarrow> bytes \<Rightarrow> (puffin_error + blob list) option" where
  "puffin_read j data =
     (case read_index j data of
        Inl e \<Rightarrow> Some (Inl e)
      | Inr index \<Rightarrow> map_option Inr (those (map (blob_at data) index)))"

section \<open>A written container reads back\<close>

lemma collect_results_Inr: "(\<And>x. x \<in> set xs \<Longrightarrow> f x = Inr (g x)) \<Longrightarrow> collect_results (map f xs) = Inr (map g xs)"
  by (induction xs) auto

lemma collect_results_nth:
  "collect_results rs = Inr xs \<Longrightarrow> length xs = length rs \<and> (\<forall>i < length rs. rs ! i = Inr (xs ! i))"
proof (induction rs arbitrary: xs)
  case (Cons r rs)
  then obtain y ys where "r = Inr y" "collect_results rs = Inr ys" "xs = y # ys"
    by (auto simp: and_then_Inr)
  with Cons show ?case by (auto simp: nth_Cons split: nat.splits)
qed simp

lemma length_MAGIC [simp]: "length MAGIC = 4"
  by (simp add: MAGIC_def)

fun blob_starts :: "nat \<Rightarrow> blob list \<Rightarrow> nat list" where
  "blob_starts at [] = []"
| "blob_starts at (b # bs) = at # blob_starts (at + length (blob_data b)) bs"

lemma write_blobs_eq:
  "write_blobs out bs = (out @ concat (map blob_data bs), map2 metadata_of (blob_starts (length out) bs) bs)"
  by (induction bs arbitrary: out) auto

text \<open>The footer of a container.\<close>

definition footer_of :: "blob list \<Rightarrow> properties \<Rightarrow> file_metadata" where
  "footer_of blobs props = \<lparr>fm_blobs = map2 metadata_of (blob_starts 4 blobs) blobs, fm_properties = props\<rparr>"

text \<open>Where a blob ends up, with the header fields an index carries.\<close>

definition placed :: "bytes \<Rightarrow> blob_index \<Rightarrow> blob \<Rightarrow> bool" where
  "placed data i b \<longleftrightarrow>
     bi_type i = blob_type b \<and> bi_properties i = blob_properties b \<and>
     bi_snapshot_id i = blob_snapshot_id b \<and> bi_sequence_number i = blob_sequence_number b \<and>
     slice data (bi_offset i) (bi_offset i + bi_length i) = Some (blob_data b)"

definition index_of_blob :: "nat \<Rightarrow> blob \<Rightarrow> blob_index" where
  "index_of_blob at b =
     \<lparr>bi_type = blob_type b, bi_offset = at, bi_length = length (blob_data b),
      bi_properties = blob_properties b, bi_snapshot_id = blob_snapshot_id b,
      bi_sequence_number = blob_sequence_number b\<rparr>"

lemma index_blob_written:
  assumes "4 \<le> at" and "at + length (blob_data b) \<le> magic_start" and "magic_start < 2 ^ 64"
  shows "index_blob n magic_start (metadata_of at b) = Inr (index_of_blob at b)"
proof -
  have "unat (word_of_nat at :: u64) = at" "unat (word_of_nat (length (blob_data b)) :: u64) = length (blob_data b)"
    using assms by (simp_all add: unat_of_nat take_bit_eq_mod)
  then show ?thesis using assms by (simp add: index_blob_def metadata_of_def index_of_blob_def Let_def)
qed

lemma index_blobs_written:
  assumes "4 \<le> at" and "at + length (concat (map blob_data bs)) \<le> magic_start" and "magic_start < 2 ^ 64"
  shows "collect_results (map (index_blob n magic_start) (map2 metadata_of (blob_starts at bs) bs)) =
    Inr (map2 index_of_blob (blob_starts at bs) bs)"
  using assms(1,2)
proof (induction bs arbitrary: at)
  case (Cons b bs)
  then show ?case using index_blob_written [of at b magic_start n] assms(3) by simp
qed simp

lemma written_blobs_placed:
  "data = pre @ concat (map blob_data bs) @ suf \<Longrightarrow>
     list_all2 (placed data) (map2 index_of_blob (blob_starts (length pre) bs) bs) bs"
proof (induction bs arbitrary: pre)
  case (Cons b bs)
  have "placed data (index_of_blob (length pre) b) b"
    using Cons(2) slice_middle [of pre "blob_data b" "concat (map blob_data bs) @ suf"]
    by (simp add: placed_def index_of_blob_def)
  moreover have "list_all2 (placed data) (map2 index_of_blob (blob_starts (length (pre @ blob_data b)) bs) bs) bs"
    using Cons(2) by (intro Cons(1)) simp
  ultimately show ?case by simp
qed simp

lemma read_index_written:
  assumes j: "json_ok j (footer_of blobs props)" and w: "puffin_write j blobs props = Some data" and fit: "length data < 2 ^ 64"
  obtains index where "read_index j data = Inr index" and "list_all2 (placed data) index blobs"
proof -
  let ?body = "concat (map blob_data blobs)"
  let ?meta = "\<lparr>fm_blobs = map2 metadata_of (blob_starts 4 blobs) blobs, fm_properties = props\<rparr>"
  let ?payload = "to_vec j ?meta"
  let ?len = "u32_to_le_bytes (word_of_nat (length ?payload))"
  have data: "data = MAGIC @ ?body @ MAGIC @ ?payload @ ?len @ u32_to_le_bytes 0 @ MAGIC" and small: "length ?payload < 2 ^ 32"
    using w by (auto simp: puffin_write_def write_blobs_eq Let_def split: if_splits)
  let ?n = "length data" and ?m = "4 + length ?body"
  have n: "?n = ?m + 4 + length ?payload + 12" by (simp add: data)
  have ends: "take 4 data = MAGIC" "drop (?n - 4) data = MAGIC" by (simp_all add: data)
  have flags: "take 4 (drop (?n - 8) data) = u32_to_le_bytes 0" by (simp add: data)
  have plen: "take 4 (drop (?n - 12) data) = ?len" by (simp add: data)
  have plen': "unat (u32_from_le_bytes ?len) = length ?payload"
    using small by (simp add: unat_of_nat take_bit_eq_mod)
  have sub: "checked_sub (?n - 12) (length ?payload) = Some (?m + 4)" "checked_sub (?m + 4) 4 = Some ?m"
    by (simp_all add: checked_sub_def n)
  have mid: "take 4 (drop ?m data) = MAGIC" "take (length ?payload) (drop (?m + 4) data) = ?payload"
    by (simp_all add: data)
  have foot: "from_slice j ?payload = Some ?meta" using j by (simp add: json_ok_def footer_of_def)
  have ix: "collect_results (map (index_blob ?n ?m) (fm_blobs ?meta)) = Inr (map2 index_of_blob (blob_starts 4 blobs) blobs)"
    using index_blobs_written [of 4 blobs ?m ?n] n fit by simp
  have diff: "?m + 4 - ?m = 4" "?n - 12 - (?m + 4) = length ?payload" using n by simp_all
  have "read_index j data = Inr (map2 index_of_blob (blob_starts 4 blobs) blobs)"
    using ends flags plen plen' sub mid foot ix diff n
    by (simp only: read_index_def Let_def ensure_True u32_from_to_le_bytes ok_or.simps and_then.simps) simp
  moreover have "list_all2 (placed data) (map2 index_of_blob (blob_starts 4 blobs) blobs) blobs"
    using written_blobs_placed [of data MAGIC blobs "MAGIC @ ?payload @ ?len @ u32_to_le_bytes 0 @ MAGIC"] data by simp
  ultimately show thesis using that by blast
qed

lemma collect_placed:
  "list_all2 (placed data) index blobs \<Longrightarrow> those (map (blob_at data) index) = Some blobs"
proof (induction index blobs rule: list_all2_induct)
  case (Cons i index b blobs)
  have "blob_at data i = Some b"
    using Cons(1) by (auto simp: placed_def blob_at_def bi_range_def)
  then show ?case using Cons by simp
qed simp

section \<open>A footer format\<close>

text \<open>
  A concrete writer and reader for the footer: it shows that the assumption on the JSON library can
  be met. A list is preceded by its length in unary, a word is written in little-endian bytes.
\<close>

definition codec :: "('a \<Rightarrow> bytes) \<Rightarrow> (bytes \<Rightarrow> ('a \<times> bytes) option) \<Rightarrow> bool" where
  "codec enc dec \<longleftrightarrow> (\<forall>x r. dec (enc x @ r) = Some (x, r))"

fun dec_unary :: "bytes \<Rightarrow> (nat \<times> bytes) option" where
  "dec_unary [] = None"
| "dec_unary (b # bs) = (if b = 0 then Some (0, bs) else map_option (apfst Suc) (dec_unary bs))"

fun dec_times :: "nat \<Rightarrow> (bytes \<Rightarrow> ('a \<times> bytes) option) \<Rightarrow> bytes \<Rightarrow> ('a list \<times> bytes) option" where
  "dec_times 0 dec bs = Some ([], bs)"
| "dec_times (Suc n) dec bs =
     do { (x, bs) \<leftarrow> dec bs; (xs, bs) \<leftarrow> dec_times n dec bs; Some (x # xs, bs) }"

definition enc_list :: "('a \<Rightarrow> bytes) \<Rightarrow> 'a list \<Rightarrow> bytes" where
  "enc_list enc xs = replicate (length xs) 1 @ 0 # concat (map enc xs)"

definition dec_list :: "(bytes \<Rightarrow> ('a \<times> bytes) option) \<Rightarrow> bytes \<Rightarrow> ('a list \<times> bytes) option" where
  "dec_list dec bs = do { (n, bs) \<leftarrow> dec_unary bs; dec_times n dec bs }"

definition enc_pair :: "('a \<Rightarrow> bytes) \<Rightarrow> ('b \<Rightarrow> bytes) \<Rightarrow> 'a \<times> 'b \<Rightarrow> bytes" where
  "enc_pair ea eb p = ea (fst p) @ eb (snd p)"

definition dec_pair :: "(bytes \<Rightarrow> ('a \<times> bytes) option) \<Rightarrow> (bytes \<Rightarrow> ('b \<times> bytes) option) \<Rightarrow> bytes \<Rightarrow>
    (('a \<times> 'b) \<times> bytes) option" where
  "dec_pair da db bs = do { (a, bs) \<leftarrow> da bs; (b, bs) \<leftarrow> db bs; Some ((a, b), bs) }"

definition dec_map :: "('a \<Rightarrow> 'b) \<Rightarrow> (bytes \<Rightarrow> ('a \<times> bytes) option) \<Rightarrow> bytes \<Rightarrow> ('b \<times> bytes) option" where
  "dec_map f dec bs = map_option (apfst f) (dec bs)"

definition dec_word64 :: "bytes \<Rightarrow> (u64 \<times> bytes) option" where
  "dec_word64 bs = Some (u64_from_le_bytes (take 8 bs), drop 8 bs)"

definition dec_word32 :: "bytes \<Rightarrow> (u32 \<times> bytes) option" where
  "dec_word32 bs = Some (u32_from_le_bytes (take 4 bs), drop 4 bs)"

definition enc_char :: "char \<Rightarrow> bytes" where
  "enc_char c = [word_of_nat (of_char c)]"

definition dec_char :: "bytes \<Rightarrow> (char \<times> bytes) option" where
  "dec_char bs = (case bs of [] \<Rightarrow> None | b # bs \<Rightarrow> Some (char_of (unat b), bs))"

lemma codec_word64: "codec u64_to_le_bytes dec_word64"
  by (simp add: codec_def dec_word64_def)

lemma codec_word32: "codec u32_to_le_bytes dec_word32"
  by (simp add: codec_def dec_word32_def)

lemma codec_char: "codec enc_char dec_char"
proof -
  have "unat (word_of_nat (of_char c) :: u8) = of_char c" for c :: char
    by (simp add: unat_of_nat take_bit_eq_mod)
  then show ?thesis by (simp add: codec_def enc_char_def dec_char_def)
qed

lemma codec_pair: "codec ea da \<Longrightarrow> codec eb db \<Longrightarrow> codec (enc_pair ea eb) (dec_pair da db)"
  by (simp add: codec_def enc_pair_def dec_pair_def)

lemma codec_map: "codec enc dec \<Longrightarrow> (\<And>x. f (g x) = x) \<Longrightarrow> codec (\<lambda>x. enc (g x)) (dec_map f dec)"
  by (simp add: codec_def dec_map_def)

lemma codec_list:
  assumes "codec enc dec"
  shows "codec (enc_list enc) (dec_list dec)"
proof -
  have u: "dec_unary (replicate n 1 @ 0 # r) = Some (n, r)" for n r by (induction n) auto
  have "dec_times (length xs) dec (concat (map enc xs) @ r) = Some (xs, r)" for xs r
    using assms by (induction xs) (auto simp: codec_def)
  then show ?thesis by (simp add: codec_def enc_list_def dec_list_def u)
qed

abbreviation enc_string :: "string \<Rightarrow> bytes" where "enc_string \<equiv> enc_list enc_char"
abbreviation dec_string :: "bytes \<Rightarrow> (string \<times> bytes) option" where "dec_string \<equiv> dec_list dec_char"
abbreviation enc_props :: "properties \<Rightarrow> bytes" where "enc_props \<equiv> enc_list (enc_pair enc_string enc_string)"
abbreviation dec_props :: "bytes \<Rightarrow> (properties \<times> bytes) option" where
  "dec_props \<equiv> dec_list (dec_pair dec_string dec_string)"

definition metadata_fields :: "blob_metadata \<Rightarrow> string \<times> u32 list \<times> i64 \<times> i64 \<times> u64 \<times> u64 \<times> string list \<times> properties" where
  "metadata_fields m = (bm_type m, bm_fields m, bm_snapshot_id m, bm_sequence_number m, bm_offset m, bm_length m,
     (case bm_compression_codec m of None \<Rightarrow> [] | Some c \<Rightarrow> [c]), bm_properties m)"

definition metadata_make :: "string \<times> u32 list \<times> i64 \<times> i64 \<times> u64 \<times> u64 \<times> string list \<times> properties \<Rightarrow> blob_metadata" where
  "metadata_make = (\<lambda>(t, fs, i, s, off, len, cc, ps). \<lparr>bm_type = t, bm_fields = fs, bm_snapshot_id = i,
     bm_sequence_number = s, bm_offset = off, bm_length = len,
     bm_compression_codec = (case cc of [] \<Rightarrow> None | c # _ \<Rightarrow> Some c), bm_properties = ps\<rparr>)"

definition enc_metadata :: "blob_metadata \<Rightarrow> bytes" where
  "enc_metadata m =
     enc_pair enc_string (enc_pair (enc_list u32_to_le_bytes) (enc_pair u64_to_le_bytes (enc_pair u64_to_le_bytes
       (enc_pair u64_to_le_bytes (enc_pair u64_to_le_bytes (enc_pair (enc_list enc_string) enc_props)))))) (metadata_fields m)"

definition dec_metadata :: "bytes \<Rightarrow> (blob_metadata \<times> bytes) option" where
  "dec_metadata =
     dec_map metadata_make (dec_pair dec_string (dec_pair (dec_list dec_word32) (dec_pair dec_word64 (dec_pair dec_word64
       (dec_pair dec_word64 (dec_pair dec_word64 (dec_pair (dec_list dec_string) dec_props)))))))"

definition plain_json :: json where
  "plain_json =
     \<lparr>to_vec = (\<lambda>m. enc_pair (enc_list enc_metadata) enc_props (fm_blobs m, fm_properties m)),
      from_slice = (\<lambda>bs. map_option (\<lambda>((b, p), _). \<lparr>fm_blobs = b, fm_properties = p\<rparr>)
        (dec_pair (dec_list dec_metadata) dec_props bs))\<rparr>"

lemmas codecs = codec_word64 codec_word32 codec_char codec_pair codec_list

lemma plain_json_ok: "json_ok plain_json m"
proof -
  have "codec enc_metadata dec_metadata"
    unfolding enc_metadata_def [abs_def] dec_metadata_def
    by (intro codec_map codecs) (simp add: metadata_fields_def metadata_make_def split: option.split)
  then have "codec (enc_pair (enc_list enc_metadata) enc_props) (dec_pair (dec_list dec_metadata) dec_props)"
    by (intro codecs)
  then have "dec_pair (dec_list dec_metadata) dec_props (enc_pair (enc_list enc_metadata) enc_props x @ []) = Some (x, [])" for x
    unfolding codec_def by blast
  then show ?thesis by (simp add: json_ok_def plain_json_def)
qed

lemma read_index_cases:
  assumes "read_index j data = Inr index"
  obtains start magic and footer :: file_metadata where "checked_sub start 4 = Some magic" and "start \<le> length data - 12"
    and "collect_results (map (index_blob (length data) magic) (fm_blobs footer)) = Inr index"
    and "20 \<le> length data"
proof -
  have "\<exists>len start magic (footer :: file_metadata). 20 \<le> length data \<and> checked_sub (length data - 12) len = Some start \<and>
      checked_sub start 4 = Some magic \<and>
      collect_results (map (index_blob (length data) magic) (fm_blobs footer)) = Inr index"
    using assms unfolding read_index_def Let_def result_Inr by (simp add: not_less) blast
  then obtain len start magic and footer :: file_metadata where *: "20 \<le> length data" "checked_sub (length data - 12) len = Some start"
    "checked_sub start 4 = Some magic" "collect_results (map (index_blob (length data) magic) (fm_blobs footer)) = Inr index"
    by blast
  have "start \<le> length data - 12" using *(2) by (auto simp: checked_sub_def split: if_splits)
  then show thesis using that [OF *(3) _ *(4,1)] by blast
qed

text \<open>The footer of a small container is small, so that writing it returns.\<close>

lemma puffin_write_small:
  assumes "length (to_vec j (footer_of blobs props)) < n" and "n \<le> 2 ^ 32"
  shows "\<exists>data. puffin_write j blobs props = Some data \<and> length data < 20 + n + length (concat (map blob_data blobs))"
  using assms by (auto simp: puffin_write_def write_blobs_eq footer_of_def Let_def)

section \<open>Properties\<close>

text \<open>
  C20: A container written from a list of blobs reads back as exactly these blobs, with their types,
  properties and sequence numbers, and without a panic, whatever JSON library the footer goes
  through as long as it reads back the footer that was written.
\<close>

theorem puffin_roundtrip:
  assumes "json_ok j (footer_of blobs props)" and "puffin_write j blobs props = Some data" and "length data < 2 ^ 64"
  shows "puffin_read j data = Some (Inr blobs)"
proof -
  obtain index where "read_index j data = Inr index" "list_all2 (placed data) index blobs"
    using read_index_written [OF assms] .
  then show ?thesis by (simp add: puffin_read_def collect_placed)
qed

theorem puffin_roundtrip_witness:
  "\<exists>data. puffin_write plain_json
       [\<lparr>blob_type = ''a'', blob_data = [1, 2, 3], blob_properties = [], blob_snapshot_id = 1, blob_sequence_number = 1\<rparr>] [] =
       Some data \<and>
     puffin_read plain_json data =
       Some (Inr [\<lparr>blob_type = ''a'', blob_data = [1, 2, 3], blob_properties = [], blob_snapshot_id = 1, blob_sequence_number = 1\<rparr>])"
proof -
  let ?bs = "[\<lparr>blob_type = ''a'', blob_data = [1, 2, 3], blob_properties = [], blob_snapshot_id = 1, blob_sequence_number = 1\<rparr>]"
  have "length (to_vec plain_json (footer_of ?bs [])) < 100" by code_simp
  from puffin_write_small [OF this]
  obtain data where d: "puffin_write plain_json ?bs [] = Some data" "length data < 123" by auto
  then have "length data < 2 ^ 64" by simp
  from d(1) puffin_roundtrip [OF plain_json_ok d(1) this] show ?thesis by blast
qed

text \<open>
  C24: Whatever bytes a file holds and whatever its footer says, every blob an index names lies
  between the leading marker and the footer: its range is inside the file, past the first four
  bytes and before the last sixteen.
\<close>

theorem indexed_blobs_in_bounds:
  assumes "read_index j data = Inr index" and "b \<in> set index" and "length data < 2 ^ 64"
  shows "4 \<le> bi_offset b \<and> bi_offset b + bi_length b + 16 \<le> length data"
proof -
  obtain start magic and footer :: file_metadata where m: "checked_sub start 4 = Some magic" "start \<le> length data - 12"
    and c: "collect_results (map (index_blob (length data) magic) (fm_blobs footer)) = Inr index"
    and n: "20 \<le> length data"
    using read_index_cases [OF assms(1)] .
  have magic: "magic + 16 \<le> length data" using m n by (auto simp: checked_sub_def split: if_splits)
  obtain i where i: "i < length index" "b = index ! i" using assms(2) by (auto simp: in_set_conv_nth)
  then have "index_blob (length data) magic (fm_blobs footer ! i) = Inr b"
    using collect_results_nth [OF c] by simp
  then have "4 \<le> bi_offset b \<and> min (bi_offset b + bi_length b) (2 ^ 64 - 1) \<le> magic"
    by (auto simp: index_blob_def Let_def split: if_splits)
  then show ?thesis using magic assms(3) by (auto simp: min_def split: if_splits)
qed

theorem indexed_blobs_in_bounds_witness:
  "\<exists>data index b. read_index plain_json data = Inr index \<and> b \<in> set index \<and>
     4 \<le> bi_offset b \<and> bi_offset b + bi_length b + 16 \<le> length data"
proof -
  let ?bs = "[\<lparr>blob_type = ''a'', blob_data = [1, 2, 3], blob_properties = [], blob_snapshot_id = 1, blob_sequence_number = 1\<rparr>]"
  have "length (to_vec plain_json (footer_of ?bs [])) < 100" by code_simp
  from puffin_write_small [OF this]
  obtain data where d: "puffin_write plain_json ?bs [] = Some data" "length data < 123" by auto
  then have fit: "length data < 2 ^ 64" by simp
  obtain index where i: "read_index plain_json data = Inr index" "list_all2 (placed data) index ?bs"
    using read_index_written [OF plain_json_ok d(1) fit] .
  then obtain b where "b \<in> set index" by (cases index) auto
  then show ?thesis using indexed_blobs_in_bounds [OF i(1) _ fit] i(1) by blast
qed

end
