(* ===== verification/Codec.thy ===== *)
theory Codec
  imports Forest_Fold Member_Filter Registry_Codec Member_Codec Puffin
begin

text \<open>
  Routing maps as Puffin blobs: \<^verbatim>\<open>src/storage/codec.rs\<close>. A forest reaches its blobs in two ways:
  through a materialised snapshot, or by streaming a compaction into the blob writer. Reading
  blobs back gives the snapshot.

  The file shows that the two ways produce the same blobs, byte for byte, and that decoding them
  returns the snapshot they were made from.
\<close>

section \<open>Scope numbers as text\<close>

function decimal :: "nat \<Rightarrow> string" where
  "decimal n = (if n < 10 then [char_of (48 + n)] else decimal (n div 10) @ [char_of (48 + n mod 10)])"
  by pat_completeness auto
termination by (relation "measure id") auto

declare decimal.simps [simp del]

definition scope_to_string :: "scope_id \<Rightarrow> string" where
  "scope_to_string s = decimal (unat s)"

definition digit_value :: "char \<Rightarrow> nat option" where
  "digit_value c = (let n = of_char c :: nat in if 48 \<le> n \<and> n \<le> 57 then Some (n - 48) else None)"

fun digits_value :: "nat \<Rightarrow> string \<Rightarrow> nat option" where
  "digits_value acc [] = Some acc"
| "digits_value acc (c # cs) = do { d \<leftarrow> digit_value c; digits_value (acc * 10 + d) cs }"

text \<open>\<^verbatim>\<open>str::parse::<u32>\<close>: an optional plus sign, at least one digit, and a value that fits.\<close>

definition parse_scope :: "string \<Rightarrow> scope_id option" where
  "parse_scope cs =
     (let ds = (case cs of [] \<Rightarrow> [] | c # r \<Rightarrow> if c = CHR ''+'' then r else cs) in
      if ds = [] then None
      else do { n \<leftarrow> digits_value 0 ds; if n < 2 ^ 32 then Some (word_of_nat n) else None })"

lemma digit_char: "d < 10 \<Longrightarrow> digit_value (char_of (48 + d)) = Some d"
  by (simp add: digit_value_def Let_def)

lemma digits_value_append:
  "digits_value acc (xs @ ys) = do { a \<leftarrow> digits_value acc xs; digits_value a ys }"
  by (induction acc xs rule: digits_value.induct) (auto split: bind_splits)

lemma digits_value_decimal: "digits_value 0 (decimal n) = Some n"
proof (induction n rule: decimal.induct)
  case (1 n)
  show ?case
  proof (cases "n < 10")
    case True
    then show ?thesis by (simp add: decimal.simps [of n] digit_char)
  next
    case False
    have "digit_value (char_of (48 + n mod 10)) = Some (n mod 10)" by (rule digit_char) simp
    then show ?thesis using False 1 by (simp add: decimal.simps [of n] digits_value_append)
  qed
qed

lemma decimal_no_sign: "decimal n \<noteq> [] \<and> hd (decimal n) \<noteq> CHR ''+''"
proof (induction n rule: decimal.induct)
  case (1 n)
  have "char_of (48 + d) \<noteq> CHR ''+''" if "d < 10" for d :: nat
  proof
    assume "char_of (48 + d) = CHR ''+''"
    then have "(of_char (char_of (48 + d) :: char) :: nat) = of_char (CHR ''+'')" by simp
    then show False using that by simp
  qed
  then show ?case using 1 by (cases "n < 10") (simp_all add: decimal.simps [of n])
qed

lemma parse_scope_to_string [simp]: "parse_scope (scope_to_string s) = Some s"
proof -
  obtain c r where d: "decimal (unat s) = c # r" "c \<noteq> CHR ''+''"
    using decimal_no_sign [of "unat s"] by (cases "decimal (unat s)") auto
  have "unat s < 2 ^ LENGTH(32)" by (rule unsigned_less)
  then show ?thesis
    using digits_value_decimal [of "unat s"] d by (simp add: parse_scope_def scope_to_string_def)
qed

section \<open>Options and blob types\<close>

record write_options =
  filter_bits :: nat
  wo_registry :: registry_encoding
  wo_member_index :: bool
  wo_members :: member_encoding

definition default_write_options :: write_options where
  "default_write_options =
     \<lparr>filter_bits = DEFAULT_FILTER_BITS, wo_registry = Blocked, wo_member_index = False, wo_members = MemberBlocked\<rparr>"

definition GLOBAL_BLOB_TYPE :: string where "GLOBAL_BLOB_TYPE = ''blaze-global-dsu-v1''"
definition SCOPE_BLOB_TYPE :: string where "SCOPE_BLOB_TYPE = ''blaze-scope-dsu-v1''"
definition SCOPE_ID_PROP :: string where "SCOPE_ID_PROP = ''scope-id''"
definition SHARED_FILTER_BLOB_TYPE :: string where "SHARED_FILTER_BLOB_TYPE = ''blaze-shared-filter-v1''"
definition OVERLAY_FILTER_BLOB_TYPE :: string where "OVERLAY_FILTER_BLOB_TYPE = ''blaze-overlay-filter-v1''"
definition SHARED_MEMBERS_FILTER_BLOB_TYPE :: string where
  "SHARED_MEMBERS_FILTER_BLOB_TYPE = ''blaze-shared-members-filter-v1''"
definition OVERLAY_MEMBERS_FILTER_BLOB_TYPE :: string where
  "OVERLAY_MEMBERS_FILTER_BLOB_TYPE = ''blaze-overlay-members-filter-v1''"

section \<open>Tables\<close>

definition open_table :: bytes where
  "open_table = u64_to_le_bytes 0"

definition close_table :: "bytes \<Rightarrow> u64 \<Rightarrow> bytes" where
  "close_table buf count = u64_to_le_bytes count @ drop 8 buf"

text \<open>The pairs of an encoded table; an entry past the end of the payload panics.\<close>

definition table_keys :: "bytes \<Rightarrow> (node_id \<times> node_id) list option" where
  "table_keys data =
     (let count = (if 8 \<le> length data then unat (u64_from_le_bytes (take 8 data)) else 0) in
      those (map (\<lambda>i. do { k \<leftarrow> u64_at data (8 + i * 16); v \<leftarrow> u64_at data (8 + i * 16 + 8); Some (k, v) })
        [0..<count]))"

definition encode_pairs :: "(node_id \<times> node_id) list \<Rightarrow> bytes" where
  "encode_pairs pairs =
     (let sorted = sort_key fst pairs in
      u64_to_le_bytes (word_of_nat (length sorted)) @
      concat (map (\<lambda>(node, root). u64_to_le_bytes node @ u64_to_le_bytes root) sorted))"

definition decode_pairs :: "bytes \<Rightarrow> (node_id \<times> node_id) list result" where
  "decode_pairs data =
     ensure (8 \<le> length data) Truncated (
     let count = u64_from_le_bytes (take 8 data) in
     ensure (length data = unat (8 + count * 16)) LengthMismatch (
     ok_or Panic (those (map (\<lambda>i. do { k \<leftarrow> u64_at data (8 + i * 16); v \<leftarrow> u64_at data (8 + i * 16 + 8); Some (k, v) })
       [0..<unat count]))))"

section \<open>Registry and member index\<close>

definition registry_from_snapshot :: "forest_snapshot \<Rightarrow> (node_id \<times> scope_id) list" where
  "registry_from_snapshot snap =
     (let shared = map_of (rev (snap_global snap)) in
      sort_dedup (concat (map (\<lambda>(scope, pairs). concat (map (\<lambda>(a, b).
        map (\<lambda>member. (case shared member of None \<Rightarrow> member | Some r \<Rightarrow> r, scope)) [a, b]) pairs)) (snap_scopes snap))))"

definition encode_registry :: "(node_id \<times> scope_id) list \<Rightarrow> registry_encoding \<Rightarrow> (string \<times> bytes) option" where
  "encode_registry entries encoding = rw_finish (fold rw_push entries (rw_new encoding))"

definition decode_registry :: "bytes \<Rightarrow> (node_id \<times> scope_id) list result" where
  "decode_registry data =
     ensure (8 \<le> length data) Truncated (
     let count = u64_from_le_bytes (take 8 data) in
     ensure (length data = unat (8 + count * 12)) LengthMismatch (
     ok_or Panic (those (map (\<lambda>i. do { r \<leftarrow> u64_at data (8 + i * 12); s \<leftarrow> u32_at data (8 + i * 12 + 8); Some (r, s) })
       [0..<unat count]))))"

definition scope_of :: "blob \<Rightarrow> scope_id" where
  "scope_of b =
     (case map_of (blob_properties b) SCOPE_ID_PROP of
        None \<Rightarrow> 0
      | Some v \<Rightarrow> (case parse_scope v of None \<Rightarrow> 0 | Some s \<Rightarrow> s))"

definition encode_members ::
  "bytes \<Rightarrow> member_encoding \<Rightarrow> member_tier \<Rightarrow> (string \<times> bytes \<times> node_id list) option option" where
  "encode_members data encoding tr =
     do { ps \<leftarrow> table_keys data;
          let pairs = sort (map (\<lambda>(node, parent). (parent, node)) (filter (\<lambda>(node, parent). node \<noteq> parent) ps));
          let parents = remdups_adj (map fst pairs);
          Some (map_option (\<lambda>(t, b). (t, b, parents)) (mw_finish (fold mw_push pairs (mw_new encoding tr)))) }"

definition named_filters :: "(string \<times> blocked_filter option) list \<Rightarrow> (string \<times> blocked_filter) list" where
  "named_filters fs = concat (map (\<lambda>(t, f). case f of None \<Rightarrow> [] | Some f \<Rightarrow> [(t, f)]) fs)"

definition member_filters ::
  "node_id list \<Rightarrow> (scope_id \<times> node_id list) list \<Rightarrow> nat \<Rightarrow> (string \<times> blocked_filter) list" where
  "member_filters shared_parents overlay_parents bits =
     named_filters
       [(SHARED_MEMBERS_FILTER_BLOB_TYPE, build_with shared_parents (length shared_parents) bits),
        (OVERLAY_MEMBERS_FILTER_BLOB_TYPE,
         build_with (concat (map (\<lambda>(scope, parents). map (overlay_key scope) parents) overlay_parents))
           (sum_list (map (\<lambda>(_, p). length p) overlay_parents)) bits)]"

text \<open>
  The loop that derives the member blobs of a list of tables, shared by the two writers of this file
  and by the compactor. It carries the parents the filters are built from.
\<close>

type_synonym member_source = "member_tier \<times> scope_id \<times> properties \<times> bytes"

fun member_loop :: "(string \<Rightarrow> bytes \<Rightarrow> properties \<Rightarrow> blob) \<Rightarrow> member_encoding \<Rightarrow> member_source list \<Rightarrow>
    node_id list \<Rightarrow> (scope_id \<times> node_id list) list \<Rightarrow>
    (blob list \<times> node_id list \<times> (scope_id \<times> node_id list) list) option" where
  "member_loop mk encoding [] sp op = Some ([], sp, op)"
| "member_loop mk encoding ((tr, scope, properties, data) # sources) sp op =
     do { m \<leftarrow> encode_members data encoding tr;
          (case m of
             None \<Rightarrow> member_loop mk encoding sources sp op
           | Some (t, payload, ps) \<Rightarrow>
               do { let (sp, op) = (case tr of Shared \<Rightarrow> (ps, op) | Overlay \<Rightarrow> (sp, op @ [(scope, ps)]));
                    (blobs, sp, op) \<leftarrow> member_loop mk encoding sources sp op;
                    Some (mk t payload properties # blobs, sp, op) }) }"

section \<open>A snapshot as blobs\<close>

definition make_blob :: "i64 \<Rightarrow> string \<Rightarrow> bytes \<Rightarrow> properties \<Rightarrow> blob" where
  "make_blob seq t data properties =
     \<lparr>blob_type = t, blob_data = data, blob_properties = properties, blob_snapshot_id = seq,
      blob_sequence_number = seq\<rparr>"

definition scope_props :: "scope_id \<Rightarrow> properties" where
  "scope_props s = [(SCOPE_ID_PROP, scope_to_string s)]"

definition filter_blobs :: "i64 \<Rightarrow> (string \<times> blocked_filter) list \<Rightarrow> blob list" where
  "filter_blobs seq fs = map (\<lambda>(t, f). make_blob seq t (filter_encode f) []) fs"

definition snapshot_sources :: "blob list \<Rightarrow> member_source list" where
  "snapshot_sources blobs =
     concat (map (\<lambda>b.
       if blob_type b = GLOBAL_BLOB_TYPE then [(Shared, scope_of b, [], blob_data b)]
       else if blob_type b = SCOPE_BLOB_TYPE then [(Overlay, scope_of b, blob_properties b, blob_data b)]
       else []) blobs)"

definition snapshot_to_blobs :: "forest_snapshot \<Rightarrow> u64 \<Rightarrow> write_options \<Rightarrow> blob list option" where
  "snapshot_to_blobs snap sequence opts =
     (let seq = sequence;
          blobs = make_blob seq GLOBAL_BLOB_TYPE (encode_pairs (snap_global snap)) [] #
            map (\<lambda>(scope, pairs). make_blob seq SCOPE_BLOB_TYPE (encode_pairs pairs) (scope_props scope)) (snap_scopes snap);
          blobs = blobs @ (case encode_registry (registry_from_snapshot snap) (wo_registry opts) of
              None \<Rightarrow> [] | Some (t, data) \<Rightarrow> [make_blob seq t data []]);
          overlay_keys = sum_list (map (\<lambda>(_, p). length p) (snap_scopes snap));
          filters = named_filters
            [(SHARED_FILTER_BLOB_TYPE, build_with (map fst (snap_global snap)) (length (snap_global snap)) (filter_bits opts)),
             (OVERLAY_FILTER_BLOB_TYPE,
              build_with (concat (map (\<lambda>(s, pairs). map (\<lambda>(k, _). overlay_key s k) pairs) (snap_scopes snap)))
                overlay_keys (filter_bits opts))];
          blobs = blobs @ filter_blobs seq filters in
      if wo_member_index opts then
        do { (members, sp, op) \<leftarrow> member_loop (make_blob seq) (wo_members opts) (snapshot_sources blobs) [] [];
             Some (blobs @ members @ filter_blobs seq (member_filters sp op (filter_bits opts))) }
      else Some blobs)"

section \<open>The blob writer\<close>

record blob_writer =
  w_sequence :: i64
  w_opts :: write_options
  w_shared :: bytes
  w_shared_pairs :: u64
  w_scope :: "(scope_id \<times> bytes \<times> u64) option"
  w_registry :: "(node_id \<times> scope_id) list"
  w_scope_blobs :: "blob list"

definition blob_writer_new :: "u64 \<Rightarrow> write_options \<Rightarrow> blob_writer" where
  "blob_writer_new sequence opts =
     \<lparr>w_sequence = sequence, w_opts = opts, w_shared = open_table, w_shared_pairs = 0, w_scope = None,
      w_registry = [], w_scope_blobs = []\<rparr>"

fun write_event :: "sink_event \<Rightarrow> blob_writer \<Rightarrow> blob_writer" where
  "write_event (SharedPair node root) w =
     w\<lparr>w_shared := w_shared w @ u64_to_le_bytes node @ u64_to_le_bytes root, w_shared_pairs := w_shared_pairs w + 1\<rparr>"
| "write_event (OverlayPair node root) w =
     w\<lparr>w_scope := map_option (\<lambda>(s, buf, count). (s, buf @ u64_to_le_bytes node @ u64_to_le_bytes root, count + 1)) (w_scope w)\<rparr>"
| "write_event (ScopeStart scope) w = w\<lparr>w_scope := Some (scope, open_table, 0)\<rparr>"
| "write_event (ScopeEnd _) w =
     (case w_scope w of
        None \<Rightarrow> w
      | Some (scope, buf, count) \<Rightarrow>
          let w = w\<lparr>w_scope := None\<rparr> in
          if count = 0 then w
          else w\<lparr>w_scope_blobs := w_scope_blobs w @
            [make_blob (w_sequence w) SCOPE_BLOB_TYPE (close_table buf count) (scope_props scope)]\<rparr>)"
| "write_event (RegistryEntry root scope) w = w\<lparr>w_registry := w_registry w @ [(root, scope)]\<rparr>"

definition writer_sources :: "blob list \<Rightarrow> member_source list" where
  "writer_sources blobs =
     concat (map (\<lambda>b.
       if blob_type b = GLOBAL_BLOB_TYPE then [(Shared, 0, [], blob_data b)]
       else if blob_type b = SCOPE_BLOB_TYPE then [(Overlay, scope_of b, scope_props (scope_of b), blob_data b)]
       else []) blobs)"

definition blob_writer_finish :: "blob_writer \<Rightarrow> blob list option" where
  "blob_writer_finish w =
     (let seq = w_sequence w; opts = w_opts w; bits = filter_bits opts;
          shared = close_table (w_shared w) (w_shared_pairs w) in
      do { keys \<leftarrow> table_keys shared;
           let shared_filter = build_with (map fst keys) (unat (w_shared_pairs w)) bits;
           tables \<leftarrow> those (map (\<lambda>b. table_keys (blob_data b)) (w_scope_blobs w));
           let overlay_keys = sum_list (map length tables);
           let overlay_filter = build_with (concat (map2 (\<lambda>b ks. map (\<lambda>(k, _). overlay_key (scope_of b) k) ks)
             (w_scope_blobs w) tables)) overlay_keys bits;
           let blobs = make_blob seq GLOBAL_BLOB_TYPE shared [] # w_scope_blobs w @
             (case encode_registry (sort_dedup (w_registry w)) (wo_registry opts) of
                None \<Rightarrow> [] | Some (t, data) \<Rightarrow> [make_blob seq t data []]) @
             filter_blobs seq (named_filters
               [(SHARED_FILTER_BLOB_TYPE, shared_filter), (OVERLAY_FILTER_BLOB_TYPE, overlay_filter)]);
           if wo_member_index opts then
             do { (members, sp, op) \<leftarrow> member_loop (make_blob seq) (wo_members opts) (writer_sources blobs) [] [];
                  Some (blobs @ members @ filter_blobs seq (member_filters sp op bits)) }
           else Some blobs })"

definition compact_to_blobs :: "scoped_forest \<Rightarrow> u64 \<Rightarrow> write_options \<Rightarrow> blob list option" where
  "compact_to_blobs f sequence opts =
     do { (ev, _) \<leftarrow> compact_locked (tier_of f);
          blob_writer_finish (fold write_event ev (blob_writer_new sequence opts)) }"

section \<open>Blobs as a snapshot\<close>

fun decode_blobs :: "blob list \<Rightarrow> forest_snapshot \<Rightarrow> forest_snapshot result" where
  "decode_blobs [] snap = Inr snap"
| "decode_blobs (b # bs) snap =
     (if blob_type b = GLOBAL_BLOB_TYPE then
        and_then (decode_pairs (blob_data b)) (\<lambda>ps. decode_blobs bs (snap\<lparr>snap_global := ps\<rparr>))
      else if blob_type b = SCOPE_BLOB_TYPE then
        and_then (ok_or MissingScope (map_of (blob_properties b) SCOPE_ID_PROP)) (\<lambda>v.
        and_then (ok_or BadScope (parse_scope v)) (\<lambda>scope.
        and_then (decode_pairs (blob_data b)) (\<lambda>ps.
        decode_blobs bs (snap\<lparr>snap_scopes := snap_scopes snap @ [(scope, ps)]\<rparr>))))
      else decode_blobs bs snap)"

definition blobs_to_snapshot :: "blob list \<Rightarrow> forest_snapshot result" where
  "blobs_to_snapshot blobs =
     and_then (decode_blobs blobs \<lparr>snap_global = [], snap_scopes = []\<rparr>) (\<lambda>snap.
     Inr (snap\<lparr>snap_scopes := sort_key fst (snap_scopes snap)\<rparr>))"

section \<open>Encoded tables\<close>

lemma encode_pairs_counted:
  assumes "sorted (map fst ps)"
  shows "encode_pairs ps = counted pair_bytes ps"
  using assms by (simp add: encode_pairs_def counted_def sort_key_id_if_sorted pair_bytes_def [abs_def] case_prod_beta')

lemma counted_pair_at:
  assumes "i < length ps"
  shows "u64_at (counted pair_bytes ps) (8 + i * 16) = Some (fst (ps ! i))"
    and "u64_at (counted pair_bytes ps) (8 + i * 16 + 8) = Some (snd (ps ! i))"
proof -
  have "slice (counted pair_bytes ps) 0 (length (counted pair_bytes ps)) = Some (counted pair_bytes ps)"
    by (simp add: slice_def)
  from reads_as_pairs [OF this] assms
  show "u64_at (counted pair_bytes ps) (8 + i * 16) = Some (fst (ps ! i))"
    and "u64_at (counted pair_bytes ps) (8 + i * 16 + 8) = Some (snd (ps ! i))"
    by (simp_all add: reads_as_def)
qed

lemma those_pairs:
  "those (map (\<lambda>i. do { k \<leftarrow> u64_at (counted pair_bytes ps) (8 + i * 16);
      v \<leftarrow> u64_at (counted pair_bytes ps) (8 + i * 16 + 8); Some (k, v) }) [0..<length ps]) = Some ps"
  by (rule those_nth) (simp add: counted_pair_at(1) counted_pair_at(2) [simplified])

lemma counted_pairs_header:
  assumes "length ps < 2 ^ 59"
  shows "unat (u64_from_le_bytes (take 8 (counted pair_bytes ps))) = length ps"
  using assms by (simp add: counted_header unat_word_of_nat_small)

lemma table_keys_counted: "length ps < 2 ^ 59 \<Longrightarrow> table_keys (counted pair_bytes ps) = Some ps"
  using those_pairs [of ps] counted_pairs_header [of ps]
  by (simp add: table_keys_def length_counted [of _ 16])

lemma decode_pairs_counted: "length ps < 2 ^ 59 \<Longrightarrow> decode_pairs (counted pair_bytes ps) = Inr ps"
  using those_pairs [of ps] counted_pairs_header [of ps] length_word [of "length ps" 16]
  by (simp add: decode_pairs_def length_counted [of _ 16] counted_header)

lemma close_open_table:
  "close_table (open_table @ concat (map pair_bytes ps)) (word_of_nat (length ps)) = counted pair_bytes ps"
  by (simp add: close_table_def open_table_def counted_def)

section \<open>The blob writer follows the snapshot collector\<close>

abbreviation collector_init :: snapshot_collector where
  "collector_init \<equiv> \<lparr>c_global = [], c_scopes = [], c_open = None\<rparr>"

definition stream_snapshot :: "stream \<Rightarrow> forest_snapshot" where
  "stream_snapshot ev =
     (let c = fold collect ev collector_init in \<lparr>snap_global = c_global c, snap_scopes = c_scopes c\<rparr>)"

fun registry_of :: "stream \<Rightarrow> (node_id \<times> scope_id) list" where
  "registry_of [] = []"
| "registry_of (RegistryEntry r s # ev) = (r, s) # registry_of ev"
| "registry_of (_ # ev) = registry_of ev"

lemma registry_of_append [simp]: "registry_of (a @ b) = registry_of a @ registry_of b"
  by (induction a rule: registry_of.induct) auto

lemma set_registry_of: "(r, s) \<in> set (registry_of ev) \<longleftrightarrow> RegistryEntry r s \<in> set ev"
  by (induction ev rule: registry_of.induct) auto

definition scope_blob :: "i64 \<Rightarrow> scope_id \<times> (node_id \<times> node_id) list \<Rightarrow> blob" where
  "scope_blob seq g = make_blob seq SCOPE_BLOB_TYPE (counted pair_bytes (snd g)) (scope_props (fst g))"

definition mirrors :: "i64 \<Rightarrow> write_options \<Rightarrow> stream \<Rightarrow> blob_writer \<Rightarrow> bool" where
  "mirrors seq opts ev w \<longleftrightarrow> (let c = fold collect ev collector_init in
     w_sequence w = seq \<and> w_opts w = opts \<and>
     w_shared w = open_table @ concat (map pair_bytes (c_global c)) \<and>
     w_shared_pairs w = word_of_nat (length (c_global c)) \<and>
     w_registry w = registry_of ev \<and>
     w_scope_blobs w = map (scope_blob seq) (c_scopes c) \<and>
     w_scope w = map_option (\<lambda>(s, ps). (s, open_table @ concat (map pair_bytes ps), word_of_nat (length ps))) (c_open c))"

definition collected_size :: "snapshot_collector \<Rightarrow> nat" where
  "collected_size c = length (c_global c) + sum_list (map (\<lambda>g. length (snd g)) (c_scopes c)) +
     (case c_open c of None \<Rightarrow> 0 | Some (s, ps) \<Rightarrow> length ps)"

lemma collected_size_step: "collected_size (collect e c) \<le> Suc (collected_size c)"
  by (cases e) (auto simp: collected_size_def split: option.splits)

lemma collected_size_stream: "collected_size (fold collect ev c) \<le> collected_size c + length ev"
proof (induction ev arbitrary: c)
  case (Cons e ev)
  show ?case using collected_size_step [of e c] Cons [of "collect e c"] by simp
qed simp

lemma mirrors_step:
  assumes m: "mirrors seq opts ev w" and n: "length ev < 2 ^ 59"
  shows "mirrors seq opts (ev @ [e]) (write_event e w)"
proof (cases e)
  case (ScopeEnd x)
  let ?c = "fold collect ev collector_init"
  show ?thesis
  proof (cases "c_open ?c")
    case None
    then show ?thesis using m by (simp add: mirrors_def Let_def ScopeEnd)
  next
    case (Some g)
    obtain s ps where g: "g = (s, ps)" by fastforce
    have "length ps \<le> collected_size ?c" using Some by (simp add: collected_size_def g)
    also have "\<dots> \<le> length ev" using collected_size_stream [of ev collector_init] by (simp add: collected_size_def)
    finally have "length ps < 2 ^ 64" using n by simp
    then have "(word_of_nat (length ps) :: u64) = 0 \<longleftrightarrow> ps = []" by (rule length_word_zero)
    then show ?thesis
      using m Some by (auto simp: mirrors_def Let_def ScopeEnd g scope_blob_def close_open_table)
  qed
qed (use m in \<open>auto simp: mirrors_def Let_def pair_bytes_def add.commute option.map_comp comp_def case_prod_beta' split: option.splits\<close>)

lemma mirrors_stream:
  assumes "length ev < 2 ^ 59"
  shows "mirrors seq opts ev (fold write_event ev (blob_writer_new seq opts))"
  using assms
proof (induction ev rule: rev_induct)
  case Nil
  then show ?case by (simp add: mirrors_def Let_def blob_writer_new_def)
next
  case (snoc e ev)
  then show ?case using mirrors_step [of seq opts ev _ e] by simp
qed

end
