(* ===== verification/Codec_Paths.thy ===== *)
theory Codec_Paths
  imports Codec
begin

text \<open>
  The two ways a forest reaches its blobs, compared: \<^verbatim>\<open>snapshot_to_blobs\<close> over a materialised snapshot
  and \<^verbatim>\<open>compact_to_blobs\<close> over the compaction stream. The blobs are written as one list,
  \<open>file_blobs\<close>, of what the tables and the registry hold; both writers produce it, so they agree byte
  for byte, and decoding it gives the snapshot back.
\<close>

section \<open>The blobs of a set of tables\<close>

definition child_pairs :: "(node_id \<times> node_id) list \<Rightarrow> (node_id \<times> node_id) list" where
  "child_pairs ps = sort (map (\<lambda>(node, parent). (parent, node)) (filter (\<lambda>(node, parent). node \<noteq> parent) ps))"

definition member_payload ::
  "member_encoding \<Rightarrow> member_tier \<Rightarrow> (node_id \<times> node_id) list \<Rightarrow> (string \<times> bytes \<times> node_id list) option" where
  "member_payload enc tr ps =
     map_option (\<lambda>(t, b). (t, b, remdups_adj (map fst (child_pairs ps))))
       (mw_finish (fold mw_push (child_pairs ps) (mw_new enc tr)))"

lemma encode_members_counted:
  "length ps < 2 ^ 59 \<Longrightarrow> encode_members (counted pair_bytes ps) enc tr = Some (member_payload enc tr ps)"
  by (simp add: encode_members_def table_keys_counted member_payload_def child_pairs_def Let_def)

definition member_blob :: "i64 \<Rightarrow> member_encoding \<Rightarrow> member_tier \<Rightarrow> properties \<Rightarrow> (node_id \<times> node_id) list \<Rightarrow> blob list" where
  "member_blob seq enc tr properties ps =
     (case member_payload enc tr ps of None \<Rightarrow> [] | Some (t, b, _) \<Rightarrow> [make_blob seq t b properties])"

definition member_parents :: "member_encoding \<Rightarrow> member_tier \<Rightarrow> (node_id \<times> node_id) list \<Rightarrow> node_id list option" where
  "member_parents enc tr ps = map_option (\<lambda>(_, _, parents). parents) (member_payload enc tr ps)"

abbreviation scope_tables :: "member_encoding \<Rightarrow> (scope_id \<times> (node_id \<times> node_id) list) list \<Rightarrow> (scope_id \<times> node_id list) list" where
  "scope_tables enc scopes \<equiv> concat (map (\<lambda>(s, ps). case member_parents enc Overlay ps of None \<Rightarrow> [] | Some p \<Rightarrow> [(s, p)]) scopes)"

definition index_blobs :: "i64 \<Rightarrow> write_options \<Rightarrow> forest_snapshot \<Rightarrow> blob list" where
  "index_blobs seq opts snap =
     member_blob seq (wo_members opts) Shared [] (snap_global snap) @
     concat (map (\<lambda>(s, ps). member_blob seq (wo_members opts) Overlay (scope_props s) ps) (snap_scopes snap)) @
     filter_blobs seq (member_filters
       (case member_parents (wo_members opts) Shared (snap_global snap) of None \<Rightarrow> [] | Some p \<Rightarrow> p)
       (scope_tables (wo_members opts) (snap_scopes snap)) (filter_bits opts))"

definition registry_blobs :: "i64 \<Rightarrow> write_options \<Rightarrow> (node_id \<times> scope_id) list \<Rightarrow> blob list" where
  "registry_blobs seq opts entries =
     (case encode_registry entries (wo_registry opts) of None \<Rightarrow> [] | Some (t, data) \<Rightarrow> [make_blob seq t data []])"

definition key_filters :: "write_options \<Rightarrow> forest_snapshot \<Rightarrow> (string \<times> blocked_filter) list" where
  "key_filters opts snap = named_filters
     [(SHARED_FILTER_BLOB_TYPE, build_with (map fst (snap_global snap)) (length (snap_global snap)) (filter_bits opts)),
      (OVERLAY_FILTER_BLOB_TYPE,
       build_with (concat (map (\<lambda>(s, pairs). map (\<lambda>(k, _). overlay_key s k) pairs) (snap_scopes snap)))
         (sum_list (map (\<lambda>(_, p). length p) (snap_scopes snap))) (filter_bits opts))]"

definition table_blobs :: "i64 \<Rightarrow> write_options \<Rightarrow> forest_snapshot \<Rightarrow> (node_id \<times> scope_id) list \<Rightarrow> blob list" where
  "table_blobs seq opts snap entries =
     make_blob seq GLOBAL_BLOB_TYPE (counted pair_bytes (snap_global snap)) [] #
     map (scope_blob seq) (snap_scopes snap) @ registry_blobs seq opts entries @ filter_blobs seq (key_filters opts snap)"

definition file_blobs :: "i64 \<Rightarrow> write_options \<Rightarrow> forest_snapshot \<Rightarrow> (node_id \<times> scope_id) list \<Rightarrow> blob list" where
  "file_blobs seq opts snap entries =
     table_blobs seq opts snap entries @ (if wo_member_index opts then index_blobs seq opts snap else [])"

text \<open>The tables of a snapshot are sorted by key and small enough to be counted in a header.\<close>

definition snapshot_ok :: "forest_snapshot \<Rightarrow> bool" where
  "snapshot_ok snap \<longleftrightarrow> sorted_wrt (<) (map fst (snap_global snap)) \<and> length (snap_global snap) < 2 ^ 59 \<and>
     (\<forall>(s, ps) \<in> set (snap_scopes snap). sorted_wrt (<) (map fst ps) \<and> length ps < 2 ^ 59)"

subsection \<open>Blob types\<close>

lemmas blob_types = GLOBAL_BLOB_TYPE_def SCOPE_BLOB_TYPE_def SHARED_FILTER_BLOB_TYPE_def OVERLAY_FILTER_BLOB_TYPE_def
  SHARED_MEMBERS_FILTER_BLOB_TYPE_def OVERLAY_MEMBERS_FILTER_BLOB_TYPE_def FLAT_BLOB_TYPE_def BLOCKED_BLOB_TYPE_def
  SHARED_FLAT_BLOB_TYPE_def SHARED_BLOCKED_BLOB_TYPE_def OVERLAY_FLAT_BLOB_TYPE_def OVERLAY_BLOCKED_BLOB_TYPE_def

definition plain_blob :: "blob \<Rightarrow> bool" where
  "plain_blob b \<longleftrightarrow> blob_type b \<notin> {GLOBAL_BLOB_TYPE, SCOPE_BLOB_TYPE}"

lemma make_blob_simps [simp]:
  "blob_type (make_blob seq t d p) = t" "blob_data (make_blob seq t d p) = d"
  "blob_properties (make_blob seq t d p) = p" "blob_sequence_number (make_blob seq t d p) = seq"
  by (simp_all add: make_blob_def)

lemma scope_of_scope_blob [simp]: "scope_of (scope_blob seq g) = fst g"
  by (simp add: scope_of_def scope_blob_def scope_props_def SCOPE_ID_PROP_def)

lemma rw_finish_type: "rw_finish w = Some (t, d) \<Longrightarrow> t = FLAT_BLOB_TYPE \<or> t = BLOCKED_BLOB_TYPE"
  by (auto simp: rw_finish_def split: if_splits registry_encoding.splits)

lemma mw_finish_type:
  "mw_finish w = Some (t, d) \<Longrightarrow>
     t \<in> {SHARED_FLAT_BLOB_TYPE, SHARED_BLOCKED_BLOB_TYPE, OVERLAY_FLAT_BLOB_TYPE, OVERLAY_BLOCKED_BLOB_TYPE}"
  by (auto simp: mw_finish_def split: if_splits member_tier.splits member_encoding.splits)

lemma plain_registry: "\<forall>b \<in> set (registry_blobs seq opts entries). plain_blob b"
  by (auto simp: registry_blobs_def encode_registry_def plain_blob_def blob_types split: option.splits dest!: rw_finish_type rw_finish_type [OF sym])

lemma named_filters_types: "(t, f) \<in> set (named_filters fs) \<Longrightarrow> t \<in> fst ` set fs"
  by (induction fs) (auto simp: named_filters_def split: option.splits)

lemma plain_filters:
  "\<forall>b \<in> set (filter_blobs seq (key_filters opts snap)). plain_blob b"
  "\<forall>b \<in> set (filter_blobs seq (member_filters sp op bits)). plain_blob b"
  by (auto simp: filter_blobs_def key_filters_def member_filters_def plain_blob_def blob_types dest!: named_filters_types)

lemma plain_index: "\<forall>b \<in> set (index_blobs seq opts snap). plain_blob b"
proof -
  have "\<forall>b \<in> set (member_blob seq enc tr p ps). plain_blob b" for enc tr p ps
    by (auto simp: member_blob_def member_payload_def plain_blob_def blob_types split: option.splits dest!: mw_finish_type mw_finish_type [OF sym])
  then show ?thesis using plain_filters(2) by (auto simp: index_blobs_def)
qed

section \<open>Both writers write these blobs\<close>

lemma member_loop_counted:
  assumes "\<forall>(s, ps) \<in> set scopes. length ps < 2 ^ 59"
  shows "member_loop (make_blob seq) enc (map (\<lambda>(s, ps). (Overlay, s, scope_props s, counted pair_bytes ps)) scopes) sp op =
    Some (concat (map (\<lambda>(s, ps). member_blob seq enc Overlay (scope_props s) ps) scopes), sp, op @ scope_tables enc scopes)"
  using assms
proof (induction scopes arbitrary: op)
  case (Cons g scopes)
  obtain s ps where g: "g = (s, ps)" by fastforce
  with Cons.prems have n: "length ps < 2 ^ 59" by simp
  show ?case
  proof (cases "member_payload enc Overlay ps")
    case None
    then show ?thesis
      using Cons by (simp add: g encode_members_counted [OF n] member_parents_def member_blob_def)
  next
    case (Some m)
    obtain t b p where "m = (t, b, p)" by (cases m)
    with Some Cons show ?thesis
      by (simp add: g encode_members_counted [OF n] member_parents_def member_blob_def)
  qed
qed simp

lemma plain_sources:
  "\<forall>b \<in> set bs. plain_blob b \<Longrightarrow> snapshot_sources bs = []"
  "\<forall>b \<in> set bs. plain_blob b \<Longrightarrow> writer_sources bs = []"
  by (auto simp: snapshot_sources_def writer_sources_def plain_blob_def)

lemma sources_append:
  "snapshot_sources (a @ b) = snapshot_sources a @ snapshot_sources b"
  "writer_sources (a @ b) = writer_sources a @ writer_sources b"
  by (simp_all add: snapshot_sources_def writer_sources_def)

lemma sources_tables:
  "snapshot_sources (table_blobs seq opts snap entries) =
     (Shared, 0, [], counted pair_bytes (snap_global snap)) #
       map (\<lambda>(s, ps). (Overlay, s, scope_props s, counted pair_bytes ps)) (snap_scopes snap)"
  "writer_sources (table_blobs seq opts snap entries) =
     (Shared, 0, [], counted pair_bytes (snap_global snap)) #
       map (\<lambda>(s, ps). (Overlay, s, scope_props s, counted pair_bytes ps)) (snap_scopes snap)"
proof -
  have g: "snapshot_sources (make_blob seq GLOBAL_BLOB_TYPE d [] # bs) = (Shared, 0, [], d) # snapshot_sources bs"
    "writer_sources (make_blob seq GLOBAL_BLOB_TYPE d [] # bs) = (Shared, 0, [], d) # writer_sources bs" for d bs
    by (simp_all add: snapshot_sources_def writer_sources_def scope_of_def)
  have s: "snapshot_sources (map (scope_blob seq) gs) =
      map (\<lambda>(s, ps). (Overlay, s, scope_props s, counted pair_bytes ps)) gs"
    "writer_sources (map (scope_blob seq) gs) =
      map (\<lambda>(s, ps). (Overlay, s, scope_props s, counted pair_bytes ps)) gs" for gs
    by (induction gs) (auto simp: snapshot_sources_def writer_sources_def scope_blob_def scope_of_def scope_props_def
        SCOPE_BLOB_TYPE_def GLOBAL_BLOB_TYPE_def)
  show "snapshot_sources (table_blobs seq opts snap entries) =
     (Shared, 0, [], counted pair_bytes (snap_global snap)) #
       map (\<lambda>(s, ps). (Overlay, s, scope_props s, counted pair_bytes ps)) (snap_scopes snap)"
    "writer_sources (table_blobs seq opts snap entries) =
     (Shared, 0, [], counted pair_bytes (snap_global snap)) #
       map (\<lambda>(s, ps). (Overlay, s, scope_props s, counted pair_bytes ps)) (snap_scopes snap)"
    by (simp_all add: table_blobs_def g s sources_append plain_sources plain_registry plain_filters(1))
qed

lemma member_loop_tables:
  assumes "snapshot_ok snap" and "enc = wo_members opts" and "bits = filter_bits opts"
  shows "do { (members, sp, op) \<leftarrow> member_loop (make_blob seq) enc
        ((Shared, 0, [], counted pair_bytes (snap_global snap)) #
         map (\<lambda>(s, ps). (Overlay, s, scope_props s, counted pair_bytes ps)) (snap_scopes snap)) [] [];
      Some (blobs @ members @ filter_blobs seq (member_filters sp op bits)) } =
    Some (blobs @ index_blobs seq opts snap)"
proof -
  have n: "length (snap_global snap) < 2 ^ 59" "\<forall>(s, ps) \<in> set (snap_scopes snap). length ps < 2 ^ 59"
    using assms(1) by (auto simp: snapshot_ok_def)
  show ?thesis
  proof (cases "member_payload (wo_members opts) Shared (snap_global snap)")
    case None
    then show ?thesis using member_loop_counted [OF n(2)] assms(2,3)
      by (simp add: encode_members_counted [OF n(1)] index_blobs_def member_blob_def member_parents_def)
  next
    case (Some m)
    obtain t b p where "m = (t, b, p)" by (cases m)
    with Some show ?thesis using member_loop_counted [OF n(2)] assms(2,3)
      by (simp add: encode_members_counted [OF n(1)] index_blobs_def member_blob_def member_parents_def)
  qed
qed

lemma snapshot_to_blobs_file:
  assumes ok: "snapshot_ok snap"
  shows "snapshot_to_blobs snap seq opts = Some (file_blobs seq opts snap (registry_from_snapshot snap))"
proof -
  have e: "encode_pairs (snap_global snap) = counted pair_bytes (snap_global snap)"
    using ok by (simp add: snapshot_ok_def encode_pairs_counted strict_sorted_imp_sorted)
  have s: "map (\<lambda>(scope, pairs). make_blob seq SCOPE_BLOB_TYPE (encode_pairs pairs) (scope_props scope)) (snap_scopes snap) =
      map (scope_blob seq) (snap_scopes snap)"
    using ok by (auto simp: snapshot_ok_def scope_blob_def encode_pairs_counted strict_sorted_imp_sorted)
  have t: "make_blob seq GLOBAL_BLOB_TYPE (encode_pairs (snap_global snap)) [] #
      map (\<lambda>(scope, pairs). make_blob seq SCOPE_BLOB_TYPE (encode_pairs pairs) (scope_props scope)) (snap_scopes snap) @
      registry_blobs seq opts r @ filter_blobs seq (key_filters opts snap) = table_blobs seq opts snap r" for r
    by (simp only: table_blobs_def e s)
  show ?thesis
    using member_loop_tables [OF ok refl refl] t
    by (simp add: snapshot_to_blobs_def registry_blobs_def [symmetric] key_filters_def [symmetric] sources_tables
        file_blobs_def Let_def)
qed

lemma sort_dedup_cong: "set xs = set ys \<Longrightarrow> sort_dedup xs = sort_dedup ys"
  by (rule strict_sorted_unique) simp_all

lemma blob_writer_finish_file:
  assumes m: "mirrors seq opts ev w" and ok: "snapshot_ok (stream_snapshot ev)"
  shows "blob_writer_finish w = Some (file_blobs seq opts (stream_snapshot ev) (sort_dedup (registry_of ev)))"
proof -
  let ?snap = "stream_snapshot ev"
  have w: "w_sequence w = seq" "w_opts w = opts" "w_registry w = registry_of ev"
    "w_shared_pairs w = word_of_nat (length (snap_global ?snap))"
    "w_scope_blobs w = map (scope_blob seq) (snap_scopes ?snap)"
    "close_table (w_shared w) (w_shared_pairs w) = counted pair_bytes (snap_global ?snap)"
    using m by (simp_all add: mirrors_def stream_snapshot_def Let_def close_open_table)
  have n: "length (snap_global ?snap) < 2 ^ 59" "\<forall>g \<in> set (snap_scopes ?snap). length (snd g) < 2 ^ 59"
    using ok by (auto simp: snapshot_ok_def)
  have u: "unat (w_shared_pairs w) = length (snap_global ?snap)"
    using n(1) by (simp add: w unat_word_of_nat_small)
  have tables: "those (map (\<lambda>b. table_keys (blob_data b)) (w_scope_blobs w)) = Some (map snd (snap_scopes ?snap))"
  proof -
    have "those (map (\<lambda>g. table_keys (blob_data (scope_blob seq g))) (snap_scopes ?snap)) = Some (map snd (snap_scopes ?snap))"
      using n(2) by (intro those_map_Some) (simp add: scope_blob_def table_keys_counted)
    then show ?thesis by (simp add: w(5) comp_def)
  qed
  have keys: "map2 (\<lambda>b ks. map (\<lambda>(k, _). overlay_key (scope_of b) k) ks) (w_scope_blobs w) (map snd (snap_scopes ?snap)) =
      map (\<lambda>(s, pairs). map (\<lambda>(k, _). overlay_key s k) pairs) (snap_scopes ?snap)"
    unfolding w(5) map2_map_map by (simp add: case_prod_beta')
  have len: "sum_list (map length (map snd (snap_scopes ?snap))) = sum_list (map (\<lambda>(_, p). length p) (snap_scopes ?snap))"
    by (simp add: comp_def case_prod_beta')
  show ?thesis
    using member_loop_tables [OF ok refl refl, of seq opts "table_blobs seq opts ?snap (sort_dedup (registry_of ev))"]
    unfolding blob_writer_finish_def Let_def w(6) table_keys_counted [OF n(1)] tables bind.bind_lunit u keys len
    unfolding w(1-3,5) registry_blobs_def [symmetric] key_filters_def [symmetric] table_blobs_def [symmetric]
    by (simp add: sources_tables file_blobs_def)
qed

lemma stream_snapshot_small:
  assumes "length ev < 2 ^ 59"
  shows "length (snap_global (stream_snapshot ev)) < 2 ^ 59"
    and "(s, ps) \<in> set (snap_scopes (stream_snapshot ev)) \<Longrightarrow> length ps < 2 ^ 59"
proof -
  let ?c = "fold collect ev collector_init"
  have b: "collected_size ?c < 2 ^ 59"
    using collected_size_stream [of ev collector_init] assms by (simp add: collected_size_def)
  then show "length (snap_global (stream_snapshot ev)) < 2 ^ 59"
    by (simp add: stream_snapshot_def Let_def collected_size_def)
  assume "(s, ps) \<in> set (snap_scopes (stream_snapshot ev))"
  then have "length ps \<in> set (map (\<lambda>g. length (snd g)) (c_scopes ?c))"
    by (force simp: stream_snapshot_def Let_def)
  then have "length ps \<le> sum_list (map (\<lambda>g. length (snd g)) (c_scopes ?c))" by (rule member_le_sum_list) simp
  with b show "length ps < 2 ^ 59" by (simp add: collected_size_def)
qed

lemma snapshot_is_stream_snapshot:
  assumes "tier_ok (tier_of f)"
  obtains f' where "forest_snapshot_of f = Some (stream_snapshot (compaction (tier_of f)), f')"
proof -
  obtain t' where run: "compact_locked (tier_of f) = Some (compaction (tier_of f), t')"
    using compact_locked_spec [OF assms] by blast
  show thesis by (rule that) (simp add: forest_snapshot_of_def stream_snapshot_def run Let_def)
qed

lemma compaction_snapshot:
  assumes ok: "tier_ok t"
  shows "stream_snapshot (compaction t) =
    \<lparr>snap_global = map (\<lambda>k. (k, grep t k)) (shared_keys t),
     snap_scopes = map (\<lambda>s. (s, map (\<lambda>k. (k, orep t s k)) (all_overlay_keys t s)))
       (filter (\<lambda>s. all_overlay_keys t s \<noteq> []) (scope_ids t))\<rparr>"
proof -
  have k: "\<forall>k \<in> set (shared_keys t). grep t k \<noteq> k"
    "\<And>s k. k \<in> set (all_overlay_keys t s) \<Longrightarrow> orep t s k \<noteq> k"
    using keys_spec(2,4) [OF ok] by auto
  show ?thesis
    using collect_shared_ev [OF k(1), of collector_init] collect_scope_ev [OF k(2), of "all_overlay_keys t"]
    by (simp add: stream_snapshot_def compaction_def Let_def)
qed

lemma compaction_snapshot_ok:
  assumes "tier_ok t" and "length (compaction t) < 2 ^ 59"
  shows "snapshot_ok (stream_snapshot (compaction t))"
proof -
  let ?snap = "stream_snapshot (compaction t)"
  have "\<forall>(s, ps) \<in> set (snap_scopes ?snap). length ps < 2 ^ 59" using stream_snapshot_small(2) [OF assms(2)] by blast
  moreover have "\<forall>(s, ps) \<in> set (snap_scopes ?snap). sorted_wrt (<) (map fst ps)"
    and "sorted_wrt (<) (map fst (snap_global ?snap))"
    using keys_spec(1,3) [OF assms(1)] by (auto simp: compaction_snapshot [OF assms(1)] comp_def)
  ultimately show ?thesis using stream_snapshot_small(1) [OF assms(2)] by (auto simp: snapshot_ok_def)
qed

text \<open>The entries the stream carries are those derived from the snapshot.\<close>

lemma compaction_registry:
  assumes ok: "tier_ok t"
  shows "sort_dedup (registry_of (compaction t)) = registry_from_snapshot (stream_snapshot (compaction t))"
proof -
  have shared: "map_of (rev (map (\<lambda>k. (k, grep t k)) (shared_keys t))) = parent_of (grep t)"
    using map_of_parent_of [of "rev (shared_keys t)" "grep t"] keys_spec(2) [OF ok] by (simp add: rev_map)
  have live: "(case parent_of (grep t) m of None \<Rightarrow> m | Some r \<Rightarrow> r) = grep t m" for m
    by (simp add: parent_of_def)
  have k: "k \<in> set (all_overlay_keys t s) \<Longrightarrow> orep t s k \<noteq> k" for s k using keys_spec(4) [OF ok] by auto
  have "(r, s) \<in> set (registry_of (compaction t)) \<longleftrightarrow>
      (\<exists>k. s \<in> set (scope_ids t) \<and> k \<in> set (all_overlay_keys t s) \<and> (r = grep t k \<or> r = grep t (orep t s k)))" for r s
    using k by (force simp: set_registry_of compaction_def shared_ev_def scope_ev_def overlay_ev_def split: if_splits)
  then have "set (registry_of (compaction t)) = set (concat (map (\<lambda>(scope, pairs). concat (map (\<lambda>(a, b).
      map (\<lambda>m. (grep t m, scope)) [a, b]) pairs)) (snap_scopes (stream_snapshot (compaction t)))))"
    by (auto simp: compaction_snapshot [OF ok]) force+
  then show ?thesis
    unfolding registry_from_snapshot_def Let_def compaction_snapshot [OF ok]
    by (simp add: shared live sort_dedup_cong)
qed

text \<open>
  C17: streaming and materialising agree. For every forest, compacting it straight into the blob
  writer produces, byte for byte, the blobs made from its snapshot, whatever the options.
\<close>

theorem streamed_blobs_match_snapshot:
  assumes f: "forest_represents f es" and n: "length (compaction (tier_of f)) < 2 ^ 59"
  shows "\<exists>snap f' blobs. forest_snapshot_of f = Some (snap, f') \<and>
    snapshot_to_blobs snap sequence opts = Some blobs \<and> compact_to_blobs f sequence opts = Some blobs"
proof -
  let ?t = "tier_of f" and ?ev = "compaction (tier_of f)"
  have ok: "tier_ok ?t" using f by (simp add: forest_represents_def represents_def)
  note snap = compaction_snapshot_ok [OF ok n]
  obtain f' where "forest_snapshot_of f = Some (stream_snapshot ?ev, f')"
    using snapshot_is_stream_snapshot [OF ok] by blast
  moreover obtain t' where "compact_locked ?t = Some (?ev, t')" using compact_locked_spec [OF ok] by blast
  moreover have "blob_writer_finish (fold write_event ?ev (blob_writer_new sequence opts)) =
      Some (file_blobs sequence opts (stream_snapshot ?ev) (registry_from_snapshot (stream_snapshot ?ev)))"
    using blob_writer_finish_file [OF mirrors_stream [OF n] snap] by (simp add: compaction_registry [OF ok])
  ultimately show ?thesis by (simp add: compact_to_blobs_def snapshot_to_blobs_file [OF snap])
qed

text \<open>A forest of two edges, the second seen by one scope only, and the length of its compaction by evaluation.\<close>

definition two_edges :: "edge_event list" where
  "two_edges =
     [\<lparr>src = 9, dst = 5, ev_visibility = Global, event_time_ms = 0, props = None\<rparr>,
      \<lparr>src = 5, dst = 3, ev_visibility = Scoped [7], event_time_ms = 1, props = None\<rparr>]"

lemma two_edge_compaction:
  "map_option (\<lambda>(ev, _). length ev) (Option.bind (apply_events forest_new two_edges) (\<lambda>f. compact_locked (tier_of f))) =
    Some 6"
  by code_simp

lemma two_edge_forest:
  obtains f where
    "apply_events forest_new two_edges = Some f"
    and "forest_represents f two_edges"
    and "length (compaction (tier_of f)) = 6"
proof -
  obtain f where f: "apply_events forest_new two_edges = Some f" "forest_represents f two_edges"
    using apply_events_spec [OF forest_new_represents(1), of two_edges] by auto
  then have "tier_ok (tier_of f)" by (simp add: forest_represents_def represents_def)
  then obtain t' where "compact_locked (tier_of f) = Some (compaction (tier_of f), t')"
    using compact_locked_spec by blast
  with two_edge_compaction f(1) have "length (compaction (tier_of f)) = 6" by simp
  with f show thesis by (rule that)
qed

theorem streamed_blobs_match_snapshot_witness:
  "\<exists>f snap f' blobs. apply_events forest_new two_edges = Some f \<and>
    forest_snapshot_of f = Some (snap, f') \<and>
    snapshot_to_blobs snap 1 (default_write_options\<lparr>wo_member_index := True\<rparr>) = Some blobs \<and>
    compact_to_blobs f 1 (default_write_options\<lparr>wo_member_index := True\<rparr>) = Some blobs"
proof -
  obtain f where f: "apply_events forest_new two_edges = Some f"
    "forest_represents f two_edges"
    "length (compaction (tier_of f)) = 6"
    using two_edge_forest .
  then show ?thesis
    using streamed_blobs_match_snapshot [OF f(2), of 1 "default_write_options\<lparr>wo_member_index := True\<rparr>"] by auto
qed

section \<open>Decoding\<close>

lemma decode_plain: "\<forall>b \<in> set bs. plain_blob b \<Longrightarrow> decode_blobs bs snap = Inr snap"
  by (induction bs) (auto simp: plain_blob_def)

lemma decode_scopes:
  "\<forall>g \<in> set gs. length (snd g) < 2 ^ 59 \<Longrightarrow>
     decode_blobs (map (scope_blob seq) gs @ bs) snap = decode_blobs bs (snap\<lparr>snap_scopes := snap_scopes snap @ gs\<rparr>)"
  by (induction gs arbitrary: snap)
    (auto simp: scope_blob_def scope_props_def SCOPE_BLOB_TYPE_def GLOBAL_BLOB_TYPE_def decode_pairs_counted)

text \<open>
  What decoding returns for a snapshot in any order: each table in key order, the scopes in order of
  their number. On a snapshot that is in order already, as the forest makes them, it is the snapshot.
\<close>

definition sorted_tables :: "forest_snapshot \<Rightarrow> forest_snapshot" where
  "sorted_tables snap =
     \<lparr>snap_global = sort_key fst (snap_global snap), snap_scopes = map (apsnd (sort_key fst)) (snap_scopes snap)\<rparr>"

definition sorted_snapshot :: "forest_snapshot \<Rightarrow> forest_snapshot" where
  "sorted_snapshot snap =
     (sorted_tables snap)\<lparr>snap_scopes := sort_key fst (snap_scopes (sorted_tables snap))\<rparr>"

lemma sorted_snapshot_id:
  assumes "snapshot_ok snap" and "sorted_wrt (<) (map fst (snap_scopes snap))"
  shows "sorted_snapshot snap = snap"
proof -
  have "map (apsnd (sort_key fst)) gs = gs" if "\<forall>(s, ps) \<in> set gs. sorted (map fst ps)"
    for gs :: "(scope_id \<times> (node_id \<times> node_id) list) list"
    using that by (induction gs) (auto simp: sort_key_id_if_sorted)
  moreover have "\<forall>(s, ps) \<in> set (snap_scopes snap). sorted (map fst ps)"
    using assms(1) by (auto simp: snapshot_ok_def strict_sorted_imp_sorted)
  ultimately show ?thesis
    using assms by (simp add: sorted_snapshot_def sorted_tables_def snapshot_ok_def sort_key_id_if_sorted strict_sorted_imp_sorted)
qed

text \<open>
  The code sorts a table with an unstable sort, whose result is determined when the keys are distinct;
  they are the keys of a map.
\<close>

definition keyed_tables :: "forest_snapshot \<Rightarrow> bool" where
  "keyed_tables snap \<longleftrightarrow> distinct (map fst (snap_global snap)) \<and> length (snap_global snap) < 2 ^ 59 \<and>
     (\<forall>(s, ps) \<in> set (snap_scopes snap). distinct (map fst ps) \<and> length ps < 2 ^ 59)"

lemma sorted_keys_strict: "distinct (map fst ps) \<Longrightarrow> sorted_wrt (<) (map fst (sort_key fst (ps :: ('a::linorder \<times> 'b) list)))"
  by (simp add: strict_sorted_iff distinct_map)

lemma sorted_tables_ok: "keyed_tables snap \<Longrightarrow> snapshot_ok (sorted_tables snap)"
  by (auto simp: keyed_tables_def snapshot_ok_def sorted_tables_def sorted_keys_strict)

lemma encode_pairs_sorted: "encode_pairs ps = counted pair_bytes (sort_key fst ps)"
  by (simp add: encode_pairs_def counted_def pair_bytes_def [abs_def] case_prod_beta')

lemma snapshot_to_blobs_tables:
  assumes ok: "keyed_tables snap"
  shows "\<exists>rest. (\<forall>b \<in> set rest. plain_blob b) \<and> snapshot_to_blobs snap seq opts =
    Some (make_blob seq GLOBAL_BLOB_TYPE (counted pair_bytes (snap_global (sorted_tables snap))) [] #
      map (scope_blob seq) (snap_scopes (sorted_tables snap)) @ rest)"
proof -
  let ?s = "sorted_tables snap"
  let ?rest = "registry_blobs seq opts (registry_from_snapshot snap) @ filter_blobs seq (key_filters opts snap)"
  let ?blobs = "make_blob seq GLOBAL_BLOB_TYPE (counted pair_bytes (snap_global ?s)) [] # map (scope_blob seq) (snap_scopes ?s) @ ?rest"
  have scopes: "map (\<lambda>(scope, pairs). make_blob seq SCOPE_BLOB_TYPE (encode_pairs pairs) (scope_props scope)) (snap_scopes snap) =
      map (scope_blob seq) (snap_scopes ?s)"
    by (simp add: sorted_tables_def scope_blob_def encode_pairs_sorted case_prod_beta')
  have g: "encode_pairs (snap_global snap) = counted pair_bytes (snap_global ?s)"
    by (simp add: sorted_tables_def encode_pairs_sorted)
  have pre: "snapshot_sources ?blobs = (Shared, 0, [], counted pair_bytes (snap_global ?s)) #
      map (\<lambda>(s, ps). (Overlay, s, scope_props s, counted pair_bytes ps)) (snap_scopes ?s)"
    using sources_tables(1) [of seq opts ?s "[]"] plain_sources(1) plain_registry plain_filters(1)
    by (simp add: table_blobs_def sources_append(1) [of "make_blob _ _ _ _ # map _ _", simplified] sources_append)
  have "snapshot_to_blobs snap seq opts = Some (?blobs @ (if wo_member_index opts then index_blobs seq opts ?s else []))"
    using member_loop_tables [OF sorted_tables_ok [OF ok] refl refl, of seq opts ?blobs] pre
    by (simp add: snapshot_to_blobs_def scopes g registry_blobs_def [symmetric] key_filters_def [symmetric] Let_def)
  moreover have "\<forall>b \<in> set (?rest @ (if wo_member_index opts then index_blobs seq opts ?s else [])). plain_blob b"
    using plain_registry plain_filters(1) plain_index by auto
  ultimately show ?thesis
    by (intro exI [of _ "?rest @ (if wo_member_index opts then index_blobs seq opts ?s else [])"]) simp
qed

text \<open>
  C18: a snapshot survives its blobs. For every snapshot whose tables hold each key once, in whatever
  order, the blobs are written, in either registry and member encoding and with or without filters
  and index, and decoding them returns the same tables, each in key order and the scopes in
  ascending order.
\<close>

theorem blobs_decode_to_snapshot:
  assumes "keyed_tables snap"
  shows "\<exists>blobs. snapshot_to_blobs snap sequence opts = Some blobs \<and> blobs_to_snapshot blobs = Inr (sorted_snapshot snap)"
proof -
  let ?s = "sorted_tables snap"
  have n: "length (snap_global ?s) < 2 ^ 59" "\<forall>g \<in> set (snap_scopes ?s). length (snd g) < 2 ^ 59"
    using sorted_tables_ok [OF assms] by (auto simp: snapshot_ok_def)
  obtain rest where r: "\<forall>b \<in> set rest. plain_blob b" "snapshot_to_blobs snap sequence opts =
      Some (make_blob sequence GLOBAL_BLOB_TYPE (counted pair_bytes (snap_global ?s)) [] #
        map (scope_blob sequence) (snap_scopes ?s) @ rest)"
    using snapshot_to_blobs_tables [OF assms] by blast
  show ?thesis
    unfolding r(2) using decode_plain [OF r(1)]
    by (simp add: blobs_to_snapshot_def decode_pairs_counted [OF n(1)] decode_scopes [OF n(2)] sorted_snapshot_def)
qed

text \<open>Tables out of order, as in the round-trip test of the repository, and the scopes swapped.\<close>

theorem blobs_decode_to_snapshot_witness:
  "\<exists>blobs. snapshot_to_blobs \<lparr>snap_global = [(500, 105), (7, 105)], snap_scopes = [(2999, [(4, 2), (8, 2)]), (3, [(9, 1)])]\<rparr> 12
      (default_write_options\<lparr>wo_member_index := True\<rparr>) = Some blobs \<and>
    blobs_to_snapshot blobs = Inr \<lparr>snap_global = [(7, 105), (500, 105)], snap_scopes = [(3, [(9, 1)]), (2999, [(4, 2), (8, 2)])]\<rparr>"
proof -
  let ?snap = "\<lparr>snap_global = [(500, 105), (7, 105)], snap_scopes = [(2999, [(4, 2), (8, 2)]), (3, [(9, 1)])]\<rparr>"
  have "keyed_tables ?snap" by (simp add: keyed_tables_def)
  moreover have "sorted_snapshot ?snap = \<lparr>snap_global = [(7, 105), (500, 105)], snap_scopes = [(3, [(9, 1)]), (2999, [(4, 2), (8, 2)])]\<rparr>"
    by (simp add: sorted_snapshot_def sorted_tables_def)
  ultimately show ?thesis
    using blobs_decode_to_snapshot [of ?snap 12 "default_write_options\<lparr>wo_member_index := True\<rparr>"] by simp
qed

end
