(* ===== verification/Table_Scan.thy ===== *)
theory Table_Scan
  imports Pair_Table
begin

text \<open>
  The two passes that read a base file front to back instead of probing the mapping
  (\<^verbatim>\<open>src/storage/base.rs\<close>): the sweep of a table during compaction, through a file descriptor or through
  the mapping, and the single pass over the file that samples the first key of every page of every
  table when a base is opened.

  The file shows that both readers of a sweep deliver the same pairs, and that the single pass,
  which slides a window over the file and keeps eight bytes of overlap, builds for every table the
  index that sampling that table alone would build.
\<close>

section \<open>Sweeping a table\<close>

datatype scan_reader = Buffered | Mapped

definition SCAN_CHUNK :: nat where "SCAN_CHUNK = 2 ^ 20"

definition chunk_pairs :: "bytes \<Rightarrow> (node_id \<times> node_id) list" where
  "chunk_pairs buf =
     map (\<lambda>i. (u64_from_le_bytes (take 8 (drop (i * PAIR_STRIDE) buf)),
       u64_from_le_bytes (take 8 (drop (i * PAIR_STRIDE + 8) buf)))) [0..<length buf div PAIR_STRIDE]"

text \<open>The loop over the chunks; a read that fails panics.\<close>

function scan_loop :: "bytes \<Rightarrow> nat \<Rightarrow> nat \<Rightarrow> (node_id \<times> node_id) list option" where
  "scan_loop file pos left =
     (if 0 < left then
        let want = min left SCAN_CHUNK in
        do { buf \<leftarrow> slice file pos (pos + want);
             rest \<leftarrow> scan_loop file (pos + want) (left - want);
             Some (chunk_pairs buf @ rest) }
      else Some [])"
  by pat_completeness auto
termination by (relation "measure (\<lambda>(file, pos, left). left)") (auto simp: SCAN_CHUNK_def)

declare scan_loop.simps [simp del]

definition scan_fd :: "bytes \<Rightarrow> pair_table \<Rightarrow> nat \<Rightarrow> (node_id \<times> node_id) list option" where
  "scan_fd file t len = scan_loop file (pt_start t) len"

definition scan_mapped :: "bytes \<Rightarrow> pair_table \<Rightarrow> (node_id \<times> node_id) list option" where
  "scan_mapped data t = table_for_each t data"

text \<open>\<open>reopened\<close> is what opening the path of the base again gives, \<^const>\<open>None\<close> when that fails.\<close>

definition scan :: "scan_reader \<Rightarrow> bytes option \<Rightarrow> bytes \<Rightarrow> pair_table \<Rightarrow> (node_id \<times> node_id) list option" where
  "scan reader reopened data t =
     (let len = unat (word_of_nat (pt_count t) * word_of_nat PAIR_STRIDE :: u64) in
      if len = 0 then Some []
      else case reader of
          Mapped \<Rightarrow> scan_mapped data t
        | Buffered \<Rightarrow> (case reopened of Some file \<Rightarrow> scan_fd file t len | None \<Rightarrow> scan_mapped data t))"

section \<open>Sampling the tables of a file\<close>

text \<open>The samples that lie inside the window are pushed onto the keys of their tables.\<close>

fun sample_window :: "nat \<Rightarrow> bytes \<Rightarrow> (nat \<times> nat) list \<Rightarrow> node_id list list \<Rightarrow>
    ((nat \<times> nat) list \<times> node_id list list) option" where
  "sample_window base_off buf [] keys = Some ([], keys)"
| "sample_window base_off buf ((off, tid) # wanted) keys =
     (if base_off + length buf < off + 8 then Some ((off, tid) # wanted, keys)
      else if off < base_off \<or> \<not> tid < length keys then None
      else do { k \<leftarrow> u64_at buf (off - base_off);
                sample_window base_off buf wanted (keys[tid := keys ! tid @ [k]]) })"

lemma window_progress:
  "b + l < (e::nat) \<Longrightarrow> m < c \<Longrightarrow> e - (b + (l + min (e - (b + l)) (c - m))) < e - (b + l)"
  by (cases "e - (b + l) \<le> c - m") auto

function window_loop :: "bytes \<Rightarrow> nat \<Rightarrow> nat \<Rightarrow> bytes \<Rightarrow> (nat \<times> nat) list \<Rightarrow> node_id list list \<Rightarrow>
    node_id list list result" where
  "window_loop file span_end base_off buf wanted keys =
     (if wanted = [] then Inr keys
      else
        let keep = min (length buf) 8;
            tail = drop (length buf - keep) buf;
            base_off = base_off + (length buf - keep);
            want = min (span_end - (base_off + keep)) (max SCAN_CHUNK 16 - keep) in
        if want = 0 then Inr keys
        else and_then (ok_or IoError (slice file (base_off + keep) (base_off + keep + want))) (\<lambda>chunk.
          and_then (ok_or Panic (sample_window base_off (tail @ chunk) wanted keys)) (\<lambda>(wanted, keys).
          window_loop file span_end base_off (tail @ chunk) wanted keys)))"
  by pat_completeness auto
termination
  by (relation "measure (\<lambda>(file, span_end, base_off, buf, wanted, keys). span_end - (base_off + length buf))")
    (auto simp: ok_or_Inr intro!: window_progress dest!: slice_length)

declare window_loop.simps [simp del]

definition sample_count :: "pair_table \<Rightarrow> nat" where
  "sample_count t =
     (let block = PAGE_BYTES div PAIR_STRIDE in
      if pt_count t \<le> block then 0 else (pt_count t + block - 1) div block)"

definition wanted_samples :: "pair_table list \<Rightarrow> (nat \<times> nat) list" where
  "wanted_samples tables =
     concat (map (\<lambda>(tid, t). map (\<lambda>i. (pt_start t + i * PAGE_BYTES, tid)) [0..<sample_count t]) (enumerate 0 tables))"

definition build_indexes :: "bytes \<Rightarrow> pair_table list \<Rightarrow> pair_table list result" where
  "build_indexes file tables =
     (let wanted = wanted_samples tables in
      if wanted = [] then Inr tables
      else
        let wanted = sort wanted; span_start = fst (hd wanted); span_end = fst (last wanted) + 8 in
        and_then (window_loop file span_end span_start [] wanted (replicate (length tables) [])) (\<lambda>keys.
        Inr (map2 (\<lambda>t ks. if length ks = sample_count t \<and> 0 < sample_count t
                          then t\<lparr>pt_index := Some \<lparr>ix_block = PAGE_BYTES div PAIR_STRIDE, first_keys = ks\<rparr>\<rparr> else t)
          tables keys)))"

section \<open>Both readers of a sweep deliver the table\<close>

lemma chunk_pairs_append:
  assumes "16 dvd length a"
  shows "chunk_pairs (a @ b) = chunk_pairs a @ chunk_pairs b"
proof -
  obtain n where n: "length a = n * 16" using assms by (auto simp: dvd_def mult.commute)
  let ?p = "\<lambda>buf i. (u64_from_le_bytes (take 8 (drop (i * 16) buf)), u64_from_le_bytes (take 8 (drop (i * 16 + 8) buf)))"
  let ?m = "length b div 16"
  have "map (?p (a @ b)) [0..<n + ?m] = map (?p (a @ b)) [0..<n] @ map (?p (a @ b)) [n..<n + ?m]"
    using upt_add_eq_append [of 0 n ?m] by (simp only: map_append add_0 le0)
  moreover have "map (?p (a @ b)) [0..<n] = map (?p a) [0..<n]"
  proof (rule map_cong [OF refl])
    fix i assume "i \<in> set [0..<n]"
    then have "i * 16 + 16 \<le> n * 16" by simp
    then show "?p (a @ b) i = ?p a i" by (simp add: n)
  qed
  moreover have "map (?p (a @ b)) [n..<n + ?m] = map (?p b) [0..<?m]"
    by (rule nth_equalityI) (simp_all add: n algebra_simps)
  ultimately show ?thesis by (simp add: chunk_pairs_def PAIR_STRIDE_def n)
qed

lemma scan_loop_chunks:
  assumes "slice data p (p + n) = Some body" and "16 dvd n"
  shows "scan_loop data p n = Some (chunk_pairs body)"
  using assms
proof (induction data p n arbitrary: body rule: scan_loop.induct)
  case (1 data p n)
  show ?case
  proof (cases "n = 0")
    case True
    then show ?thesis using 1(2) by (simp add: scan_loop.simps [of data p] slice_def chunk_pairs_def split: if_splits)
  next
    case False
    let ?want = "min n SCAN_CHUNK"
    have fit: "p + n \<le> length data" and body: "body = take n (drop p data)"
      using 1(2) by (auto simp: slice_def split: if_splits)
    have w: "slice data p (p + ?want) = Some (take ?want body)"
      using fit by (simp add: slice_def body min_def)
    have r: "slice data (p + ?want) (p + ?want + (n - ?want)) = Some (drop ?want body)"
      using fit by (auto simp: slice_def body drop_take add.commute)
    have d: "16 dvd ?want" using 1(3) by (simp add: min_def SCAN_CHUNK_def)
    then have "16 dvd n - ?want" using 1(3) by (simp add: dvd_diff_nat)
    with 1(1) [OF _ refl w r] False have "scan_loop data (p + ?want) (n - ?want) = Some (chunk_pairs (drop ?want body))"
      by simp
    moreover have "chunk_pairs body = chunk_pairs (take ?want body) @ chunk_pairs (drop ?want body)"
    proof -
      have "length (take ?want body) = ?want" using fit by (simp add: body)
      then show ?thesis using chunk_pairs_append [of "take ?want body" "drop ?want body"] d by (simp only: append_take_drop_id)
    qed
    ultimately show ?thesis using False w by (simp add: scan_loop.simps [of data p] Let_def)
  qed
qed

lemma table_reads_chunks:
  assumes "slice data (pt_start t) (pt_start t + pt_count t * 16) = Some body"
  shows "table_for_each t data = Some (chunk_pairs body)"
proof -
  have len: "length body = pt_count t * 16" using slice_length [OF assms] by simp
  have "pair_at t data i = Some (chunk_pairs body ! i)" if i: "i < pt_count t" for i
  proof -
    have "i * 16 + 16 \<le> pt_count t * 16" using i by simp
    then have "u64_at data (pt_start t + i * 16) = u64_at body (i * 16)"
      "u64_at data (pt_start t + (i * 16 + 8)) = u64_at body (i * 16 + 8)"
      by (auto intro!: u64_at_inside [OF assms])
    moreover have "u64_at body (i * 16) = Some (fst (chunk_pairs body ! i))"
      "u64_at body (i * 16 + 8) = Some (snd (chunk_pairs body ! i))"
      using i len by (simp_all add: chunk_pairs_def PAIR_STRIDE_def u64_at_def slice_def)
    ultimately show ?thesis by (simp add: pair_at_def key_at_def value_at_def PAIR_STRIDE_def add.assoc)
  qed
  then show ?thesis
    using those_nth [of "chunk_pairs body" "pair_at t data"] len by (simp add: table_for_each_def chunk_pairs_def PAIR_STRIDE_def)
qed

lemma scan_table:
  assumes "pt_start t + pt_count t * 16 \<le> length data" and "pt_count t * 16 < 2 ^ 64"
    and "reopened = None \<or> reopened = Some data"
  shows "scan reader reopened data t = table_for_each t data"
proof -
  obtain body where b: "slice data (pt_start t) (pt_start t + pt_count t * 16) = Some body"
    using slice_Some [of "pt_start t" "pt_start t + pt_count t * 16" data] assms(1) by auto
  have len: "unat (word_of_nat (pt_count t) * word_of_nat PAIR_STRIDE :: u64) = pt_count t * 16"
    using unat_word_of_nat_small [of "pt_count t * 16"] assms(2) by (simp add: PAIR_STRIDE_def)
  have "scan_fd data t (pt_count t * 16) = table_for_each t data"
    using scan_loop_chunks [OF b] table_reads_chunks [OF b] by (simp add: scan_fd_def)
  moreover have "table_for_each t data = Some []" if "pt_count t = 0" using that by (simp add: table_for_each_def)
  ultimately show ?thesis using assms(3) len
    by (auto simp: scan_def scan_mapped_def Let_def split: scan_reader.split)
qed

section \<open>The single pass samples every table\<close>

definition push_sample :: "bytes \<Rightarrow> nat \<times> nat \<Rightarrow> node_id list list \<Rightarrow> node_id list list" where
  "push_sample data w keys = keys[snd w := keys ! snd w @ [the (u64_at data (fst w))]]"

lemma length_push_samples [simp]: "length (fold (push_sample data) ws keys) = length keys"
  by (induction ws arbitrary: keys) (simp_all add: push_sample_def)

lemma sample_window_spec:
  assumes "slice data off (off + length buf) = Some buf" and "\<forall>w \<in> set ws. off \<le> fst w \<and> snd w < length keys"
  shows "sample_window off buf ws keys =
    Some (dropWhile (\<lambda>w. fst w + 8 \<le> off + length buf) ws,
      fold (push_sample data) (takeWhile (\<lambda>w. fst w + 8 \<le> off + length buf) ws) keys)"
  using assms(2)
proof (induction ws arbitrary: keys)
  case (Cons w ws)
  obtain o' tid where w: "w = (o', tid)" by fastforce
  show ?case
  proof (cases "off + length buf < o' + 8")
    case False
    have "u64_at buf (o' - off) = u64_at data o'"
      using u64_at_inside [OF assms(1), of "o' - off"] False Cons.prems by (simp add: w)
    moreover obtain k where "u64_at data o' = Some k"
      using False assms(1) u64_at_Some [of o' data] by (auto simp: slice_def split: if_splits)
    ultimately show ?thesis
      using Cons.IH [of "push_sample data w keys"] Cons.prems False by (simp add: w push_sample_def)
  qed (simp add: w)
qed simp

lemma sorted_dropWhile_rest:
  "sorted (map fst ws) \<Longrightarrow> \<forall>w \<in> set (dropWhile (\<lambda>w. fst w + 8 \<le> (n::nat)) ws). n < fst w + 8"
  by (induction ws) auto

lemma window_loop_spec:
  assumes "slice data off (off + length buf) = Some buf" and "off + length buf \<le> stop" and "stop \<le> length data"
    and "sorted (map fst ws)"
    and "\<forall>w \<in> set ws. off + length buf < fst w + 8 \<and> off + (length buf - min (length buf) 8) \<le> fst w \<and>
      fst w + 8 \<le> stop \<and> snd w < length keys"
  shows "window_loop data stop off buf ws keys = Inr (fold (push_sample data) ws keys)"
  using assms
proof (induction data stop off buf ws keys rule: window_loop.induct)
  case (1 data stop off buf ws keys)
  define keep where "keep = min (length buf) 8"
  define tail where "tail = drop (length buf - keep) buf"
  define off' where "off' = off + (length buf - keep)"
  define want where "want = min (stop - (off' + keep)) (max SCAN_CHUNK 16 - keep)"
  have step: "window_loop data stop off buf ws keys = (if ws = [] then Inr keys else if want = 0 then Inr keys
      else and_then (ok_or IoError (slice data (off' + keep) (off' + keep + want))) (\<lambda>chunk.
        and_then (ok_or Panic (sample_window off' (tail @ chunk) ws keys)) (\<lambda>(ws, keys).
        window_loop data stop off' (tail @ chunk) ws keys)))"
    by (simp only: window_loop.simps [of data stop off] Let_def keep_def tail_def off'_def want_def)
  show ?case
  proof (cases "ws = []")
    case False
    have at: "off' + keep = off + length buf" and keep8: "keep \<le> 8" "length tail = keep"
      by (simp_all add: off'_def keep_def tail_def)
    obtain w where w: "w \<in> set ws" using False by (cases ws) auto
    have "off + length buf < stop"
    proof -
      have "off + length buf < fst w + 8" "fst w + 8 \<le> stop" using 1(6) w by blast+
      then show ?thesis by linarith
    qed
    then have want: "0 < want" "off' + keep + want \<le> stop"
      unfolding want_def at using keep8 by (auto simp: SCAN_CHUNK_def)
    obtain chunk where c: "slice data (off' + keep) (off' + keep + want) = Some chunk"
      using slice_Some [of "off' + keep" "off' + keep + want" data] want(2) 1(4) by auto
    have len: "length (tail @ chunk) = keep + want" using slice_length [OF c] keep8 by simp
    have win: "slice data off' (off' + length (tail @ chunk)) = Some (tail @ chunk)"
    proof -
      have b: "take (length buf) (drop off data) = buf" using 1(2) by (simp add: slice_def split: if_splits)
      have "tail = drop (length buf - keep) (take (length buf) (drop off data))" unfolding tail_def b ..
      moreover have "length buf - (length buf - keep) = keep" by (simp add: keep_def)
      ultimately have "tail = take keep (drop off' data)" by (simp only: drop_take drop_drop off'_def add.commute)
      moreover have "chunk = take want (drop (off' + keep) data)" using c by (auto simp: slice_def split: if_splits)
      ultimately have "tail @ chunk = take (keep + want) (drop off' data)" by (simp add: take_add add.commute)
      then show ?thesis using len want(2) 1(4) by (simp add: slice_def)
    qed
    let ?in = "\<lambda>w. fst w + 8 \<le> off' + length (tail @ chunk)"
    let ?rest = "dropWhile ?in ws" and ?keys = "fold (push_sample data) (takeWhile ?in ws) keys"
    have low: "\<forall>w \<in> set ws. off' \<le> fst w \<and> fst w + 8 \<le> stop \<and> snd w < length keys"
      using 1(6) by (simp add: off'_def keep_def)
    then have s: "sample_window off' (tail @ chunk) ws keys = Some (?rest, ?keys)"
      by (intro sample_window_spec [OF win]) auto
    have "window_loop data stop off' (tail @ chunk) ?rest ?keys = Inr (fold (push_sample data) ?rest ?keys)"
    proof (rule 1(1) [OF False keep_def tail_def off'_def want_def _ _ _ refl win])
      show "want \<noteq> 0" "ok_or IoError (slice data (off' + keep) (off' + keep + want)) = Inr chunk"
        "ok_or Panic (sample_window off' (tail @ chunk) ws keys) = Inr (?rest, ?keys)" using want c s by simp_all
      show "off' + length (tail @ chunk) \<le> stop" using len want by simp
      show "sorted (map fst ?rest)" using 1(5) by (metis dropWhile_eq_drop drop_map sorted_wrt_drop)
      have "off' + length (tail @ chunk) < fst w + 8 \<and> off' + (length (tail @ chunk) - min (length (tail @ chunk)) 8) \<le> fst w"
        if "w \<in> set ?rest" for w
        using sorted_dropWhile_rest [OF 1(5)] that low set_dropWhileD [OF that] by fastforce
      then show "\<forall>w \<in> set ?rest. off' + length (tail @ chunk) < fst w + 8 \<and>
          off' + (length (tail @ chunk) - min (length (tail @ chunk)) 8) \<le> fst w \<and> fst w + 8 \<le> stop \<and> snd w < length ?keys"
        using low set_dropWhileD by (metis (no_types, lifting) length_push_samples)
    qed (use 1(4) in simp_all)
    moreover have "fold (push_sample data) ws keys = fold (push_sample data) ?rest ?keys"
      using fold_append [of "push_sample data" "takeWhile ?in ws" ?rest] by simp
    ultimately show ?thesis using False want c s by (simp add: step)
  qed (simp add: window_loop.simps)
qed

lemma push_samples_nth:
  "tid < length keys \<Longrightarrow> fold (push_sample data) ws keys ! tid =
     keys ! tid @ map (\<lambda>w. the (u64_at data (fst w))) (filter (\<lambda>w. snd w = tid) ws)"
  by (induction ws arbitrary: keys) (auto simp: push_sample_def nth_list_update)

definition table_samples :: "nat \<times> pair_table \<Rightarrow> (nat \<times> nat) list" where
  "table_samples g = map (\<lambda>i. (pt_start (snd g) + i * PAGE_BYTES, fst g)) [0..<sample_count (snd g)]"

lemma wanted_samples_eq: "wanted_samples tables = concat (map table_samples (enumerate 0 tables))"
  by (simp add: wanted_samples_def table_samples_def [abs_def] case_prod_beta')

lemma filter_table_samples:
  "tid < length tables \<Longrightarrow>
     filter (\<lambda>w. snd w = n + tid) (concat (map table_samples (enumerate n tables))) = table_samples (n + tid, tables ! tid)"
proof (induction tables arbitrary: n tid)
  case (Cons t tables)
  have other: "filter (\<lambda>w. snd w = k) (table_samples (j, u)) = (if j = k then table_samples (j, u) else [])" for j k u
    by (auto simp: table_samples_def filter_empty_conv intro!: filter_True)
  have none: "filter (\<lambda>w. snd w = n) (concat (map table_samples (enumerate (Suc n) us))) = []" for us
    by (auto simp: filter_empty_conv table_samples_def in_set_enumerate_eq)
  show ?case using Cons.IH [of "tid - 1" "Suc n"] Cons.prems none
    by (cases tid) (simp_all add: other)
qed simp

lemma sorted_table_samples: "sorted (table_samples g)"
  by (auto simp: table_samples_def sorted_iff_nth_mono less_eq_prod_def le_less)

lemma wanted_samples_in:
  assumes "w \<in> set (wanted_samples tables)"
  shows "snd w < length tables \<and> (\<exists>i < sample_count (tables ! snd w). fst w = pt_start (tables ! snd w) + i * PAGE_BYTES)"
  using assms unfolding wanted_samples_eq by (auto simp: table_samples_def in_set_enumerate_eq)

lemma sample_in_table: "i < sample_count t \<Longrightarrow> i * 256 < pt_count t"
  using step_by_length [of 256 i "pt_count t"]
  by (auto simp: sample_count_def step_by_def PAGE_BYTES_def PAIR_STRIDE_def Let_def split: if_splits)

lemma wanted_window:
  assumes "\<forall>t \<in> set tables. pt_start t + pt_count t * 16 \<le> length data" and "wanted_samples tables \<noteq> []"
  defines "ws \<equiv> sort (wanted_samples tables)"
  shows "window_loop data (fst (last ws) + 8) (fst (hd ws)) [] ws (replicate (length tables) []) =
    Inr (fold (push_sample data) ws (replicate (length tables) []))"
proof (rule window_loop_spec)
  have ne: "ws \<noteq> []" and srt: "sorted ws" and mem: "set ws = set (wanted_samples tables)"
    using assms(2) by (simp_all add: ws_def) (metis set_empty set_sort)
  have fit: "fst w + 8 \<le> length data \<and> snd w < length tables" if w: "w \<in> set ws" for w
  proof -
    obtain i where i: "snd w < length tables" "i < sample_count (tables ! snd w)"
      "fst w = pt_start (tables ! snd w) + i * PAGE_BYTES"
      using wanted_samples_in w unfolding mem by blast
    then have "pt_start (tables ! snd w) + pt_count (tables ! snd w) * 16 \<le> length data" using assms(1) by simp
    with i sample_in_table [OF i(2)] show ?thesis by (simp add: PAGE_BYTES_def)
  qed
  show fs: "sorted (map fst ws)" unfolding sorted_map
    by (rule sorted_wrt_mono_rel [OF _ srt]) (auto simp: less_eq_prod_def)
  have "fst (hd ws) \<le> fst w" if "w \<in> set ws" for w
    using fs that ne by (cases ws) auto
  moreover have "fst w \<le> fst (last ws)" if "w \<in> set ws" for w
    using fs that ne by (induction ws) auto
  ultimately show "\<forall>w \<in> set ws. fst (hd ws) + length [] < fst w + 8 \<and>
      fst (hd ws) + (length [] - min (length []) 8) \<le> fst w \<and> fst w + 8 \<le> fst (last ws) + 8 \<and>
      snd w < length (replicate (length tables) [])"
    using fit by fastforce
  show "slice data (fst (hd ws)) (fst (hd ws) + length []) = Some []" using fit [of "hd ws"] ne by (simp add: slice_def)
  show "fst (hd ws) + length [] \<le> fst (last ws) + 8" "fst (last ws) + 8 \<le> length data"
    using fit [of "last ws"] ne \<open>\<And>w. w \<in> set ws \<Longrightarrow> fst w \<le> fst (last ws)\<close> [of "hd ws"] by simp_all
qed

lemma build_indexes_spec:
  assumes "\<forall>t \<in> set tables. pt_start t + pt_count t * 16 \<le> length data \<and> pt_index t = None"
  shows "\<exists>tables'. build_indexes data tables = Inr tables' \<and>
    list_all2 (\<lambda>t t'. \<exists>ix. sparse_build (pt_count t) PAIR_STRIDE (key_at t data) = Some ix \<and> t' = t\<lparr>pt_index := ix\<rparr>)
      tables tables'"
proof -
  have sb: "sparse_build (pt_count t) PAIR_STRIDE (key_at t data) =
      Some (if 0 < sample_count t then Some \<lparr>ix_block = PAGE_BYTES div PAIR_STRIDE,
        first_keys = map (\<lambda>w. the (u64_at data (fst w))) (table_samples (tid, t))\<rparr> else None)"
    if "t \<in> set tables" for t tid
  proof (cases "pt_count t \<le> 256")
    case False
    have "key_at t data (i * 256) = Some (the (u64_at data (pt_start t + i * 4096)))" if "i < sample_count t" for i
    proof -
      have "pt_start t + i * 256 * 16 + 8 \<le> length data"
        using sample_in_table [OF that] assms \<open>t \<in> set tables\<close> by fastforce
      moreover have "i * 256 * 16 = i * 4096" by simp
      ultimately obtain k where "u64_at data (pt_start t + i * 4096) = Some k"
        using u64_at_Some [of "pt_start t + i * 4096" data] by auto
      then show ?thesis by (simp only: key_at_def PAIR_STRIDE_def \<open>i * 256 * 16 = i * 4096\<close> option.sel)
    qed
    then have "those (map (key_at t data) (map (\<lambda>i. i * 256) [0..<sample_count t])) =
        Some (map (\<lambda>i. the (u64_at data (pt_start t + i * 4096))) [0..<sample_count t])"
      unfolding map_map by (intro those_map_Some) auto
    then show ?thesis using False
      by (simp add: sparse_build_def table_samples_def step_by_def sample_count_def PAGE_BYTES_def PAIR_STRIDE_def Let_def
          comp_def div_greater_zero_iff)
  qed (simp add: sparse_build_def sample_count_def PAGE_BYTES_def PAIR_STRIDE_def Let_def)
  have own: "filter (\<lambda>w. snd w = tid) (sort (wanted_samples tables)) = table_samples (tid, tables ! tid)"
    if "tid < length tables" for tid
    using filter_table_samples [of tid tables 0] that
    by (simp add: wanted_samples_eq filter_sort sort_key_id_if_sorted sorted_table_samples)
  let ?ws = "sort (wanted_samples tables)" and ?keys = "replicate (length tables) []"
  let ?out = "fold (push_sample data) ?ws ?keys"
  have run: "wanted_samples tables \<noteq> [] \<Longrightarrow> window_loop data (fst (last ?ws) + 8) (fst (hd ?ws)) [] ?ws ?keys = Inr ?out"
    using wanted_window [of tables data] assms by blast
  have "(if length (?out ! tid) = sample_count (tables ! tid) \<and> 0 < sample_count (tables ! tid)
      then (tables ! tid)\<lparr>pt_index := Some \<lparr>ix_block = PAGE_BYTES div PAIR_STRIDE, first_keys = ?out ! tid\<rparr>\<rparr> else tables ! tid) =
      (tables ! tid)\<lparr>pt_index := the (sparse_build (pt_count (tables ! tid)) PAIR_STRIDE (key_at (tables ! tid) data))\<rparr>"
    if "tid < length tables" for tid
    using that push_samples_nth [of tid ?keys data ?ws] own [OF that] sb [of "tables ! tid" tid] assms
    by (simp add: table_samples_def)
  note built = this
  show ?thesis
  proof (cases "wanted_samples tables = []")
    case True
    have "sparse_build (pt_count (tables ! i)) PAIR_STRIDE (key_at (tables ! i) data) = Some None \<and> pt_index (tables ! i) = None"
      if "i < length tables" for i
      using own [OF that] True sb [of "tables ! i" i] that assms by (simp add: table_samples_def)
    then show ?thesis using True by (simp add: build_indexes_def list_all2_conv_all_nth)
  next
    case False
    have "\<exists>ix. sparse_build (pt_count (tables ! i)) PAIR_STRIDE (key_at (tables ! i) data) = Some ix" if "i < length tables" for i
      using sb [of "tables ! i"] that by auto
    then show ?thesis using False run built by (fastforce simp: build_indexes_def Let_def list_all2_conv_all_nth)
  qed
qed

text \<open>
  C19: one pass is enough. Opening a base samples all its tables in a single forward pass over the
  file, with a window that carries eight bytes over from one read to the next. Every table ends up
  with exactly the index that reading its own page starts one by one would give, wherever the
  tables lie in the file.
\<close>

theorem single_pass_samples_every_table:
  assumes "\<forall>t \<in> set tables. pt_start t + pt_count t * 16 \<le> length data \<and> pt_index t = None"
  shows "\<exists>tables'. build_indexes data tables = Inr tables' \<and>
    list_all2 (\<lambda>t t'. \<exists>ix. sparse_build (pt_count t) PAIR_STRIDE (key_at t data) = Some ix \<and> t' = t\<lparr>pt_index := ix\<rparr>)
      tables tables'"
  using build_indexes_spec [OF assms] .

theorem single_pass_samples_every_table_witness:
  "\<exists>t'. build_indexes (replicate 5000 0) [\<lparr>pt_start = 8, pt_count = 300, pt_index = None\<rparr>] = Inr [t'] \<and> pt_index t' \<noteq> None"
proof -
  let ?data = "replicate 5000 0 :: bytes" and ?t = "\<lparr>pt_start = 8, pt_count = 300, pt_index = None\<rparr>"
  from single_pass_samples_every_table [of "[?t]" ?data]
  obtain t' ix where "build_indexes ?data [?t] = Inr [t']" and "sparse_build 300 PAIR_STRIDE (key_at ?t ?data) = Some ix"
    and "t' = ?t\<lparr>pt_index := ix\<rparr>"
    by (auto simp: list_all2_Cons1)
  moreover from this(2) have "ix \<noteq> None" by (auto simp: sparse_build_def PAGE_BYTES_def PAIR_STRIDE_def)
  ultimately show ?thesis by simp
qed

end
