(* ===== verification/Puffin_Base.thy ===== *)
theory Puffin_Base
  imports Codec_Paths Table_Scan
begin

text \<open>
  The base served from a memory-mapped Puffin file: \<^verbatim>\<open>PuffinBase\<close> of \<^verbatim>\<open>src/storage/base.rs\<close>. Opening reads
  the footer, parses the header of every table, loads the filters, rebuilds a registry that the
  file lacks and samples the tables; queries probe a filter and then a table of the mapping.

  A read of the mapping outside its bounds panics: the operations return \<^const>\<open>None\<close> there. Advice to
  the kernel about caching has no effect on the values and does not appear.
\<close>

section \<open>Opening a file\<close>

record puffin_base =
  pb_mmap :: bytes
  pb_reader :: scan_reader
  pb_shared :: "pair_table option"
  pb_overlays :: "(scope_id, pair_table) fmap"
  pb_shared_members :: "member_table option"
  pb_overlay_members :: "(scope_id, member_table) fmap"
  pb_registry :: "registry_table option"
  pb_fallback :: "(node_id, scope_list) fmap option"
  pb_shared_filter :: "blocked_filter option"
  pb_overlay_filter :: "blocked_filter option"
  pb_shared_members_filter :: "blocked_filter option"
  pb_overlay_members_filter :: "blocked_filter option"
  pb_sequence :: u64

definition empty_base :: "bytes \<Rightarrow> scan_reader \<Rightarrow> puffin_base" where
  "empty_base data reader =
     \<lparr>pb_mmap = data, pb_reader = reader, pb_shared = None, pb_overlays = fmempty, pb_shared_members = None,
      pb_overlay_members = fmempty, pb_registry = None, pb_fallback = None, pb_shared_filter = None,
      pb_overlay_filter = None, pb_shared_members_filter = None, pb_overlay_members_filter = None, pb_sequence = 0\<rparr>"

text \<open>\<^verbatim>\<open>blob.sequence_number.max(0) as u64\<close>, and the scope a blob is for.\<close>

definition blob_sequence :: "i64 \<Rightarrow> u64" where
  "blob_sequence n = (if sint n < 0 then 0 else n)"

definition blob_scope :: "properties \<Rightarrow> scope_id result" where
  "blob_scope properties =
     and_then (ok_or MissingScope (map_of properties SCOPE_ID_PROP)) (\<lambda>v. ok_or BadScope (parse_scope v))"

definition blob_filter :: "bytes \<Rightarrow> blob_index \<Rightarrow> blocked_filter result" where
  "blob_filter data i =
     and_then (ok_or Panic (slice data (bi_offset i) (bi_offset i + bi_length i))) filter_decode"

definition build_blob :: "blob_index \<Rightarrow> puffin_base \<Rightarrow> puffin_base result" where
  "build_blob i b =
     (let data = pb_mmap b; (lo, hi) = bi_range i; t = bi_type i;
          b = b\<lparr>pb_sequence := max (pb_sequence b) (blob_sequence (bi_sequence_number i))\<rparr> in
      if t = GLOBAL_BLOB_TYPE then
        and_then (pair_table_parse data lo hi) (\<lambda>p. Inr (b\<lparr>pb_shared := Some p\<rparr>))
      else if t = SCOPE_BLOB_TYPE then
        and_then (blob_scope (bi_properties i)) (\<lambda>scope.
        and_then (pair_table_parse data lo hi) (\<lambda>p. Inr (b\<lparr>pb_overlays := fmupd scope p (pb_overlays b)\<rparr>)))
      else if t = FLAT_BLOB_TYPE \<or> t = BLOCKED_BLOB_TYPE then
        and_then (registry_parse t data lo hi) (\<lambda>r. Inr (b\<lparr>pb_registry := Some r\<rparr>))
      else if t = SHARED_FLAT_BLOB_TYPE \<or> t = SHARED_BLOCKED_BLOB_TYPE then
        and_then (member_parse t data lo hi) (\<lambda>m. Inr (b\<lparr>pb_shared_members := Some m\<rparr>))
      else if t = OVERLAY_FLAT_BLOB_TYPE \<or> t = OVERLAY_BLOCKED_BLOB_TYPE then
        and_then (blob_scope (bi_properties i)) (\<lambda>scope.
        and_then (member_parse t data lo hi) (\<lambda>m. Inr (b\<lparr>pb_overlay_members := fmupd scope m (pb_overlay_members b)\<rparr>)))
      else if t = SHARED_FILTER_BLOB_TYPE then
        and_then (blob_filter data i) (\<lambda>f. Inr (b\<lparr>pb_shared_filter := Some f\<rparr>))
      else if t = OVERLAY_FILTER_BLOB_TYPE then
        and_then (blob_filter data i) (\<lambda>f. Inr (b\<lparr>pb_overlay_filter := Some f\<rparr>))
      else if t = SHARED_MEMBERS_FILTER_BLOB_TYPE then
        and_then (blob_filter data i) (\<lambda>f. Inr (b\<lparr>pb_shared_members_filter := Some f\<rparr>))
      else if t = OVERLAY_MEMBERS_FILTER_BLOB_TYPE then
        and_then (blob_filter data i) (\<lambda>f. Inr (b\<lparr>pb_overlay_members_filter := Some f\<rparr>))
      else Inr b)"

fun build_blobs :: "blob_index list \<Rightarrow> puffin_base \<Rightarrow> puffin_base result" where
  "build_blobs [] b = Inr b"
| "build_blobs (i # index) b = and_then (build_blob i b) (build_blobs index)"

section \<open>Lookups\<close>

definition passes :: "blocked_filter option \<Rightarrow> u64 \<Rightarrow> bool option" where
  "passes f key = (case f of None \<Rightarrow> Some True | Some f \<Rightarrow> may_contain f key)"

definition pb_shared_parent :: "puffin_base \<Rightarrow> node_id \<Rightarrow> node_id option option" where
  "pb_shared_parent b node =
     do { worth \<leftarrow> passes (pb_shared_filter b) node;
          if \<not> worth then Some None
          else case pb_shared b of None \<Rightarrow> Some None | Some t \<Rightarrow> table_lookup t (pb_mmap b) node }"

definition pb_overlay_parent :: "puffin_base \<Rightarrow> scope_id \<Rightarrow> node_id \<Rightarrow> node_id option option" where
  "pb_overlay_parent b scope node =
     do { worth \<leftarrow> passes (pb_overlay_filter b) (overlay_key scope node);
          if \<not> worth then Some None
          else case fmlookup (pb_overlays b) scope of
              None \<Rightarrow> Some None
            | Some t \<Rightarrow> table_lookup t (pb_mmap b) node }"

text \<open>Rebuilding the registry of a file that has none.\<close>

definition fallback_member :: "puffin_base \<Rightarrow> scope_id \<Rightarrow> node_id \<Rightarrow> (node_id, scope_list) fmap \<Rightarrow>
    (node_id, scope_list) fmap option" where
  "fallback_member b scope member out =
     do { p \<leftarrow> pb_shared_parent b member;
          let live = (case p of None \<Rightarrow> member | Some r \<Rightarrow> r);
          let entry = (case fmlookup out live of None \<Rightarrow> [] | Some ss \<Rightarrow> ss);
          Some (fmupd live (if scope \<in> set entry then entry else entry @ [scope]) out) }"

fun fallback_members :: "puffin_base \<Rightarrow> (scope_id \<times> node_id) list \<Rightarrow> (node_id, scope_list) fmap \<Rightarrow>
    (node_id, scope_list) fmap option" where
  "fallback_members b [] out = Some out"
| "fallback_members b ((scope, member) # ms) out =
     do { out \<leftarrow> fallback_member b scope member out; fallback_members b ms out }"

definition overlay_scopes :: "puffin_base \<Rightarrow> scope_id list" where
  "overlay_scopes b = sorted_list_of_fset (fmdom (pb_overlays b))"

definition build_fallback_registry :: "puffin_base \<Rightarrow> (node_id, scope_list) fmap option" where
  "build_fallback_registry b =
     do { tables \<leftarrow> those (map (\<lambda>scope. case fmlookup (pb_overlays b) scope of
            None \<Rightarrow> Some [] | Some t \<Rightarrow> map_option (map (Pair scope)) (table_for_each t (pb_mmap b))) (overlay_scopes b));
          fallback_members b (concat (map (\<lambda>(scope, node, root). [(scope, node), (scope, root)]) (concat tables))) fmempty }"

definition base_tables :: "puffin_base \<Rightarrow> pair_table list" where
  "base_tables b =
     (case pb_shared b of None \<Rightarrow> [] | Some t \<Rightarrow> [t]) @ map (\<lambda>s. the (fmlookup (pb_overlays b) s)) (overlay_scopes b)"

definition with_tables :: "puffin_base \<Rightarrow> pair_table list \<Rightarrow> puffin_base" where
  "with_tables b tables =
     (let shared = (case pb_shared b of None \<Rightarrow> None | Some _ \<Rightarrow> Some (hd tables));
          rest = (case pb_shared b of None \<Rightarrow> tables | Some _ \<Rightarrow> tl tables) in
      b\<lparr>pb_shared := shared, pb_overlays := fmap_of_list (zip (overlay_scopes b) rest)\<rparr>)"

definition pb_build :: "json \<Rightarrow> bytes \<Rightarrow> scan_reader \<Rightarrow> puffin_base result" where
  "pb_build js data reader =
     and_then (map_err PuffinError (read_index js data)) (\<lambda>index.
     and_then (build_blobs index (empty_base data reader)) (\<lambda>b.
     and_then (if pb_registry b = None \<and> fmdom (pb_overlays b) \<noteq> {||}
        then and_then (ok_or Panic (build_fallback_registry b)) (\<lambda>m. Inr (b\<lparr>pb_fallback := Some m\<rparr>)) else Inr b) (\<lambda>b.
     and_then (build_indexes data (base_tables b)) (\<lambda>tables. Inr (with_tables b tables)))))"

text \<open>The file may be missing: \<^const>\<open>None\<close>.\<close>

definition open_with_reader :: "json \<Rightarrow> bytes option \<Rightarrow> scan_reader \<Rightarrow> puffin_base result" where
  "open_with_reader js content reader = and_then (ok_or IoError content) (\<lambda>data. pb_build js data reader)"

definition pb_open :: "json \<Rightarrow> bytes option \<Rightarrow> puffin_base result" where
  "pb_open js content = open_with_reader js content Buffered"

section \<open>The rest of the trait\<close>

definition pb_has_member_index :: "puffin_base \<Rightarrow> bool" where
  "pb_has_member_index b = (pb_shared_members b \<noteq> None)"

definition pb_shared_children :: "puffin_base \<Rightarrow> node_id \<Rightarrow> nat \<Rightarrow> node_id list \<Rightarrow> node_id list option" where
  "pb_shared_children b parent limit out =
     do { worth \<leftarrow> passes (pb_shared_members_filter b) parent;
          if \<not> worth then Some out
          else case pb_shared_members b of
              None \<Rightarrow> Some out
            | Some t \<Rightarrow> table_children_of t (pb_mmap b) parent limit out }"

definition pb_overlay_children :: "puffin_base \<Rightarrow> scope_id \<Rightarrow> node_id \<Rightarrow> nat \<Rightarrow> node_id list \<Rightarrow> node_id list option" where
  "pb_overlay_children b scope parent limit out =
     do { worth \<leftarrow> passes (pb_overlay_members_filter b) (overlay_key scope parent);
          if \<not> worth then Some out
          else case fmlookup (pb_overlay_members b) scope of
              None \<Rightarrow> Some out
            | Some t \<Rightarrow> table_children_of t (pb_mmap b) parent limit out }"

definition pb_scopes_for_root :: "puffin_base \<Rightarrow> node_id \<Rightarrow> scope_list option" where
  "pb_scopes_for_root b root =
     (case pb_registry b of
        Some reg \<Rightarrow> registry_scopes_for reg (pb_mmap b) root
      | None \<Rightarrow> Some (case pb_fallback b of
            None \<Rightarrow> []
          | Some m \<Rightarrow> (case fmlookup m root of None \<Rightarrow> [] | Some ss \<Rightarrow> ss)))"

definition pb_for_each_shared_pair :: "bytes option \<Rightarrow> puffin_base \<Rightarrow> (node_id \<times> node_id) list option" where
  "pb_for_each_shared_pair reopened b =
     (case pb_shared b of None \<Rightarrow> Some [] | Some t \<Rightarrow> scan (pb_reader b) reopened (pb_mmap b) t)"

definition pb_for_each_overlay_pair :: "bytes option \<Rightarrow> puffin_base \<Rightarrow> scope_id \<Rightarrow> (node_id \<times> node_id) list option" where
  "pb_for_each_overlay_pair reopened b scope =
     (case fmlookup (pb_overlays b) scope of None \<Rightarrow> Some [] | Some t \<Rightarrow> scan (pb_reader b) reopened (pb_mmap b) t)"

definition shared_len :: "puffin_base \<Rightarrow> nat" where
  "shared_len b = (case pb_shared b of None \<Rightarrow> 0 | Some t \<Rightarrow> pt_count t)"

definition shared_pair_at :: "puffin_base \<Rightarrow> nat \<Rightarrow> (node_id \<times> node_id) option" where
  "shared_pair_at b i = do { t \<leftarrow> pb_shared b; pair_at t (pb_mmap b) i }"

definition overlay_len :: "puffin_base \<Rightarrow> scope_id \<Rightarrow> nat" where
  "overlay_len b scope = (case fmlookup (pb_overlays b) scope of None \<Rightarrow> 0 | Some t \<Rightarrow> pt_count t)"

definition overlay_pair_at :: "puffin_base \<Rightarrow> scope_id \<Rightarrow> nat \<Rightarrow> (node_id \<times> node_id) option" where
  "overlay_pair_at b scope i = do { t \<leftarrow> fmlookup (pb_overlays b) scope; pair_at t (pb_mmap b) i }"

definition registry_len :: "puffin_base \<Rightarrow> nat" where
  "registry_len b = (case pb_registry b of None \<Rightarrow> 0 | Some t \<Rightarrow> registry_count t)"

definition registry_iter :: "puffin_base \<Rightarrow> (node_id \<times> scope_id) list option" where
  "registry_iter b = (case pb_registry b of None \<Rightarrow> Some [] | Some t \<Rightarrow> registry_entries_of t (pb_mmap b))"

section \<open>Sizes\<close>

definition index_heap_bytes :: "pair_table \<Rightarrow> u64" where
  "index_heap_bytes t = (case pt_index t of None \<Rightarrow> 0 | Some ix \<Rightarrow> word_of_nat (length (first_keys ix) * 8))"

definition member_tables :: "puffin_base \<Rightarrow> member_table list" where
  "member_tables b = (case pb_shared_members b of None \<Rightarrow> [] | Some t \<Rightarrow> [t]) @
     map (\<lambda>s. the (fmlookup (pb_overlay_members b) s)) (sorted_list_of_fset (fmdom (pb_overlay_members b)))"

definition filter_list :: "blocked_filter option list \<Rightarrow> blocked_filter list" where
  "filter_list fs = concat (map (\<lambda>f. case f of None \<Rightarrow> [] | Some f \<Rightarrow> [f]) fs)"

definition filter_sizes :: "blocked_filter option list \<Rightarrow> u64" where
  "filter_sizes fs = sum_list (map (\<lambda>f. word_of_nat (filter_heap_bytes f)) (filter_list fs))"

definition member_index_bytes :: "puffin_base \<Rightarrow> u64" where
  "member_index_bytes b =
     sum_list (map (\<lambda>t. word_of_nat (member_heap_bytes t)) (member_tables b)) +
     filter_sizes [pb_shared_members_filter b, pb_overlay_members_filter b]"

definition filter_bytes :: "puffin_base \<Rightarrow> u64" where
  "filter_bytes b =
     filter_sizes [pb_shared_filter b, pb_overlay_filter b, pb_shared_members_filter b, pb_overlay_members_filter b]"

definition table_index_bytes :: "puffin_base \<Rightarrow> u64" where
  "table_index_bytes b =
     sum_list (map index_heap_bytes (base_tables b)) +
     sum_list (map (\<lambda>t. word_of_nat (member_heap_bytes t)) (member_tables b)) +
     (case pb_registry b of None \<Rightarrow> 0 | Some r \<Rightarrow> word_of_nat (registry_heap_bytes r))"

definition pb_index_bytes :: "puffin_base \<Rightarrow> u64" where
  "pb_index_bytes b = table_index_bytes b + filter_bytes b"

definition pb_stats :: "puffin_base \<Rightarrow> base_stats" where
  "pb_stats b =
     \<lparr>bs_sequence = pb_sequence b, bs_shared_pairs = word_of_nat (shared_len b),
      bs_overlay_pairs = sum_list (map (\<lambda>s. word_of_nat (overlay_len b s)) (overlay_scopes b)),
      bs_scopes = word_of_nat (length (overlay_scopes b)), bs_mapped_bytes = word_of_nat (length (pb_mmap b)),
      bs_index_bytes = pb_index_bytes b, bs_registry_indexed = (pb_registry b \<noteq> None)\<rparr>"

end
