(* ===== verification/Puffin_Open.thy ===== *)
theory Puffin_Open
  imports Puffin_Base
begin

text \<open>
  What a base opened from a written file answers. The blobs of the file are loaded one group after
  the other; each group sets one part of the base and leaves the others alone. Lookups, sweeps, the
  registry and the member index then return exactly what was written, and no read of the mapping
  leaves its bounds.
\<close>

section \<open>The blobs of a file, loaded\<close>

text \<open>A table as it is right after parsing, and once its index has been built.\<close>

definition table_ready :: "pair_table \<Rightarrow> bytes \<Rightarrow> (node_id \<times> node_id) list \<Rightarrow> bool" where
  "table_ready t data ps \<longleftrightarrow> table_holds t data ps \<and> pt_start t + pt_count t * 16 \<le> length data"

definition table_parsed :: "pair_table \<Rightarrow> bytes \<Rightarrow> (node_id \<times> node_id) list \<Rightarrow> bool" where
  "table_parsed t data ps \<longleftrightarrow> table_ready t data ps \<and> pt_index t = None"

text \<open>A filter, or its absence, that never turns away one of the keys.\<close>

definition filter_admits :: "blocked_filter option \<Rightarrow> u64 set \<Rightarrow> bool" where
  "filter_admits f keys \<longleftrightarrow> (\<forall>k. \<exists>w. passes f k = Some w \<and> (k \<in> keys \<longrightarrow> w))"

lemma filter_admits_None [simp]: "filter_admits None keys"
  by (auto simp: filter_admits_def passes_def)

lemma filter_admits_built:
  assumes "build_with ks hint bits = Some f" and "keys \<subseteq> set ks"
  shows "filter_admits (Some f) keys"
  using assms build_with_ok [OF assms(1)] build_with_covers [OF assms(1)] may_contain_covers [of f]
  by (fastforce simp: filter_admits_def passes_def)

definition blob_fits :: "i64 \<Rightarrow> puffin_base \<Rightarrow> bool" where
  "blob_fits seq b \<longleftrightarrow> pb_sequence b = blob_sequence seq"

lemma build_blobs_append: "build_blobs (xs @ ys) b = and_then (build_blobs xs b) (build_blobs ys)"
proof (induction xs arbitrary: b)
  case (Cons i xs)
  then show ?case by (cases "build_blob i b") auto
qed simp

lemma build_global:
  assumes i: "placed data i (make_blob seq GLOBAL_BLOB_TYPE (counted pair_bytes ps) [])" and b: "pb_mmap b = data"
    and n: "length ps < 2 ^ 59"
  obtains t where "build_blob i b = Inr (b\<lparr>pb_shared := Some t, pb_sequence := max (pb_sequence b) (blob_sequence seq)\<rparr>)"
    and "table_parsed t data ps"
proof -
  let ?t = "\<lparr>pt_start = bi_offset i + 8, pt_count = length ps, pt_index = None\<rparr>"
  have sl: "slice data (bi_offset i) (bi_offset i + bi_length i) = Some (counted pair_bytes ps)"
    using i by (simp add: placed_def)
  have small: "8 + length ps * 16 < 2 ^ 64" using n by simp
  have "table_parsed ?t data ps"
    using pair_table_parse_counted(2) [OF sl small] sl slice_length [OF sl]
    by (auto simp: table_parsed_def table_ready_def slice_def length_counted [of pair_bytes 16] split: if_splits)
  moreover have "build_blob i b = Inr (b\<lparr>pb_shared := Some ?t, pb_sequence := max (pb_sequence b) (blob_sequence seq)\<rparr>)"
    using pair_table_parse_counted(1) [OF sl small] i b
    by (simp add: build_blob_def bi_range_def placed_def)
  ultimately show thesis using that by blast
qed

lemma build_scopes:
  assumes "list_all2 (placed data) index (map (scope_blob seq) gs)" and "pb_mmap b = data" and "blob_fits seq b"
    and "\<forall>g \<in> set gs. length (snd g) < 2 ^ 59" and "distinct (map fst gs)"
  shows "\<exists>ov. build_blobs index b = Inr (b\<lparr>pb_overlays := ov\<rparr>) \<and>
    (\<forall>s. case map_of gs s of
        None \<Rightarrow> fmlookup ov s = fmlookup (pb_overlays b) s
      | Some ps \<Rightarrow> \<exists>t. fmlookup ov s = Some t \<and> table_parsed t data ps)"
  using assms
proof (induction gs arbitrary: index b)
  case Nil
  then show ?case by (intro exI [of _ "pb_overlays b"]) simp
next
  case (Cons g gs)
  then obtain i index' where ix: "index = i # index'" "placed data i (scope_blob seq g)"
    "list_all2 (placed data) index' (map (scope_blob seq) gs)" by (auto simp: list_all2_Cons2)
  obtain s ps where g: "g = (s, ps)" by fastforce
  let ?t = "\<lparr>pt_start = bi_offset i + 8, pt_count = length ps, pt_index = None\<rparr>"
  have sl: "slice data (bi_offset i) (bi_offset i + bi_length i) = Some (counted pair_bytes ps)"
    using ix(2) by (simp add: placed_def scope_blob_def g)
  have small: "8 + length ps * 16 < 2 ^ 64" using Cons.prems(4) by (simp add: g)
  have t: "table_parsed ?t data ps"
    using pair_table_parse_counted(2) [OF sl small] sl slice_length [OF sl]
    by (auto simp: table_parsed_def table_ready_def slice_def length_counted [of pair_bytes 16] split: if_splits)
  let ?b = "b\<lparr>pb_overlays := fmupd s ?t (pb_overlays b)\<rparr>"
  have run1: "build_blob i b = Inr ?b"
    using pair_table_parse_counted(1) [OF sl small] ix(2) Cons.prems(2,3)
    by (simp add: build_blob_def bi_range_def placed_def scope_blob_def g blob_fits_def blob_scope_def scope_props_def
        SCOPE_BLOB_TYPE_def GLOBAL_BLOB_TYPE_def)
  obtain ov where run2: "build_blobs index' ?b = Inr (?b\<lparr>pb_overlays := ov\<rparr>)"
    and ov: "\<forall>r. case map_of gs r of None \<Rightarrow> fmlookup ov r = fmlookup (pb_overlays ?b) r
      | Some ps \<Rightarrow> \<exists>t. fmlookup ov r = Some t \<and> table_parsed t data ps"
    using Cons.IH [OF ix(3), of ?b] Cons.prems by (auto simp: blob_fits_def)
  have "map_of gs s = None" using Cons.prems(5) by (simp add: g map_of_eq_None_iff)
  then have all: "case map_of (g # gs) r of None \<Rightarrow> fmlookup ov r = fmlookup (pb_overlays b) r
      | Some ps \<Rightarrow> \<exists>t. fmlookup ov r = Some t \<and> table_parsed t data ps" for r
    using ov [rule_format, of r] t by (auto simp: g split: option.splits if_splits)
  have "build_blobs index b = Inr (b\<lparr>pb_overlays := ov\<rparr>)" using run1 run2 by (simp add: ix(1))
  with all show ?case by blast
qed

lemma build_registry:
  assumes "list_all2 (placed data) index (registry_blobs seq opts es)" and "pb_mmap b = data" and "blob_fits seq b"
    and es: "sorted_wrt (<) es" "length es < 2 ^ 59" and "length data < 2 ^ 64" and "pb_registry b = None"
  shows "\<exists>r. build_blobs index b = Inr (b\<lparr>pb_registry := r\<rparr>) \<and>
    (case r of None \<Rightarrow> es = [] | Some r \<Rightarrow> registry_means r data es)"
proof (cases "es = []")
  case True
  then have "registry_blobs seq opts es = []"
    by (simp add: registry_blobs_def encode_registry_def rw_finish_def rw_new_def rw_with_block_size_def)
  then show ?thesis using assms True by (intro exI [of _ None]) simp
next
  case False
  have new: "rw_new (wo_registry opts) = rw_with_block_size (wo_registry opts) BLOCK_BYTES" by (simp add: rw_new_def)
  have blk: "BLOCK_BYTES < 2 ^ 32" by (simp add: BLOCK_BYTES_def)
  obtain t payload where fin: "rw_finish (fold rw_push es (rw_with_block_size (wo_registry opts) BLOCK_BYTES)) = Some (t, payload)"
    using rw_finish_Some [OF es(1) False blk es(2)] by blast
  then have "registry_blobs seq opts es = [make_blob seq t payload []]"
    by (simp add: registry_blobs_def encode_registry_def new)
  with assms(1) obtain i where i: "index = [i]" "placed data i (make_blob seq t payload [])"
    by (auto simp: list_all2_Cons2)
  have sl: "slice data (bi_offset i) (bi_offset i + bi_length i) = Some payload" using i by (simp add: placed_def)
  then have "length payload \<le> length data" using slice_length [OF sl] by (auto simp: slice_def split: if_splits)
  then have fit: "length payload < 2 ^ 64" using assms(6) by simp
  obtain r where r: "registry_parse t data (bi_offset i) (bi_offset i + bi_length i) = Inr r" "registry_means r data es"
    using registry_payload_means [OF es(1) False blk es(2) fin sl fit] .
  have "t = FLAT_BLOB_TYPE \<or> t = BLOCKED_BLOB_TYPE" using rw_finish_type [OF fin] .
  then have "build_blob i b = Inr (b\<lparr>pb_registry := Some r\<rparr>)"
    using r(1) i(2) assms(2,3) by (auto simp: build_blob_def bi_range_def placed_def blob_fits_def blob_types)
  then show ?thesis using r(2) by (intro exI [of _ "Some r"]) (simp add: i(1))
qed

lemma child_pairs_sorted: "sorted (child_pairs ps)" and length_child_pairs: "length (child_pairs ps) \<le> length ps"
  by (simp_all add: child_pairs_def)

lemma member_blob_cases:
  assumes "list_all2 (placed data) index (member_blob seq enc tr properties ps)"
    and "length ps < 2 ^ 59" and "length data < 2 ^ 64"
  obtains (none) "child_pairs ps = []" and "index = []"
  | (some) i t m where "index = [i]" and "bi_type i = t" and "bi_properties i = properties" and "bi_sequence_number i = seq"
    and "member_parse t data (bi_offset i) (bi_offset i + bi_length i) = Inr m" and "children_mean m data (child_pairs ps)"
    and "t = (if enc = MemberFlat then fst (member_blob_types tr) else snd (member_blob_types tr))"
    and "child_pairs ps \<noteq> []"
proof (cases "child_pairs ps = []")
  case True
  then have "member_blob seq enc tr properties ps = []"
    by (simp add: member_blob_def member_payload_def mw_finish_def mw_new_def mw_with_block_size_def)
  then show ?thesis using none True assms(1) by simp
next
  case False
  have new: "mw_new enc tr = mw_with_block_size enc tr BLOCK_BYTES" by (simp add: mw_new_def)
  have blk: "BLOCK_BYTES < 2 ^ 32" by (simp add: BLOCK_BYTES_def)
  have n: "length (child_pairs ps) < 2 ^ 59" using length_child_pairs [of ps] assms(2) by simp
  obtain t payload where fin: "mw_finish (fold mw_push (child_pairs ps) (mw_with_block_size enc tr BLOCK_BYTES)) = Some (t, payload)"
    using mw_finish_iff [OF child_pairs_sorted blk n, of enc tr] False by auto
  then have "member_blob seq enc tr properties ps = [make_blob seq t payload properties]"
    by (simp add: member_blob_def member_payload_def new)
  with assms(1) obtain i where i: "index = [i]" "placed data i (make_blob seq t payload properties)"
    by (auto simp: list_all2_Cons2)
  have sl: "slice data (bi_offset i) (bi_offset i + bi_length i) = Some payload" using i by (simp add: placed_def)
  then have "length payload \<le> length data" using slice_length [OF sl] by (auto simp: slice_def split: if_splits)
  then have fit: "length payload < 2 ^ 64" using assms(3) by simp
  obtain m where "member_parse t data (bi_offset i) (bi_offset i + bi_length i) = Inr m" "children_mean m data (child_pairs ps)"
    "t = (if enc = MemberFlat then fst (member_blob_types tr) else snd (member_blob_types tr))"
    using member_payload_means [OF child_pairs_sorted False blk n fin sl fit] .
  then show ?thesis using some [OF i(1)] i(2) False by (simp add: placed_def)
qed

lemma build_shared_members:
  assumes ix: "list_all2 (placed data) index (member_blob seq enc Shared [] ps)" and b: "pb_mmap b = data" "blob_fits seq b"
    and n: "length ps < 2 ^ 59" "length data < 2 ^ 64" and "pb_shared_members b = None"
  shows "\<exists>m. build_blobs index b = Inr (b\<lparr>pb_shared_members := m\<rparr>) \<and>
    (case m of None \<Rightarrow> child_pairs ps = [] | Some m \<Rightarrow> children_mean m data (child_pairs ps) \<and> child_pairs ps \<noteq> [])"
proof (cases rule: member_blob_cases [OF ix n])
  case 1
  then show ?thesis using assms(6) by (intro exI [of _ None]) simp
next
  case (2 i t m)
  have "build_blob i b = Inr (b\<lparr>pb_shared_members := Some m\<rparr>)"
    using 2 b by (auto simp: build_blob_def bi_range_def blob_fits_def blob_types member_blob_types_def)
  then show ?thesis using 2 by (intro exI [of _ "Some m"]) simp
qed

lemma build_overlay_members:
  assumes "list_all2 (placed data) index (concat (map (\<lambda>(s, ps). member_blob seq enc Overlay (scope_props s) ps) gs))"
    and "pb_mmap b = data" "blob_fits seq b" and "\<forall>g \<in> set gs. length (snd g) < 2 ^ 59" and "length data < 2 ^ 64"
    and "distinct (map fst gs)" and "\<forall>s \<in> set (map fst gs). fmlookup (pb_overlay_members b) s = None"
  shows "\<exists>om. build_blobs index b = Inr (b\<lparr>pb_overlay_members := om\<rparr>) \<and>
    (\<forall>s. case map_of gs s of
        None \<Rightarrow> fmlookup om s = fmlookup (pb_overlay_members b) s
      | Some ps \<Rightarrow> (case fmlookup om s of
            None \<Rightarrow> child_pairs ps = []
          | Some m \<Rightarrow> children_mean m data (child_pairs ps)))"
  using assms
proof (induction gs arbitrary: index b)
  case Nil
  then show ?case by (intro exI [of _ "pb_overlay_members b"]) simp
next
  case (Cons g gs)
  obtain s ps where g: "g = (s, ps)" by fastforce
  from Cons.prems(1) obtain ix1 ix2 where ix: "index = ix1 @ ix2"
    "list_all2 (placed data) ix1 (member_blob seq enc Overlay (scope_props s) ps)"
    "list_all2 (placed data) ix2 (concat (map (\<lambda>(s, ps). member_blob seq enc Overlay (scope_props s) ps) gs))"
    by (auto simp: g list_all2_append2)
  have n: "length ps < 2 ^ 59" using Cons.prems(4) by (simp add: g)
  have "\<exists>om. build_blobs ix1 b = Inr (b\<lparr>pb_overlay_members := om\<rparr>) \<and> (\<forall>r. r \<noteq> s \<longrightarrow> fmlookup om r = fmlookup (pb_overlay_members b) r) \<and>
      (case fmlookup om s of None \<Rightarrow> child_pairs ps = [] | Some m \<Rightarrow> children_mean m data (child_pairs ps))"
  proof (cases rule: member_blob_cases [OF ix(2) n Cons.prems(5)])
    case 1
    then show ?thesis using Cons.prems(7) by (intro exI [of _ "pb_overlay_members b"]) (simp add: g)
  next
    case (2 i t m)
    have "build_blob i b = Inr (b\<lparr>pb_overlay_members := fmupd s m (pb_overlay_members b)\<rparr>)"
      using 2 Cons.prems(2,3)
      by (auto simp: build_blob_def bi_range_def blob_fits_def blob_types member_blob_types_def blob_scope_def scope_props_def)
    then show ?thesis using 2 by (intro exI [of _ "fmupd s m (pb_overlay_members b)"]) simp
  qed
  then obtain om where om: "build_blobs ix1 b = Inr (b\<lparr>pb_overlay_members := om\<rparr>)"
    "\<And>r. r \<noteq> s \<Longrightarrow> fmlookup om r = fmlookup (pb_overlay_members b) r"
    "case fmlookup om s of None \<Rightarrow> child_pairs ps = [] | Some m \<Rightarrow> children_mean m data (child_pairs ps)" by blast
  have new: "map_of gs s = None" "s \<notin> fst ` set gs" using Cons.prems(6) by (auto simp: g map_of_eq_None_iff)
  have free: "\<forall>r \<in> set (map fst gs). fmlookup om r = None"
  proof
    fix r assume r: "r \<in> set (map fst gs)"
    then have "r \<noteq> s" using new(2) by auto
    then show "fmlookup om r = None" using om(2) Cons.prems(7) r by auto
  qed
  let ?b = "b\<lparr>pb_overlay_members := om\<rparr>"
  have "\<exists>om'. build_blobs ix2 ?b = Inr (?b\<lparr>pb_overlay_members := om'\<rparr>) \<and>
    (\<forall>r. case map_of gs r of None \<Rightarrow> fmlookup om' r = fmlookup (pb_overlay_members ?b) r
      | Some ps \<Rightarrow> (case fmlookup om' r of None \<Rightarrow> child_pairs ps = [] | Some m \<Rightarrow> children_mean m data (child_pairs ps)))"
    by (rule Cons.IH [OF ix(3)]) (use Cons.prems free in \<open>auto simp: blob_fits_def\<close>)
  then obtain om' where om': "build_blobs ix2 ?b = Inr (?b\<lparr>pb_overlay_members := om'\<rparr>)"
    "\<forall>r. case map_of gs r of None \<Rightarrow> fmlookup om' r = fmlookup (pb_overlay_members ?b) r
      | Some ps \<Rightarrow> (case fmlookup om' r of None \<Rightarrow> child_pairs ps = [] | Some m \<Rightarrow> children_mean m data (child_pairs ps))"
    by blast
  have "case map_of (g # gs) r of None \<Rightarrow> fmlookup om' r = fmlookup (pb_overlay_members b) r
      | Some ps \<Rightarrow> (case fmlookup om' r of None \<Rightarrow> child_pairs ps = [] | Some m \<Rightarrow> children_mean m data (child_pairs ps))" for r
    using om'(2) [rule_format, of r] om(2) [of r] om(3) new by (cases "r = s") (simp_all add: g split: option.splits)
  moreover have "build_blobs index b = Inr (b\<lparr>pb_overlay_members := om'\<rparr>)"
    using om(1) om'(1) by (simp add: ix(1) build_blobs_append)
  ultimately show ?case by blast
qed

lemma placed_filter:
  assumes "placed data i (make_blob seq t (filter_encode f) [])" and ok: "filter_ok f" and n: "length data < 2 ^ 38"
  shows "blob_filter data i = Inr f" and "bi_type i = t" and "bi_sequence_number i = seq"
proof -
  have sl: "slice data (bi_offset i) (bi_offset i + bi_length i) = Some (filter_encode f)"
    using assms(1) by (simp add: placed_def)
  have "length (filter_encode f) \<le> length data"
    using slice_length [OF sl] sl by (auto simp: slice_def split: if_splits)
  moreover have "length (filter_encode f) = 8 + length (bf_blocks f) * 64"
    using ok length_filter_encode [of "bf_blocks f"]
    by (simp add: filter_encode_def filter_ok_def BLOCK_WORDS_def BLOCK_BITS_def block_bytes_def [abs_def])
  ultimately have "length (bf_blocks f) < 2 ^ 32" using n by simp
  then show "blob_filter data i = Inr f"
    using filter_decode_encode [OF ok] by (simp add: blob_filter_def sl)
  show "bi_type i = t" "bi_sequence_number i = seq" using assms(1) by (simp_all add: placed_def)
qed

lemma build_key_filters:
  assumes "list_all2 (placed data) index (filter_blobs seq (named_filters [(SHARED_FILTER_BLOB_TYPE, f1), (OVERLAY_FILTER_BLOB_TYPE, f2)]))"
    and "\<And>f. f1 = Some f \<Longrightarrow> filter_ok f" and "\<And>f. f2 = Some f \<Longrightarrow> filter_ok f"
    and "pb_mmap b = data" "blob_fits seq b" "length data < 2 ^ 38" "pb_shared_filter b = None" "pb_overlay_filter b = None"
  shows "build_blobs index b = Inr (b\<lparr>pb_shared_filter := f1, pb_overlay_filter := f2\<rparr>)"
  using assms
  by (cases f1; cases f2)
    (auto simp: named_filters_def filter_blobs_def list_all2_Cons2 placed_filter build_blob_def bi_range_def blob_fits_def blob_types)

lemma build_member_filters:
  assumes "list_all2 (placed data) index
      (filter_blobs seq (named_filters [(SHARED_MEMBERS_FILTER_BLOB_TYPE, f1), (OVERLAY_MEMBERS_FILTER_BLOB_TYPE, f2)]))"
    and "\<And>f. f1 = Some f \<Longrightarrow> filter_ok f" and "\<And>f. f2 = Some f \<Longrightarrow> filter_ok f"
    and "pb_mmap b = data" "blob_fits seq b" "length data < 2 ^ 38" "pb_shared_members_filter b = None" "pb_overlay_members_filter b = None"
  shows "build_blobs index b = Inr (b\<lparr>pb_shared_members_filter := f1, pb_overlay_members_filter := f2\<rparr>)"
  using assms
  by (cases f1; cases f2)
    (auto simp: named_filters_def filter_blobs_def list_all2_Cons2 placed_filter build_blob_def bi_range_def blob_fits_def blob_types)

section \<open>What a base holds\<close>

definition scope_keys :: "('s \<Rightarrow> 'k \<Rightarrow> u64) \<Rightarrow> ('a \<Rightarrow> 'k list) \<Rightarrow> ('s \<times> 'a) list \<Rightarrow> u64 set" where
  "scope_keys key ks scopes = {key s k |s k. \<exists>p. (s, p) \<in> set scopes \<and> k \<in> set (ks p)}"

definition members_held :: "puffin_base \<Rightarrow> forest_snapshot \<Rightarrow> bool" where
  "members_held b snap \<longleftrightarrow>
     (case pb_shared_members b of
        None \<Rightarrow> child_pairs (snap_global snap) = []
      | Some m \<Rightarrow> children_mean m (pb_mmap b) (child_pairs (snap_global snap)) \<and> child_pairs (snap_global snap) \<noteq> []) \<and>
     (\<forall>s. case map_of (snap_scopes snap) s of
        None \<Rightarrow> fmlookup (pb_overlay_members b) s = None
      | Some ps \<Rightarrow> (case fmlookup (pb_overlay_members b) s of
            None \<Rightarrow> child_pairs ps = []
          | Some m \<Rightarrow> children_mean m (pb_mmap b) (child_pairs ps))) \<and>
     filter_admits (pb_shared_members_filter b) (fst ` set (child_pairs (snap_global snap))) \<and>
     filter_admits (pb_overlay_members_filter b) (scope_keys overlay_key (\<lambda>ps. map fst (child_pairs ps)) (snap_scopes snap))"

definition base_holds :: "(pair_table \<Rightarrow> bytes \<Rightarrow> (node_id \<times> node_id) list \<Rightarrow> bool) \<Rightarrow> puffin_base \<Rightarrow> forest_snapshot \<Rightarrow>
    (node_id \<times> scope_id) list \<Rightarrow> bool \<Rightarrow> bool" where
  "base_holds table b snap es indexed \<longleftrightarrow>
     (\<exists>t. pb_shared b = Some t \<and> table t (pb_mmap b) (snap_global snap)) \<and>
     (\<forall>s. case map_of (snap_scopes snap) s of
        None \<Rightarrow> fmlookup (pb_overlays b) s = None
      | Some ps \<Rightarrow> \<exists>t. fmlookup (pb_overlays b) s = Some t \<and> table t (pb_mmap b) ps) \<and>
     (case pb_registry b of None \<Rightarrow> es = [] | Some r \<Rightarrow> registry_means r (pb_mmap b) es) \<and>
     filter_admits (pb_shared_filter b) (fst ` set (snap_global snap)) \<and>
     filter_admits (pb_overlay_filter b) (scope_keys overlay_key (map fst) (snap_scopes snap)) \<and>
     (if indexed then members_held b snap else pb_shared_members b = None \<and> pb_overlay_members b = fmempty)"

lemma member_filters_admit:
  assumes "\<forall>g \<in> set scopes. length (snd g) < 2 ^ 59" and "length ps < 2 ^ 59"
  shows "fst ` set (child_pairs ps) \<subseteq> set (case member_parents enc Shared ps of None \<Rightarrow> [] | Some p \<Rightarrow> p)"
    and "scope_keys overlay_key (\<lambda>ps. map fst (child_pairs ps)) scopes \<subseteq>
      set (concat (map (\<lambda>(s, p). map (overlay_key s) p) (scope_tables enc scopes)))"
proof -
  have p: "(case member_parents enc tr qs of None \<Rightarrow> child_pairs qs = [] | Some p \<Rightarrow> p = remdups_adj (map fst (child_pairs qs)))"
    if "length qs < 2 ^ 59" for tr qs
  proof -
    have n: "length (child_pairs qs) < 2 ^ 59" using length_child_pairs [of qs] that by simp
    have "BLOCK_BYTES < 2 ^ 32" by (simp add: BLOCK_BYTES_def)
    from mw_finish_iff [OF child_pairs_sorted this n, of enc tr] show ?thesis
      by (auto simp: member_parents_def member_payload_def mw_new_def split: option.splits)
  qed
  have keyed: "(s, p) \<in> set xs \<Longrightarrow> k \<in> set p \<Longrightarrow> overlay_key s k \<in> set (concat (map (\<lambda>(s, p). map (overlay_key s) p) xs))"
    for s p xs k by force
  show "fst ` set (child_pairs ps) \<subseteq> set (case member_parents enc Shared ps of None \<Rightarrow> [] | Some p \<Rightarrow> p)"
    using p [OF assms(2), of Shared] by (auto split: option.splits)
  show "scope_keys overlay_key (\<lambda>ps. map fst (child_pairs ps)) scopes \<subseteq>
      set (concat (map (\<lambda>(s, p). map (overlay_key s) p) (scope_tables enc scopes)))"
  proof
    fix x assume "x \<in> scope_keys overlay_key (\<lambda>ps. map fst (child_pairs ps)) scopes"
    then obtain s k qs where x: "x = overlay_key s k" "(s, qs) \<in> set scopes" "k \<in> fst ` set (child_pairs qs)"
      by (auto simp: scope_keys_def)
    then have "length qs < 2 ^ 59" using assms(1) by auto
    from p [OF this, of Overlay] x(3) have m: "member_parents enc Overlay qs = Some (remdups_adj (map fst (child_pairs qs)))"
      by (auto split: option.splits)
    then have "(s, remdups_adj (map fst (child_pairs qs))) \<in> set (scope_tables enc scopes)"
      using x(2) by (auto intro!: bexI [of _ "(s, qs)"])
    then show "x \<in> set (concat (map (\<lambda>(s, p). map (overlay_key s) p) (scope_tables enc scopes)))"
      using keyed [of s "remdups_adj (map fst (child_pairs qs))" "scope_tables enc scopes" k] x(1,3) by simp
  qed
qed

lemma build_index:
  assumes ix: "list_all2 (placed data) index (index_blobs seq opts snap)"
    and b: "pb_mmap b = data" "blob_fits seq b" "pb_shared_members b = None" "pb_overlay_members b = fmempty"
      "pb_shared_members_filter b = None" "pb_overlay_members_filter b = None"
    and ok: "snapshot_ok snap" "distinct (map fst (snap_scopes snap))" and n: "length data < 2 ^ 38"
  shows "\<exists>m om f1 f2. build_blobs index b = Inr (b\<lparr>pb_shared_members := m, pb_overlay_members := om,
      pb_shared_members_filter := f1, pb_overlay_members_filter := f2\<rparr>) \<and>
    members_held (b\<lparr>pb_shared_members := m, pb_overlay_members := om,
      pb_shared_members_filter := f1, pb_overlay_members_filter := f2\<rparr>) snap"
proof -
  let ?enc = "wo_members opts" and ?g = "snap_global snap" and ?scopes = "snap_scopes snap"
  let ?sp = "case member_parents ?enc Shared ?g of None \<Rightarrow> [] | Some p \<Rightarrow> p"
  let ?keys = "concat (map (\<lambda>(s, p). map (overlay_key s) p) (scope_tables ?enc ?scopes))"
  let ?f1 = "build_with ?sp (length ?sp) (filter_bits opts)"
  let ?f2 = "build_with ?keys (sum_list (map (\<lambda>(_, p). length p) (scope_tables ?enc ?scopes))) (filter_bits opts)"
  have small: "length ?g < 2 ^ 59" "\<forall>g \<in> set ?scopes. length (snd g) < 2 ^ 59" "length data < 2 ^ 64"
    using ok(1) n by (auto simp: snapshot_ok_def)
  obtain ix1 ix2 ix3 where ixs: "index = ix1 @ ix2 @ ix3"
    and 1: "list_all2 (placed data) ix1 (member_blob seq ?enc Shared [] ?g)"
    and 2: "list_all2 (placed data) ix2 (concat (map (\<lambda>(s, ps). member_blob seq ?enc Overlay (scope_props s) ps) ?scopes))"
    and 3: "list_all2 (placed data) ix3 (filter_blobs seq (named_filters
        [(SHARED_MEMBERS_FILTER_BLOB_TYPE, ?f1), (OVERLAY_MEMBERS_FILTER_BLOB_TYPE, ?f2)]))"
    using ix unfolding index_blobs_def member_filters_def list_all2_append2 by blast
  obtain m where m: "build_blobs ix1 b = Inr (b\<lparr>pb_shared_members := m\<rparr>)"
    "case m of None \<Rightarrow> child_pairs ?g = [] | Some m \<Rightarrow> children_mean m data (child_pairs ?g) \<and> child_pairs ?g \<noteq> []"
    using build_shared_members [OF 1 b(1,2) small(1,3) b(3)] by blast
  let ?b1 = "b\<lparr>pb_shared_members := m\<rparr>"
  have "\<exists>om. build_blobs ix2 ?b1 = Inr (?b1\<lparr>pb_overlay_members := om\<rparr>) \<and>
    (\<forall>s. case map_of ?scopes s of None \<Rightarrow> fmlookup om s = fmlookup (pb_overlay_members ?b1) s
      | Some ps \<Rightarrow> (case fmlookup om s of None \<Rightarrow> child_pairs ps = [] | Some m \<Rightarrow> children_mean m data (child_pairs ps)))"
    by (rule build_overlay_members [OF 2]) (use b small ok(2) in \<open>auto simp: blob_fits_def\<close>)
  then obtain om where om: "build_blobs ix2 ?b1 = Inr (?b1\<lparr>pb_overlay_members := om\<rparr>)"
    "\<And>s. case map_of ?scopes s of None \<Rightarrow> fmlookup om s = fmlookup (pb_overlay_members ?b1) s
      | Some ps \<Rightarrow> (case fmlookup om s of None \<Rightarrow> child_pairs ps = [] | Some m \<Rightarrow> children_mean m data (child_pairs ps))"
    by blast
  have om': "case map_of ?scopes s of None \<Rightarrow> fmlookup om s = None
      | Some ps \<Rightarrow> (case fmlookup om s of None \<Rightarrow> child_pairs ps = [] | Some m \<Rightarrow> children_mean m data (child_pairs ps))" for s
    using om(2) [of s] b(4) by (simp split: option.splits)
  let ?b2 = "?b1\<lparr>pb_overlay_members := om\<rparr>"
  have f: "build_blobs ix3 ?b2 = Inr (?b2\<lparr>pb_shared_members_filter := ?f1, pb_overlay_members_filter := ?f2\<rparr>)"
    using b n build_with_ok by (intro build_member_filters [OF 3]) (auto simp: blob_fits_def)
  have "filter_admits ?f1 (fst ` set (child_pairs ?g))"
    using filter_admits_built [OF _ member_filters_admit(1) [OF small(2,1), of ?enc]] by (cases ?f1) auto
  moreover have "filter_admits ?f2 (scope_keys overlay_key (\<lambda>ps. map fst (child_pairs ps)) ?scopes)"
    using filter_admits_built [OF _ member_filters_admit(2) [OF small(2,1), of ?enc]] by (cases ?f2) auto
  ultimately have "members_held (?b2\<lparr>pb_shared_members_filter := ?f1, pb_overlay_members_filter := ?f2\<rparr>) snap"
    using m(2) om' b(1) by (simp add: members_held_def cong: option.case_cong)
  moreover have "build_blobs index b = Inr (?b2\<lparr>pb_shared_members_filter := ?f1, pb_overlay_members_filter := ?f2\<rparr>)"
    using m(1) om(1) f by (simp add: ixs build_blobs_append)
  ultimately show ?thesis by blast
qed

text \<open>A snapshot and registry that a file can carry.\<close>

definition file_ok :: "forest_snapshot \<Rightarrow> (node_id \<times> scope_id) list \<Rightarrow> bool" where
  "file_ok snap es \<longleftrightarrow> snapshot_ok snap \<and> distinct (map fst (snap_scopes snap)) \<and> sorted_wrt (<) es \<and> length es < 2 ^ 59"

lemma key_filters_admit:
  "filter_admits (build_with (map fst ps) hint bits) (fst ` set ps)"
  "filter_admits (build_with (concat (map (\<lambda>(s, pairs). map (\<lambda>(k, _). overlay_key s k) pairs) scopes)) hint bits)
     (scope_keys overlay_key (map fst) scopes)"
proof -
  show "filter_admits (build_with (map fst ps) hint bits) (fst ` set ps)"
    using filter_admits_built by (cases "build_with (map fst ps) hint bits") auto
  let ?ks = "concat (map (\<lambda>(s, pairs). map (\<lambda>(k, _). overlay_key s k) pairs) scopes)"
  have "scope_keys overlay_key (map fst) scopes \<subseteq> set ?ks"
    by (force simp: scope_keys_def)
  then show "filter_admits (build_with ?ks hint bits) (scope_keys overlay_key (map fst) scopes)"
    using filter_admits_built by (cases "build_with ?ks hint bits") auto
qed

lemma load_tables:
  assumes ix: "list_all2 (placed data) index (table_blobs seq opts snap es)" and ok: "file_ok snap es" and n: "length data < 2 ^ 38"
  shows "\<exists>t ov r f1 f2. build_blobs index (empty_base data reader) = Inr ((empty_base data reader)\<lparr>pb_shared := Some t,
      pb_overlays := ov, pb_registry := r, pb_shared_filter := f1, pb_overlay_filter := f2, pb_sequence := blob_sequence seq\<rparr>) \<and>
    base_holds table_parsed ((empty_base data reader)\<lparr>pb_shared := Some t, pb_overlays := ov, pb_registry := r,
      pb_shared_filter := f1, pb_overlay_filter := f2, pb_sequence := blob_sequence seq\<rparr>) snap es False"
proof -
  let ?e = "empty_base data reader" and ?q = "blob_sequence seq"
  let ?f1 = "build_with (map fst (snap_global snap)) (length (snap_global snap)) (filter_bits opts)"
  let ?f2 = "build_with (concat (map (\<lambda>(s, pairs). map (\<lambda>(k, _). overlay_key s k) pairs) (snap_scopes snap)))
         (sum_list (map (\<lambda>(_, p). length p) (snap_scopes snap))) (filter_bits opts)"
  have small: "length (snap_global snap) < 2 ^ 59" "\<forall>g \<in> set (snap_scopes snap). length (snd g) < 2 ^ 59" "length data < 2 ^ 64"
    using ok n by (auto simp: file_ok_def snapshot_ok_def)
  have good: "distinct (map fst (snap_scopes snap))" "sorted_wrt (<) es" "length es < 2 ^ 59"
    using ok by (simp_all add: file_ok_def)
  obtain i ix1 ix2 ix3 where ixs: "index = i # ix1 @ ix2 @ ix3"
    and 0: "placed data i (make_blob seq GLOBAL_BLOB_TYPE (counted pair_bytes (snap_global snap)) [])"
    and 1: "list_all2 (placed data) ix1 (map (scope_blob seq) (snap_scopes snap))"
    and 2: "list_all2 (placed data) ix2 (registry_blobs seq opts es)"
    and 3: "list_all2 (placed data) ix3 (filter_blobs seq (named_filters
        [(SHARED_FILTER_BLOB_TYPE, ?f1), (OVERLAY_FILTER_BLOB_TYPE, ?f2)]))"
    using ix unfolding table_blobs_def key_filters_def list_all2_Cons2 list_all2_append2 by blast
  obtain t where t: "build_blob i ?e = Inr (?e\<lparr>pb_shared := Some t, pb_sequence := ?q\<rparr>)" "table_parsed t data (snap_global snap)"
    using build_global [OF 0 _ small(1), of ?e] by (auto simp: empty_base_def max_def)
  let ?b = "?e\<lparr>pb_shared := Some t, pb_sequence := ?q\<rparr>"
  have fits: "pb_mmap ?b = data" "blob_fits seq ?b" by (simp_all add: empty_base_def blob_fits_def)
  obtain ov where ov: "build_blobs ix1 ?b = Inr (?b\<lparr>pb_overlays := ov\<rparr>)"
    "\<And>s. case map_of (snap_scopes snap) s of None \<Rightarrow> fmlookup ov s = fmlookup (pb_overlays ?b) s
      | Some ps \<Rightarrow> \<exists>t. fmlookup ov s = Some t \<and> table_parsed t data ps"
    using build_scopes [OF 1 fits small(2) good(1)] by blast
  let ?b1 = "?b\<lparr>pb_overlays := ov\<rparr>"
  have fits1: "pb_mmap ?b1 = data" "blob_fits seq ?b1" using fits by (simp_all add: blob_fits_def)
  obtain r where r: "build_blobs ix2 ?b1 = Inr (?b1\<lparr>pb_registry := r\<rparr>)" "case r of None \<Rightarrow> es = [] | Some r \<Rightarrow> registry_means r data es"
    using build_registry [OF 2 fits1 good(2,3) small(3)] by (auto simp: empty_base_def)
  let ?b2 = "?b1\<lparr>pb_registry := r\<rparr>"
  have f: "build_blobs ix3 ?b2 = Inr (?b2\<lparr>pb_shared_filter := ?f1, pb_overlay_filter := ?f2\<rparr>)"
    using n build_with_ok by (intro build_key_filters [OF 3]) (auto simp: blob_fits_def empty_base_def)
  have "case map_of (snap_scopes snap) s of None \<Rightarrow> fmlookup ov s = None
      | Some ps \<Rightarrow> \<exists>t. fmlookup ov s = Some t \<and> table_parsed t data ps" for s
    using ov(2) [of s] by (simp add: empty_base_def split: option.splits)
  then have "base_holds table_parsed (?b2\<lparr>pb_shared_filter := ?f1, pb_overlay_filter := ?f2\<rparr>) snap es False"
    using t(2) r(2) by (simp add: base_holds_def empty_base_def key_filters_admit cong: option.case_cong)
  moreover have "build_blobs index ?e = Inr (?b2\<lparr>pb_shared_filter := ?f1, pb_overlay_filter := ?f2\<rparr>)"
    using t(1) ov(1) r(1) f by (simp add: ixs build_blobs_append)
  ultimately show ?thesis by (auto simp: empty_base_def)
qed

lemma load_file:
  assumes ix: "list_all2 (placed data) index (file_blobs seq opts snap es)" and ok: "file_ok snap es" and n: "length data < 2 ^ 38"
  obtains b where "build_blobs index (empty_base data reader) = Inr b"
    and "base_holds table_parsed b snap es (wo_member_index opts)"
    and "pb_mmap b = data" "pb_reader b = reader" "pb_sequence b = blob_sequence seq" "pb_fallback b = None"
proof -
  let ?rest = "if wo_member_index opts then index_blobs seq opts snap else []"
  obtain ix1 ix2 where ixs: "index = ix1 @ ix2" "list_all2 (placed data) ix1 (table_blobs seq opts snap es)"
    "list_all2 (placed data) ix2 ?rest"
    using ix unfolding file_blobs_def list_all2_append2 by blast
  obtain t ov r f1 f2 where b: "build_blobs ix1 (empty_base data reader) = Inr ((empty_base data reader)\<lparr>pb_shared := Some t,
      pb_overlays := ov, pb_registry := r, pb_shared_filter := f1, pb_overlay_filter := f2, pb_sequence := blob_sequence seq\<rparr>)"
    "base_holds table_parsed ((empty_base data reader)\<lparr>pb_shared := Some t, pb_overlays := ov, pb_registry := r,
      pb_shared_filter := f1, pb_overlay_filter := f2, pb_sequence := blob_sequence seq\<rparr>) snap es False"
    using load_tables [OF ixs(2) ok n] by blast
  let ?b = "(empty_base data reader)\<lparr>pb_shared := Some t, pb_overlays := ov, pb_registry := r, pb_shared_filter := f1,
      pb_overlay_filter := f2, pb_sequence := blob_sequence seq\<rparr>"
  show thesis
  proof (cases "wo_member_index opts")
    case False
    then show thesis using that [of ?b] b ixs by (simp add: build_blobs_append empty_base_def)
  next
    case True
    obtain m om g1 g2 where "build_blobs ix2 ?b = Inr (?b\<lparr>pb_shared_members := m, pb_overlay_members := om,
        pb_shared_members_filter := g1, pb_overlay_members_filter := g2\<rparr>)"
      and "members_held (?b\<lparr>pb_shared_members := m, pb_overlay_members := om,
        pb_shared_members_filter := g1, pb_overlay_members_filter := g2\<rparr>) snap"
      using build_index [of data ix2 seq opts snap ?b] ixs(3) ok n True
      by (fastforce simp: file_ok_def empty_base_def blob_fits_def)
    then show thesis
      using that [of "?b\<lparr>pb_shared_members := m, pb_overlay_members := om, pb_shared_members_filter := g1,
        pb_overlay_members_filter := g2\<rparr>"] b ixs(1) True
      by (simp add: build_blobs_append base_holds_def empty_base_def cong: option.case_cong)
  qed
qed

section \<open>Building the indexes keeps the tables\<close>

lemma indexed_table_ready:
  assumes "table_parsed t data ps" and "sparse_build (pt_count t) PAIR_STRIDE (key_at t data) = Some ix"
  shows "table_ready (t\<lparr>pt_index := ix\<rparr>) data ps"
proof -
  have rd: "reads_as (key_at t data) (value_at t data) (pt_count t) ps" and fit: "pt_start t + pt_count t * 16 \<le> length data"
    using assms(1) by (simp_all add: table_parsed_def table_ready_def table_holds_def)
  have n: "pt_count t = length (map fst ps)" using reads_asD(1) [OF rd] by simp
  obtain ix' where "sparse_build (length (map fst ps)) PAIR_STRIDE (key_at t data) = Some ix'"
    "\<And>i. ix' = Some i \<Longrightarrow> index_over (map fst ps) i"
    by (rule sparse_build_spec [of "map fst ps" "key_at t data" PAIR_STRIDE])
      (use rd in \<open>auto simp: reads_as_def PAIR_STRIDE_def PAGE_BYTES_def\<close>)
  then have "\<And>i. ix = Some i \<Longrightarrow> index_over (map fst ps) i" using assms(2) n by simp
  moreover have "key_at (t\<lparr>pt_index := ix\<rparr>) data = key_at t data" "value_at (t\<lparr>pt_index := ix\<rparr>) data = value_at t data"
    by (simp_all add: key_at_def [abs_def] value_at_def [abs_def])
  ultimately show ?thesis using rd fit by (simp add: table_ready_def table_holds_def)
qed

lemma overlay_scopes_spec:
  "set (overlay_scopes b) = dom (fmlookup (pb_overlays b))" "distinct (overlay_scopes b)" "sorted_wrt (<) (overlay_scopes b)"
  unfolding overlay_scopes_def by (rule sorted_keys)+

lemma members_held_tables: "members_held (b\<lparr>pb_shared := x, pb_overlays := y\<rparr>) snap = members_held b snap"
  by (simp add: members_held_def cong: option.case_cong)

lemma index_built_tables:
  assumes h: "base_holds table_parsed b snap es indexed"
  obtains t ov where "and_then (build_indexes (pb_mmap b) (base_tables b)) (\<lambda>tables. Inr (with_tables b tables)) =
      Inr (b\<lparr>pb_shared := Some t, pb_overlays := ov\<rparr>)"
    and "base_holds table_ready (b\<lparr>pb_shared := Some t, pb_overlays := ov\<rparr>) snap es indexed"
    and "dom (fmlookup ov) = dom (fmlookup (pb_overlays b))"
proof -
  let ?data = "pb_mmap b" and ?scopes = "overlay_scopes b"
  obtain t where t: "pb_shared b = Some t" "table_parsed t ?data (snap_global snap)" using h by (auto simp: base_holds_def)
  have ov: "case map_of (snap_scopes snap) s of None \<Rightarrow> fmlookup (pb_overlays b) s = None
      | Some ps \<Rightarrow> \<exists>t. fmlookup (pb_overlays b) s = Some t \<and> table_parsed t ?data ps" for s
    using h by (simp add: base_holds_def)
  have parsed: "\<exists>ps. table_parsed u ?data ps" if "fmlookup (pb_overlays b) s = Some u" for s u
    using ov [of s] that by (auto split: option.splits)
  have all: "\<forall>u \<in> set (base_tables b). pt_start u + pt_count u * 16 \<le> length ?data \<and> pt_index u = None"
    using t parsed by (force simp: base_tables_def overlay_scopes_spec(1) table_parsed_def table_ready_def)
  let ?rel = "\<lambda>t t'. \<exists>ix. sparse_build (pt_count t) PAIR_STRIDE (key_at t ?data) = Some ix \<and> t' = t\<lparr>pt_index := ix\<rparr>"
  obtain tables where run: "build_indexes ?data (base_tables b) = Inr tables" and rel: "list_all2 ?rel (base_tables b) tables"
    using build_indexes_spec [OF all] by blast
  then obtain t' us where tables: "tables = t' # us" "?rel t t'"
    and us: "list_all2 ?rel (map (\<lambda>s. the (fmlookup (pb_overlays b) s)) ?scopes) us"
    by (auto simp: base_tables_def t(1) list_all2_Cons1)
  let ?ov = "fmap_of_list (zip ?scopes us)"
  have len: "length us = length ?scopes" using list_all2_lengthD [OF us] by simp
  have look: "?rel u (the (fmlookup ?ov s)) \<and> fmlookup ?ov s \<noteq> None" if s: "fmlookup (pb_overlays b) s = Some u" for s u
  proof -
    have "s \<in> set ?scopes" using s by (auto simp: overlay_scopes_spec(1))
    then obtain i where i: "i < length ?scopes" "?scopes ! i = s" by (auto simp: in_set_conv_nth)
    then have "fmlookup ?ov s = Some (us ! i)"
      using map_of_zip_nth [OF len [symmetric] overlay_scopes_spec(2), of i] len by (simp add: fmlookup_of_list)
    then show ?thesis using list_all2_nthD2 [OF us, of i] i len s by simp
  qed
  have none: "fmlookup ?ov s = None" if "fmlookup (pb_overlays b) s = None" for s
    using that len overlay_scopes_spec(1) [of b] by (simp add: fmlookup_of_list map_of_zip_is_None domIff)
  have "case map_of (snap_scopes snap) s of None \<Rightarrow> fmlookup ?ov s = None
      | Some ps \<Rightarrow> \<exists>t. fmlookup ?ov s = Some t \<and> table_ready t ?data ps" for s
    using ov [of s] look [of s] none [of s] indexed_table_ready [of _ ?data] by (fastforce split: option.splits)
  moreover have "table_ready t' ?data (snap_global snap)" using indexed_table_ready [OF t(2)] tables(2) by blast
  ultimately have "base_holds table_ready (b\<lparr>pb_shared := Some t', pb_overlays := ?ov\<rparr>) snap es indexed"
    using h members_held_tables by (simp add: base_holds_def cong: option.case_cong)
  moreover have "dom (fmlookup ?ov) = dom (fmlookup (pb_overlays b))" using look none by (fastforce simp: dom_def)
  moreover have "with_tables b tables = b\<lparr>pb_shared := Some t', pb_overlays := ?ov\<rparr>"
    by (simp add: with_tables_def tables(1) t(1))
  ultimately show thesis using that run by simp
qed

section \<open>Answers\<close>

lemma table_ready_scan:
  assumes "table_ready t data ps" and "length data < 2 ^ 64" and "reopened = None \<or> reopened = Some data"
  shows "scan reader reopened data t = Some ps"
proof -
  have "pt_start t + pt_count t * 16 \<le> length data" and "pt_count t * 16 < 2 ^ 64"
    using assms(1,2) by (auto simp: table_ready_def)
  then show ?thesis
    using scan_table [OF _ _ assms(3)] table_for_each_spec assms(1) by (simp add: table_ready_def)
qed

lemma filtered_lookup:
  assumes "filter_admits f keys" and "table_ready t data ps" and "sorted_wrt (<) (map fst ps)" and "\<And>r. map_of ps k = Some r \<Longrightarrow> key \<in> keys"
  shows "do { worth \<leftarrow> passes f key; if \<not> worth then Some None else table_lookup t data k } = Some (map_of ps k)"
proof -
  obtain w where w: "passes f key = Some w" "key \<in> keys \<longrightarrow> w" using assms(1) by (auto simp: filter_admits_def)
  have "table_lookup t data k = Some (map_of ps k)" using assms(2,3) by (intro table_lookup_spec) (simp_all add: table_ready_def)
  with w assms(4) show ?thesis by (cases "map_of ps k") auto
qed

lemma filtered_children:
  assumes "filter_admits f keys" and "children_mean m data ps" and "parent \<in> fst ` set ps \<Longrightarrow> key \<in> keys"
  shows "do { worth \<leftarrow> passes f key; if \<not> worth then Some out else table_children_of m data parent limit out } =
    Some (out @ take limit (map snd (filter (\<lambda>p. fst p = parent) ps)))"
proof -
  obtain w where w: "passes f key = Some w" "key \<in> keys \<longrightarrow> w" using assms(1) by (auto simp: filter_admits_def)
  have "filter (\<lambda>p. fst p = parent) ps = []" if "\<not> w" using w(2) that assms(3) by (force simp: filter_empty_conv)
  with w assms(2) show ?thesis by (simp add: children_mean_def)
qed

definition scope_pairs :: "forest_snapshot \<Rightarrow> scope_id \<Rightarrow> (node_id \<times> node_id) list" where
  "scope_pairs snap s = (case map_of (snap_scopes snap) s of None \<Rightarrow> [] | Some ps \<Rightarrow> ps)"

definition children_in :: "(node_id \<times> node_id) list \<Rightarrow> node_id \<Rightarrow> node_id list" where
  "children_in ps parent = map snd (filter (\<lambda>p. fst p = parent) (child_pairs ps))"

text \<open>A base that returns, on every query and without a panic, what a snapshot and a registry say.\<close>

definition answers :: "puffin_base \<Rightarrow> forest_snapshot \<Rightarrow> (node_id \<times> scope_id) list \<Rightarrow> bool" where
  "answers b snap es \<longleftrightarrow>
     (\<forall>n. pb_shared_parent b n = Some (map_of (snap_global snap) n)) \<and>
     (\<forall>s n. pb_overlay_parent b s n = Some (map_of (scope_pairs snap s) n)) \<and>
     (\<forall>reopened. reopened = None \<or> reopened = Some (pb_mmap b) \<longrightarrow>
        pb_for_each_shared_pair reopened b = Some (snap_global snap) \<and>
        (\<forall>s. pb_for_each_overlay_pair reopened b s = Some (scope_pairs snap s))) \<and>
     overlay_scopes b = map fst (snap_scopes snap) \<and>
     (\<forall>r. pb_scopes_for_root b r = Some (map snd (filter (\<lambda>e. fst e = r) es))) \<and> registry_iter b = Some es"

definition answers_members :: "puffin_base \<Rightarrow> forest_snapshot \<Rightarrow> bool" where
  "answers_members b snap \<longleftrightarrow>
     (pb_has_member_index b \<longleftrightarrow> child_pairs (snap_global snap) \<noteq> []) \<and>
     (\<forall>p limit out. pb_shared_children b p limit out = Some (out @ take limit (children_in (snap_global snap) p))) \<and>
     (\<forall>s p limit out. pb_overlay_children b s p limit out = Some (out @ take limit (children_in (scope_pairs snap s) p)))"

lemma base_holds_overlay:
  assumes "base_holds table b snap es indexed"
  shows "fmlookup (pb_overlays b) s = None \<Longrightarrow> map_of (snap_scopes snap) s = None"
    and "fmlookup (pb_overlays b) s = Some t \<Longrightarrow> \<exists>ps. map_of (snap_scopes snap) s = Some ps \<and> table t (pb_mmap b) ps"
proof -
  have "case map_of (snap_scopes snap) s of None \<Rightarrow> fmlookup (pb_overlays b) s = None
      | Some ps \<Rightarrow> \<exists>t. fmlookup (pb_overlays b) s = Some t \<and> table t (pb_mmap b) ps"
    using assms by (simp add: base_holds_def)
  then show "fmlookup (pb_overlays b) s = None \<Longrightarrow> map_of (snap_scopes snap) s = None"
    and "fmlookup (pb_overlays b) s = Some t \<Longrightarrow> \<exists>ps. map_of (snap_scopes snap) s = Some ps \<and> table t (pb_mmap b) ps"
    by (auto split: option.splits)
qed

lemma base_holds_parents:
  assumes h: "base_holds table_ready b snap es indexed" and ok: "snapshot_ok snap"
  shows "pb_shared_parent b n = Some (map_of (snap_global snap) n)"
    and "pb_overlay_parent b s n = Some (map_of (scope_pairs snap s) n)"
proof -
  obtain t where t: "pb_shared b = Some t" "table_ready t (pb_mmap b) (snap_global snap)" using h by (auto simp: base_holds_def)
  have f: "filter_admits (pb_shared_filter b) (fst ` set (snap_global snap))"
    "filter_admits (pb_overlay_filter b) (scope_keys overlay_key (map fst) (snap_scopes snap))"
    using h by (simp_all add: base_holds_def)
  have "sorted_wrt (<) (map fst (snap_global snap))" using ok by (simp add: snapshot_ok_def)
  moreover have "map_of (snap_global snap) n = Some r \<Longrightarrow> n \<in> fst ` set (snap_global snap)" for r
    using map_of_SomeD [of "snap_global snap" n r] by force
  ultimately show "pb_shared_parent b n = Some (map_of (snap_global snap) n)"
    using filtered_lookup [OF f(1) t(2), of n n] by (simp add: pb_shared_parent_def t(1) cong: if_cong)
  obtain w where w: "passes (pb_overlay_filter b) (overlay_key s n) = Some w" using f(2) by (auto simp: filter_admits_def)
  show "pb_overlay_parent b s n = Some (map_of (scope_pairs snap s) n)"
  proof (cases "fmlookup (pb_overlays b) s")
    case None
    then show ?thesis using base_holds_overlay(1) [OF h None] w by (simp add: pb_overlay_parent_def scope_pairs_def)
  next
    case (Some u)
    then obtain ps where ps: "map_of (snap_scopes snap) s = Some ps" "table_ready u (pb_mmap b) ps"
      using base_holds_overlay(2) [OF h Some] by blast
    have mem: "(s, ps) \<in> set (snap_scopes snap)" using ps(1) by (rule map_of_SomeD)
    then have "sorted_wrt (<) (map fst ps)" using ok by (auto simp: snapshot_ok_def)
    moreover have "map_of ps n = Some r \<Longrightarrow> overlay_key s n \<in> scope_keys overlay_key (map fst) (snap_scopes snap)" for r
      using mem map_of_SomeD [of ps n r] by (force simp: scope_keys_def)
    ultimately show ?thesis
      using filtered_lookup [OF f(2) ps(2), of n "overlay_key s n"] w by (simp add: pb_overlay_parent_def Some scope_pairs_def ps(1) cong: if_cong)
  qed
qed

lemma base_holds_scans:
  assumes h: "base_holds table_ready b snap es indexed" and n: "length (pb_mmap b) < 2 ^ 64"
    and r: "reopened = None \<or> reopened = Some (pb_mmap b)"
  shows "pb_for_each_shared_pair reopened b = Some (snap_global snap)"
    and "pb_for_each_overlay_pair reopened b s = Some (scope_pairs snap s)"
proof -
  obtain t where t: "pb_shared b = Some t" "table_ready t (pb_mmap b) (snap_global snap)" using h by (auto simp: base_holds_def)
  show "pb_for_each_shared_pair reopened b = Some (snap_global snap)"
    using table_ready_scan [OF t(2) n r] by (simp add: pb_for_each_shared_pair_def t(1))
  show "pb_for_each_overlay_pair reopened b s = Some (scope_pairs snap s)"
  proof (cases "fmlookup (pb_overlays b) s")
    case None
    then show ?thesis using base_holds_overlay(1) [OF h None] by (simp add: pb_for_each_overlay_pair_def scope_pairs_def)
  next
    case (Some u)
    then obtain ps where ps: "map_of (snap_scopes snap) s = Some ps" "table_ready u (pb_mmap b) ps"
      using base_holds_overlay(2) [OF h Some] by blast
    then show ?thesis
      using table_ready_scan [OF ps(2) n r] by (simp add: pb_for_each_overlay_pair_def Some scope_pairs_def)
  qed
qed

lemma base_holds_scopes:
  assumes h: "base_holds table b snap es indexed" and sorted: "sorted_wrt (<) (map fst (snap_scopes snap))"
  shows "overlay_scopes b = map fst (snap_scopes snap)"
proof (rule strict_sorted_unique)
  have "s \<in> dom (fmlookup (pb_overlays b)) \<longleftrightarrow> map_of (snap_scopes snap) s \<noteq> None" for s
    using base_holds_overlay [OF h, of s] by (cases "fmlookup (pb_overlays b) s") auto
  then show "set (overlay_scopes b) = set (map fst (snap_scopes snap))"
    by (auto simp: overlay_scopes_spec(1) map_of_eq_None_iff)
qed (use overlay_scopes_spec(3) sorted in auto)

lemma base_holds_registry:
  assumes "base_holds table b snap es indexed" and "pb_registry b = None \<Longrightarrow> pb_fallback b = None"
  shows "pb_scopes_for_root b r = Some (map snd (filter (\<lambda>e. fst e = r) es))" and "registry_iter b = Some es"
proof -
  have "case pb_registry b of None \<Rightarrow> es = [] | Some r \<Rightarrow> registry_means r (pb_mmap b) es"
    using assms(1) by (simp add: base_holds_def)
  then show "pb_scopes_for_root b r = Some (map snd (filter (\<lambda>e. fst e = r) es))" and "registry_iter b = Some es"
    using assms(2) by (auto simp: pb_scopes_for_root_def registry_iter_def registry_means_def split: option.splits)
qed

lemma members_held_answers:
  assumes h: "members_held b snap"
  shows "answers_members b snap"
  unfolding answers_members_def
proof (intro conjI allI)
  let ?g = "child_pairs (snap_global snap)"
  have f: "filter_admits (pb_shared_members_filter b) (fst ` set ?g)"
    "filter_admits (pb_overlay_members_filter b) (scope_keys overlay_key (\<lambda>ps. map fst (child_pairs ps)) (snap_scopes snap))"
    and m: "case pb_shared_members b of None \<Rightarrow> ?g = [] | Some m \<Rightarrow> children_mean m (pb_mmap b) ?g \<and> ?g \<noteq> []"
    and om: "\<And>s. case map_of (snap_scopes snap) s of None \<Rightarrow> fmlookup (pb_overlay_members b) s = None
      | Some ps \<Rightarrow> (case fmlookup (pb_overlay_members b) s of None \<Rightarrow> child_pairs ps = []
          | Some m \<Rightarrow> children_mean m (pb_mmap b) (child_pairs ps))"
    using h by (simp_all add: members_held_def)
  show "pb_has_member_index b \<longleftrightarrow> child_pairs (snap_global snap) \<noteq> []"
    using m by (auto simp: pb_has_member_index_def split: option.splits)
  fix p limit out
  obtain w where w: "passes (pb_shared_members_filter b) p = Some w" using f(1) by (auto simp: filter_admits_def)
  show "pb_shared_children b p limit out = Some (out @ take limit (children_in (snap_global snap) p))"
  proof (cases "pb_shared_members b")
    case None
    then show ?thesis using m w by (simp add: pb_shared_children_def children_in_def)
  next
    case (Some t)
    then have "children_mean t (pb_mmap b) ?g" using m by simp
    from filtered_children [OF f(1) this, where parent = p and key = p and out = out and limit = limit] show ?thesis
      by (simp add: pb_shared_children_def Some children_in_def cong: if_cong)
  qed
next
  fix s p limit out
  let ?k = "overlay_key s p" and ?keys = "scope_keys overlay_key (\<lambda>ps. map fst (child_pairs ps)) (snap_scopes snap)"
  have f: "filter_admits (pb_overlay_members_filter b) ?keys"
    and om: "case map_of (snap_scopes snap) s of None \<Rightarrow> fmlookup (pb_overlay_members b) s = None
      | Some ps \<Rightarrow> (case fmlookup (pb_overlay_members b) s of None \<Rightarrow> child_pairs ps = []
          | Some m \<Rightarrow> children_mean m (pb_mmap b) (child_pairs ps))"
    using h by (simp_all add: members_held_def)
  obtain w where w: "passes (pb_overlay_members_filter b) ?k = Some w" using f by (auto simp: filter_admits_def)
  show "pb_overlay_children b s p limit out = Some (out @ take limit (children_in (scope_pairs snap s) p))"
  proof (cases "fmlookup (pb_overlay_members b) s")
    case None
    then have "child_pairs (scope_pairs snap s) = []" using om by (auto simp: scope_pairs_def child_pairs_def split: option.splits)
    then show ?thesis using None w by (simp add: pb_overlay_children_def children_in_def)
  next
    case (Some t)
    then obtain ps where ps: "map_of (snap_scopes snap) s = Some ps" "children_mean t (pb_mmap b) (child_pairs ps)"
      using om by (auto split: option.splits)
    have "p \<in> fst ` set (child_pairs ps) \<Longrightarrow> ?k \<in> ?keys"
      using map_of_SomeD [OF ps(1)] by (force simp: scope_keys_def)
    with filtered_children [OF f ps(2), where parent = p and key = ?k and out = out and limit = limit] show ?thesis
      by (simp add: pb_overlay_children_def Some children_in_def scope_pairs_def ps(1) cong: if_cong)
  qed
qed

text \<open>The invariant of a base in service, and that it gives the answers.\<close>

definition serves :: "puffin_base \<Rightarrow> forest_snapshot \<Rightarrow> (node_id \<times> scope_id) list \<Rightarrow> bool \<Rightarrow> bool" where
  "serves b snap es indexed \<longleftrightarrow> base_holds table_ready b snap es indexed \<and> snapshot_ok snap \<and>
     sorted_wrt (<) (map fst (snap_scopes snap)) \<and> length (pb_mmap b) < 2 ^ 64 \<and>
     (pb_registry b = None \<longrightarrow> pb_fallback b = None)"

lemma serves_answers:
  assumes "serves b snap es indexed"
  shows "answers b snap es" and "indexed \<Longrightarrow> answers_members b snap" and "\<not> indexed \<Longrightarrow> \<not> pb_has_member_index b"
proof -
  have h: "base_holds table_ready b snap es indexed" using assms by (simp add: serves_def)
  show "answers b snap es"
    unfolding answers_def
    using base_holds_parents [OF h] base_holds_scans [OF h] base_holds_scopes [OF h] base_holds_registry [OF h] assms
    by (simp add: serves_def)
  show "answers_members b snap" if indexed using members_held_answers [of b snap] h that by (simp add: base_holds_def)
  show "\<not> pb_has_member_index b" if "\<not> indexed" using h that by (simp add: base_holds_def pb_has_member_index_def)
qed

lemma open_written:
  assumes js: "json_ok js (footer_of (file_blobs seq opts snap es) fprops)" and w: "puffin_write js (file_blobs seq opts snap es) fprops = Some data" and n: "length data < 2 ^ 38"
    and ok: "file_ok snap es" and scopes: "sorted_wrt (<) (map fst (snap_scopes snap))"
    and reg: "es = [] \<Longrightarrow> snap_scopes snap = []"
  obtains b where "open_with_reader js (Some data) reader = Inr b" and "serves b snap es (wo_member_index opts)"
    and "pb_mmap b = data" and "pb_sequence b = blob_sequence seq"
proof -
  have n64: "length data < 2 ^ 64" using n by simp
  obtain index where ix: "read_index js data = Inr index" "list_all2 (placed data) index (file_blobs seq opts snap es)"
    using read_index_written [OF js w n64] .
  obtain b where b: "build_blobs index (empty_base data reader) = Inr b"
    "base_holds table_parsed b snap es (wo_member_index opts)"
    "pb_mmap b = data" "pb_reader b = reader" "pb_sequence b = blob_sequence seq" "pb_fallback b = None"
    using load_file [OF ix(2) ok n] .
  obtain t ov where o: "and_then (build_indexes (pb_mmap b) (base_tables b)) (\<lambda>tables. Inr (with_tables b tables)) =
      Inr (b\<lparr>pb_shared := Some t, pb_overlays := ov\<rparr>)"
    "base_holds table_ready (b\<lparr>pb_shared := Some t, pb_overlays := ov\<rparr>) snap es (wo_member_index opts)"
    using index_built_tables [OF b(2)] .
  let ?b = "b\<lparr>pb_shared := Some t, pb_overlays := ov\<rparr>"
  have "\<not> (pb_registry b = None \<and> fmdom (pb_overlays b) \<noteq> {||})"
  proof
    assume a: "pb_registry b = None \<and> fmdom (pb_overlays b) \<noteq> {||}"
    then have "snap_scopes snap = []" using b(2) reg by (simp add: base_holds_def)
    then have "overlay_scopes b = []" using base_holds_scopes [OF b(2)] by simp
    then have "fmdom (pb_overlays b) = {||}"
      unfolding overlay_scopes_def using sorted_keys(2) [of "pb_overlays b"] by (auto simp: fset_eq_iff fmlookup_dom_iff)
    with a show False by simp
  qed
  then have "open_with_reader js (Some data) reader = Inr ?b"
    using ix(1) b(1,3) o(1) by (auto simp: open_with_reader_def pb_build_def)
  moreover have "serves ?b snap es (wo_member_index opts)"
    using o(2) ok scopes n64 b(3,6) by (simp add: serves_def file_ok_def)
  ultimately show thesis using that [of ?b] b(3,5) by simp
qed

text \<open>
  C11: what is written is what is served. Opening the file that the codec writes for a snapshot and
  its registry succeeds with either sweep reader, and the base then answers every query from the
  mapping without a panic: parents in the shared table and in each overlay, the sweeps in key
  order, the scopes of a root, the list of scopes and, when the file is written with the member
  index, the children of every node up to the caller's limit. The base reports the member index when it
  was written and the shared table joins two nodes; a file written without the index never reports one.
\<close>

theorem written_file_serves_snapshot:
  assumes "json_ok js (footer_of (file_blobs seq opts snap es) fprops)"
    and "puffin_write js (file_blobs seq opts snap es) fprops = Some data" and "length data < 2 ^ 38"
    and "file_ok snap es" and "sorted_wrt (<) (map fst (snap_scopes snap))" and "es = [] \<Longrightarrow> snap_scopes snap = []"
  shows "\<exists>b. open_with_reader js (Some data) reader = Inr b \<and> answers b snap es \<and>
    (if wo_member_index opts then answers_members b snap else \<not> pb_has_member_index b)"
  using open_written [OF assms] serves_answers by metis

definition small_options :: write_options where
  "small_options = \<lparr>filter_bits = 0, wo_registry = Flat, wo_member_index = True, wo_members = MemberFlat\<rparr>"

definition small_snapshot :: forest_snapshot where
  "small_snapshot = \<lparr>snap_global = [(9, 5)], snap_scopes = [(7, [(5, 3)])]\<rparr>"

lemma small_file_blobs:
  "file_blobs 1 small_options small_snapshot [(3, 7), (5, 7)] =
     [make_blob 1 GLOBAL_BLOB_TYPE (counted pair_bytes [(9, 5)]) [],
      make_blob 1 SCOPE_BLOB_TYPE (counted pair_bytes [(5, 3)]) (scope_props 7),
      make_blob 1 FLAT_BLOB_TYPE (u64_to_le_bytes 2 @ entry_bytes (3, 7) @ entry_bytes (5, 7)) [],
      make_blob 1 SHARED_FLAT_BLOB_TYPE (u64_to_le_bytes 1 @ pair_bytes (5, 9)) [],
      make_blob 1 OVERLAY_FLAT_BLOB_TYPE (u64_to_le_bytes 1 @ pair_bytes (3, 5)) (scope_props 7)]"
  by (simp add: file_blobs_def table_blobs_def index_blobs_def registry_blobs_def encode_registry_def
      rw_new_def rw_with_block_size_def rw_push_def rw_finish_def filter_blobs_def key_filters_def member_filters_def
      named_filters_def build_with_def clamp_filter_bits_def member_blob_def member_payload_def
      child_pairs_def mw_new_def mw_with_block_size_def mw_push_def mw_finish_def small_options_def small_snapshot_def
      scope_blob_def entry_bytes_def pair_bytes_def Let_def)

lemma small_file:
  "length (to_vec plain_json (footer_of (file_blobs 1 small_options small_snapshot [(3, 7), (5, 7)]) [])) < 1000"
  "length (concat (map blob_data (file_blobs 1 small_options small_snapshot [(3, 7), (5, 7)]))) < 1000"
proof -
  have d: "length (scope_to_string 7) = 1" by (simp add: scope_to_string_def decimal.simps)
  show "length (to_vec plain_json (footer_of (file_blobs 1 small_options small_snapshot [(3, 7), (5, 7)]) [])) < 1000"
    using d by (simp add: small_file_blobs footer_of_def plain_json_def enc_pair_def enc_list_def enc_metadata_def metadata_fields_def
        metadata_of_def enc_char_def scope_props_def SCOPE_ID_PROP_def blob_types comp_def make_blob_def length_concat sum_list_triv)
  show "length (concat (map blob_data (file_blobs 1 small_options small_snapshot [(3, 7), (5, 7)]))) < 1000"
    by (simp add: small_file_blobs length_counted [of _ 16])
qed

theorem written_file_serves_snapshot_witness:
  "\<exists>data b. puffin_write plain_json (file_blobs 1 small_options small_snapshot [(3, 7), (5, 7)]) [] = Some data \<and>
    open_with_reader plain_json (Some data) Buffered = Inr b \<and> answers b small_snapshot [(3, 7), (5, 7)] \<and>
    answers_members b small_snapshot"
proof -
  let ?es = "[(3, 7), (5, 7)] :: (node_id \<times> scope_id) list"
  obtain data where d: "puffin_write plain_json (file_blobs 1 small_options small_snapshot ?es) [] = Some data"
    "length data < 20 + 1000 + length (concat (map blob_data (file_blobs 1 small_options small_snapshot ?es)))"
    using puffin_write_small [OF small_file(1)] by auto
  then have "length data < 2 ^ 38" using small_file(2) by simp
  moreover have "file_ok small_snapshot ?es" "sorted_wrt (<) (map fst (snap_scopes small_snapshot))"
    by (simp_all add: file_ok_def small_snapshot_def snapshot_ok_def)
  ultimately show ?thesis
    using written_file_serves_snapshot [OF plain_json_ok d(1), of Buffered] d(1) by (auto simp: small_options_def)
qed

end
