(* ===== verification/Layered_Base.thy ===== *)
theory Layered_Base
  imports Puffin_Open
begin

text \<open>
  The stack of layers of \<^verbatim>\<open>src/storage/layered.rs\<close>: a base and the deltas folded after it, each an opened
  file, presented as one routing base. A lookup passes the layers once, oldest first; a sweep is a
  merge of the layers' tables by key.

  What a stack needs of its layers is an interface: a table with a length, positional access and a
  lookup, all three reading the same sorted list. The locale \<open>layer_tables\<close> states it and proves the
  two algorithms, and the shared tables and the overlay tables of opened files are its instances.
\<close>

section \<open>The stack\<close>

record layered_base =
  lb_layers :: "puffin_base list"

definition lb_new :: "puffin_base \<Rightarrow> layered_base" where
  "lb_new b = \<lparr>lb_layers = [b]\<rparr>"

definition from_layers :: "puffin_base list \<Rightarrow> layered_base result" where
  "from_layers layers = ensure (layers \<noteq> []) EmptyStack (Inr \<lparr>lb_layers = layers\<rparr>)"

definition pushed :: "layered_base \<Rightarrow> puffin_base \<Rightarrow> layered_base" where
  "pushed lb delta = \<lparr>lb_layers = lb_layers lb @ [delta]\<rparr>"

definition delta_count :: "layered_base \<Rightarrow> nat" where
  "delta_count lb = length (lb_layers lb) - 1"

text \<open>A range that starts past its end panics when the vector is indexed.\<close>

definition lb_slice :: "layered_base \<Rightarrow> nat \<Rightarrow> nat \<Rightarrow> layered_base result" where
  "lb_slice lb from to =
     ensure (to \<le> length (lb_layers lb)) BadRange (
     and_then (ok_or Panic (slice (lb_layers lb) from to)) from_layers)"

definition spliced :: "layered_base \<Rightarrow> nat \<Rightarrow> nat \<Rightarrow> puffin_base \<Rightarrow> layered_base result" where
  "spliced lb from to merged =
     ensure (from < to \<and> to \<le> length (lb_layers lb)) BadRange (
     from_layers (take from (lb_layers lb) @ [merged] @ drop to (lb_layers lb)))"

definition lb_layer :: "layered_base \<Rightarrow> nat \<Rightarrow> puffin_base option" where
  "lb_layer lb i = (if i < length (lb_layers lb) then Some (lb_layers lb ! i) else None)"

section \<open>Resolving through the layers\<close>

fun first_hit :: "('l \<Rightarrow> node_id \<Rightarrow> node_id option option) \<Rightarrow> node_id \<Rightarrow> nat \<Rightarrow> 'l list \<Rightarrow> (nat \<times> node_id) option option" where
  "first_hit probe cur i [] = Some None"
| "first_hit probe cur i (layer # layers) =
     do { p \<leftarrow> probe layer cur;
          case p of Some parent \<Rightarrow> Some (Some (i, parent)) | None \<Rightarrow> first_hit probe cur (Suc i) layers }"

lemma first_hit_ge: "first_hit probe cur i layers = Some (Some (j, p)) \<Longrightarrow> i \<le> j \<and> j < i + length layers"
  by (induction probe cur i layers rule: first_hit.induct) (fastforce split: bind_splits option.splits)+

function resolve_loop :: "'l list \<Rightarrow> ('l \<Rightarrow> node_id \<Rightarrow> node_id option option) \<Rightarrow> node_id \<Rightarrow> nat \<Rightarrow> node_id option" where
  "resolve_loop layers probe cur from =
     (if from < length layers then
        do { step \<leftarrow> first_hit probe cur from (drop from layers);
             case step of
               Some (i, parent) \<Rightarrow> if parent \<noteq> cur then resolve_loop layers probe parent (i + 1) else Some cur
             | None \<Rightarrow> Some cur }
      else Some cur)"
  by pat_completeness auto
termination
  by (relation "measure (\<lambda>(layers, probe, cur, from). length layers - from)") (auto dest!: first_hit_ge)

declare resolve_loop.simps [simp del]

definition resolve :: "'l list \<Rightarrow> ('l \<Rightarrow> node_id \<Rightarrow> node_id option option) \<Rightarrow> node_id \<Rightarrow> node_id option option" where
  "resolve layers probe node =
     map_option (\<lambda>cur. if cur \<noteq> node then Some cur else None) (resolve_loop layers probe node 0)"

section \<open>Merging the layers by key\<close>

text \<open>The scan for the smallest key under the cursors, and the loop around it.\<close>

fun merge_pick :: "('l \<Rightarrow> nat \<Rightarrow> (node_id \<times> node_id) option) \<Rightarrow> (nat \<times> 'l \<times> nat \<times> nat) list \<Rightarrow>
    (nat \<times> node_id \<times> node_id) option \<Rightarrow> (nat \<times> node_id \<times> node_id) option option" where
  "merge_pick pick_at [] best = Some best"
| "merge_pick pick_at ((i, layer, cursor, len) # rest) best =
     (if len \<le> cursor then merge_pick pick_at rest best
      else do { (k, v) \<leftarrow> pick_at layer cursor;
                merge_pick pick_at rest (case best of
                    None \<Rightarrow> Some (i, k, v)
                  | Some (_, b, _) \<Rightarrow> if k < b then Some (i, k, v) else best) })"

abbreviation rows :: "'l list \<Rightarrow> nat list \<Rightarrow> nat list \<Rightarrow> (nat \<times> 'l \<times> nat \<times> nat) list" where
  "rows layers cursors lens \<equiv> zip [0..<length layers] (zip layers (zip cursors lens))"

lemma merge_pick_row:
  assumes "merge_pick pick_at rs best = Some (Some (i, k, v))"
  shows "best = Some (i, k, v) \<or> (\<exists>l c n. (i, l, c, n) \<in> set rs \<and> c < n \<and> pick_at l c = Some (k, v))"
  using assms
proof (induction pick_at rs best rule: merge_pick.induct)
  case (2 pick_at j l c n rest best)
  show ?case
  proof (cases "n \<le> c")
    case False
    then obtain a b where ab: "pick_at l c = Some (a, b)" using 2(3) by (auto split: bind_splits)
    let ?best = "case best of None \<Rightarrow> Some (j, a, b) | Some (_, m, _) \<Rightarrow> if a < m then Some (j, a, b) else best"
    have "?best = Some (i, k, v) \<or> (\<exists>l c n. (i, l, c, n) \<in> set rest \<and> c < n \<and> pick_at l c = Some (k, v))"
      using 2(2) [OF False ab refl] 2(3) False ab by simp
    moreover have "?best = best \<or> ?best = Some (j, a, b)" by (simp split: option.split)
    ultimately consider "best = Some (i, k, v)" | "Some (j, a, b) = Some (i, k, v)"
      | "\<exists>l c n. (i, l, c, n) \<in> set rest \<and> c < n \<and> pick_at l c = Some (k, v)" by argo
    then show ?thesis
    proof cases
      case 2
      then show ?thesis using ab False by (intro disjI2 exI [of _ l] exI [of _ c] exI [of _ n]) auto
    qed auto
  qed (use 2 in auto)
qed simp

lemma rows_in:
  "(i, l, c, n) \<in> set (rows layers cursors lens) \<longleftrightarrow>
     i < length layers \<and> i < length cursors \<and> i < length lens \<and> l = layers ! i \<and> c = cursors ! i \<and> n = lens ! i"
  by (auto simp: set_zip intro!: exI [of _ i])

lemma cursor_sum_less:
  assumes "i < length cursors" and "i < length lens" and "cursors ! i < lens ! i"
  shows "sum_list (map2 (-) lens (cursors[i := Suc (cursors ! i)])) < (sum_list (map2 (-) lens cursors) :: nat)"
proof -
  have "map2 (-) lens (cursors[i := Suc (cursors ! i)]) = (map2 (-) lens cursors)[i := lens ! i - Suc (cursors ! i)]"
    using assms by (intro nth_equalityI) (auto simp: nth_list_update)
  moreover have "lens ! i - cursors ! i \<in> set (map2 (-) lens cursors)"
    using nth_mem [of i "map2 (-) lens cursors"] assms by simp
  then have "lens ! i - cursors ! i \<le> sum_list (map2 (-) lens cursors)" by (rule member_le_sum_list) simp
  ultimately show ?thesis
    using assms sum_list_update [of i "map2 (-) lens cursors" "lens ! i - Suc (cursors ! i)"] by simp
qed

function merge_loop :: "('l \<Rightarrow> nat \<Rightarrow> (node_id \<times> node_id) option) \<Rightarrow> (node_id \<Rightarrow> node_id option option) \<Rightarrow> 'l list \<Rightarrow>
    nat list \<Rightarrow> nat list \<Rightarrow> (node_id \<times> node_id) list option" where
  "merge_loop pick_at res layers lens cursors =
     do { pick \<leftarrow> merge_pick pick_at (rows layers cursors lens) None;
          case pick of
            None \<Rightarrow> Some []
          | Some (i, k, v) \<Rightarrow>
              do { r \<leftarrow> res v;
                   let root = (case r of None \<Rightarrow> v | Some x \<Rightarrow> x);
                   rest \<leftarrow> merge_loop pick_at res layers lens (cursors[i := Suc (cursors ! i)]);
                   Some (if root \<noteq> k then (k, root) # rest else rest) } }"
  by pat_completeness auto
termination
  by (relation "measure (\<lambda>(pick_at, res, layers, lens, cursors). sum_list (map2 (-) lens cursors))")
    (auto simp: rows_in intro!: cursor_sum_less dest!: merge_pick_row)

declare merge_loop.simps [simp del]

definition lb_merge :: "layered_base \<Rightarrow> (puffin_base \<Rightarrow> nat) \<Rightarrow> (puffin_base \<Rightarrow> nat \<Rightarrow> (node_id \<times> node_id) option) \<Rightarrow>
    (node_id \<Rightarrow> node_id option option) \<Rightarrow> (node_id \<times> node_id) list option" where
  "lb_merge lb len pick_at res =
     merge_loop pick_at res (lb_layers lb) (map len (lb_layers lb)) (replicate (length (lb_layers lb)) 0)"

section \<open>The trait\<close>

definition lb_shared_parent :: "layered_base \<Rightarrow> node_id \<Rightarrow> node_id option option" where
  "lb_shared_parent lb node = resolve (lb_layers lb) pb_shared_parent node"

definition lb_overlay_parent :: "layered_base \<Rightarrow> scope_id \<Rightarrow> node_id \<Rightarrow> node_id option option" where
  "lb_overlay_parent lb scope node = resolve (lb_layers lb) (\<lambda>layer x. pb_overlay_parent layer scope x) node"

definition lb_has_member_index :: "layered_base \<Rightarrow> bool" where
  "lb_has_member_index lb = list_all pb_has_member_index (lb_layers lb)"

fun children_loop :: "('l \<Rightarrow> nat \<Rightarrow> node_id list \<Rightarrow> node_id list option) \<Rightarrow> nat \<Rightarrow> nat \<Rightarrow> 'l list \<Rightarrow> node_id list \<Rightarrow>
    node_id list option" where
  "children_loop list_kids start limit [] out = Some out"
| "children_loop list_kids start limit (layer # layers) out =
     (let taken = length out - start in
      if limit \<le> taken then Some out
      else do { out \<leftarrow> list_kids layer (limit - taken) out; children_loop list_kids start limit layers out })"

definition lb_shared_children :: "layered_base \<Rightarrow> node_id \<Rightarrow> nat \<Rightarrow> node_id list \<Rightarrow> node_id list option" where
  "lb_shared_children lb parent limit out =
     children_loop (\<lambda>layer. pb_shared_children layer parent) (length out) limit (lb_layers lb) out"

definition lb_overlay_children :: "layered_base \<Rightarrow> scope_id \<Rightarrow> node_id \<Rightarrow> nat \<Rightarrow> node_id list \<Rightarrow> node_id list option" where
  "lb_overlay_children lb scope parent limit out =
     children_loop (\<lambda>layer. pb_overlay_children layer scope parent) (length out) limit (lb_layers lb) out"

fun union_scopes :: "scope_list \<Rightarrow> scope_list \<Rightarrow> scope_list" where
  "union_scopes out [] = out"
| "union_scopes out (s # ss) = union_scopes (if s \<in> set out then out else out @ [s]) ss"

fun scopes_of_layers :: "node_id \<Rightarrow> puffin_base list \<Rightarrow> scope_list \<Rightarrow> scope_list option" where
  "scopes_of_layers root [] out = Some out"
| "scopes_of_layers root (layer # layers) out =
     do { ss \<leftarrow> pb_scopes_for_root layer root; scopes_of_layers root layers (union_scopes out ss) }"

definition lb_scopes_for_root :: "layered_base \<Rightarrow> node_id \<Rightarrow> scope_list option" where
  "lb_scopes_for_root lb root = scopes_of_layers root (lb_layers lb) []"

definition lb_scopes :: "layered_base \<Rightarrow> scope_id list" where
  "lb_scopes lb = sort_dedup (concat (map overlay_scopes (lb_layers lb)))"

definition lb_for_each_shared_pair :: "layered_base \<Rightarrow> (node_id \<times> node_id) list option" where
  "lb_for_each_shared_pair lb = lb_merge lb shared_len shared_pair_at (lb_shared_parent lb)"

definition lb_for_each_overlay_pair :: "layered_base \<Rightarrow> scope_id \<Rightarrow> (node_id \<times> node_id) list option" where
  "lb_for_each_overlay_pair lb scope =
     lb_merge lb (\<lambda>l. overlay_len l scope) (\<lambda>l i. overlay_pair_at l scope i) (lb_overlay_parent lb scope)"

definition add_stats :: "base_stats \<Rightarrow> base_stats \<Rightarrow> base_stats" where
  "add_stats out s =
     out\<lparr>bs_sequence := max (bs_sequence out) (bs_sequence s), bs_shared_pairs := bs_shared_pairs out + bs_shared_pairs s,
         bs_overlay_pairs := bs_overlay_pairs out + bs_overlay_pairs s, bs_mapped_bytes := bs_mapped_bytes out + bs_mapped_bytes s,
         bs_index_bytes := bs_index_bytes out + bs_index_bytes s,
         bs_registry_indexed := bs_registry_indexed out \<or> bs_registry_indexed s\<rparr>"

definition lb_stats :: "layered_base \<Rightarrow> base_stats" where
  "lb_stats lb =
     (foldl (\<lambda>out layer. add_stats out (pb_stats layer)) default_stats (lb_layers lb))\<lparr>bs_scopes := word_of_nat (length (lb_scopes lb))\<rparr>"

text \<open>
  The stack as a routing base. The methods of the trait do not return an error: a read that panics
  stops the program, and the record gives an empty answer in its place. The theorems below show
  that a stack of opened files never gets there.
\<close>

definition or_else :: "'a \<Rightarrow> 'a option \<Rightarrow> 'a" where
  "or_else d x = (case x of None \<Rightarrow> d | Some v \<Rightarrow> v)"

definition layered_routing :: "layered_base \<Rightarrow> routing_base" where
  "layered_routing lb =
     \<lparr>shared_parent = (\<lambda>n. or_else None (lb_shared_parent lb n)),
      overlay_parent = (\<lambda>s n. or_else None (lb_overlay_parent lb s n)),
      scopes_for_root = (\<lambda>r. or_else [] (lb_scopes_for_root lb r)),
      base_scopes = lb_scopes lb,
      for_each_shared_pair = or_else [] (lb_for_each_shared_pair lb),
      for_each_overlay_pair = (\<lambda>s. or_else [] (lb_for_each_overlay_pair lb s)),
      has_member_index = lb_has_member_index lb,
      shared_children = (\<lambda>p limit out. or_else out (lb_shared_children lb p limit out)),
      overlay_children = (\<lambda>s p limit out. or_else out (lb_overlay_children lb s p limit out)),
      base_stats_of = lb_stats lb\<rparr>"

section \<open>Passing the layers\<close>

text \<open>The tables of a stack, oldest first, as lists of pairs. A pass looks a node up in each once.\<close>

definition hop :: "('k \<times> 'k) list \<Rightarrow> 'k \<Rightarrow> 'k" where
  "hop ps x = (case map_of ps x of None \<Rightarrow> x | Some y \<Rightarrow> y)"

definition pass :: "('k \<times> 'k) list list \<Rightarrow> 'k \<Rightarrow> 'k" where
  "pass pss x = fold hop pss x"

lemma pass_simps [simp]: "pass [] x = x" "pass (ps # pss) x = pass pss (hop ps x)" "pass (pss @ qss) x = pass qss (pass pss x)"
  by (simp_all add: pass_def)

text \<open>
  What folding keeps of the tables: parents are smaller; a table's keys do not occur in the older
  tables; its values are keyed neither in the older tables nor in itself.
\<close>

definition keys_of :: "('k \<times> 'v) list \<Rightarrow> 'k set" where
  "keys_of ps = fst ` set ps"

definition all_keys :: "('k \<times> 'v) list list \<Rightarrow> 'k set" where
  "all_keys pss = (\<Union>ps \<in> set pss. keys_of ps)"

lemma all_keys_simps [simp]: "all_keys [] = {}" "all_keys (ps # pss) = keys_of ps \<union> all_keys pss"
  "all_keys (pss @ qss) = all_keys pss \<union> all_keys qss"
  by (auto simp: all_keys_def)

definition lowers :: "('k::linorder \<times> 'k) list \<Rightarrow> bool" where
  "lowers ps \<longleftrightarrow> (\<forall>(k, v) \<in> set ps. v < k)"

inductive stack_ok :: "('k::linorder \<times> 'k) list list \<Rightarrow> bool" where
  empty: "stack_ok []"
| push: "stack_ok pss \<Longrightarrow> lowers ps \<Longrightarrow> keys_of ps \<inter> all_keys pss = {} \<Longrightarrow>
    snd ` set ps \<inter> (all_keys pss \<union> keys_of ps) = {} \<Longrightarrow> stack_ok (pss @ [ps])"

lemma stack_ok_snoc:
  "stack_ok (pss @ [ps]) \<longleftrightarrow> stack_ok pss \<and> lowers ps \<and> keys_of ps \<inter> all_keys pss = {} \<and>
     snd ` set ps \<inter> (all_keys pss \<union> keys_of ps) = {}"
  by (auto intro: stack_ok.push elim: stack_ok.cases)

lemma hop_le: "lowers ps \<Longrightarrow> hop ps x \<le> x"
  by (auto simp: hop_def lowers_def less_imp_le dest!: map_of_SomeD split: option.split)

lemma hop_eq_iff:
  assumes "lowers ps"
  shows "hop ps x = x \<longleftrightarrow> x \<notin> keys_of ps"
proof (cases "map_of ps x")
  case None
  then have "x \<notin> keys_of ps" unfolding keys_of_def map_of_eq_None_iff .
  then show ?thesis using None by (simp add: hop_def)
next
  case (Some y)
  then have "(x, y) \<in> set ps" by (rule map_of_SomeD)
  then have "x \<in> keys_of ps" "y < x" using assms by (force simp: keys_of_def lowers_def)+
  then show ?thesis using Some by (simp add: hop_def)
qed

lemma stack_lowers: "stack_ok pss \<Longrightarrow> \<forall>ps \<in> set pss. lowers ps"
  by (induction rule: stack_ok.induct) auto

lemma pass_le: "\<forall>ps \<in> set pss. lowers ps \<Longrightarrow> pass pss x \<le> x"
proof (induction pss arbitrary: x)
  case (Cons ps pss)
  then have "pass pss (hop ps x) \<le> hop ps x" "hop ps x \<le> x" by (simp_all add: hop_le)
  then show ?case by simp
qed simp

lemma pass_eq_iff: "\<forall>ps \<in> set pss. lowers ps \<Longrightarrow> pass pss x = x \<longleftrightarrow> x \<notin> all_keys pss"
proof (induction pss arbitrary: x)
  case (Cons ps pss)
  have l: "lowers ps" "\<forall>ps \<in> set pss. lowers ps" using Cons.prems by simp_all
  show ?case
  proof (cases "x \<in> keys_of ps")
    case True
    then have "hop ps x < x" using hop_le [OF l(1), of x] hop_eq_iff [OF l(1), of x] by auto
    moreover have "pass pss (hop ps x) \<le> hop ps x" by (rule pass_le [OF l(2)])
    ultimately show ?thesis using True by auto
  next
    case False
    then have "hop ps x = x" using hop_eq_iff [OF l(1)] by blast
    then show ?thesis using Cons.IH [OF l(2), of x] False by simp
  qed
qed simp

text \<open>A pass ends at a node that no layer keys.\<close>

lemma pass_unkeyed: "stack_ok pss \<Longrightarrow> pass pss x \<notin> all_keys pss"
proof (induction arbitrary: x rule: stack_ok.induct)
  case (push pss ps)
  show ?case
  proof (cases "map_of ps (pass pss x)")
    case None
    then have "pass pss x \<notin> keys_of ps" by (simp add: keys_of_def map_of_eq_None_iff)
    then show ?thesis using None push.IH [of x] by (simp add: hop_def)
  next
    case (Some y)
    then have "y \<in> snd ` set ps" by (force dest!: map_of_SomeD)
    then show ?thesis using Some push.hyps(4) by (auto simp: hop_def)
  qed
qed simp

text \<open>The value stored with a key and the key itself end a pass at the same node.\<close>

lemma pass_value:
  assumes "stack_ok pss" and "ps \<in> set pss" and "map_of ps k = Some v"
  shows "pass pss v = pass pss k"
  using assms
proof (induction arbitrary: ps rule: stack_ok.induct)
  case (push pss qs)
  have l: "\<forall>ps \<in> set pss. lowers ps" by (rule stack_lowers [OF push.hyps(1)])
  consider "ps \<in> set pss" | "ps = qs" using push.prems(1) by auto
  then show ?case
  proof cases
    case 1
    then show ?thesis using push.IH [OF 1 push.prems(2)] by simp
  next
    case 2
    have k: "k \<in> keys_of qs" and v: "v \<in> snd ` set qs"
      using push.prems(2) 2 by (force simp: keys_of_def dest!: map_of_SomeD)+
    then have "pass pss k = k" "pass pss v = v"
      using push.hyps(3,4) pass_eq_iff [OF l] by blast+
    moreover have "map_of qs v = None" using v push.hyps(4) by (auto simp: map_of_eq_None_iff keys_of_def)
    ultimately show ?thesis using push.prems(2) 2 by (simp add: hop_def)
  qed
qed simp

section \<open>The two algorithms over any tables\<close>

definition least_pick :: "('l \<Rightarrow> nat \<Rightarrow> (node_id \<times> node_id) option) \<Rightarrow> (nat \<times> 'l \<times> nat \<times> nat) list \<Rightarrow>
    (nat \<times> node_id \<times> node_id) option \<Rightarrow> (nat \<times> node_id \<times> node_id) option \<Rightarrow> bool" where
  "least_pick pick_at rs best res \<longleftrightarrow>
     (res = None \<longleftrightarrow> best = None \<and> (\<forall>(i, l, c, n) \<in> set rs. n \<le> c)) \<and>
     (\<forall>i k v. res = Some (i, k, v) \<longrightarrow>
       (\<forall>j b w. best = Some (j, b, w) \<longrightarrow> k \<le> b) \<and>
       (\<forall>j l c n a b. (j, l, c, n) \<in> set rs \<longrightarrow> c < n \<longrightarrow> pick_at l c = Some (a, b) \<longrightarrow> k \<le> a))"

lemma merge_pick_least:
  assumes "\<And>i l c n. (i, l, c, n) \<in> set rs \<Longrightarrow> c < n \<Longrightarrow> \<exists>k v. pick_at l c = Some (k, v)"
  shows "\<exists>res. merge_pick pick_at rs best = Some res \<and> least_pick pick_at rs best res"
  using assms
proof (induction rs arbitrary: best)
  case Nil
  then show ?case by (auto simp: least_pick_def)
next
  case (Cons row rs)
  obtain i l c n where row: "row = (i, l, c, n)" by (rule prod_cases4)
  have IH: "\<exists>res. merge_pick pick_at rs b = Some res \<and> least_pick pick_at rs b res" for b
    by (rule Cons.IH) (rule Cons.prems, auto)
  show ?case
  proof (cases "n \<le> c")
    case True
    obtain res where res: "merge_pick pick_at rs best = Some res" "least_pick pick_at rs best res" using IH by blast
    have "least_pick pick_at (row # rs) best res"
      using res(2) True unfolding least_pick_def row by (simp add: not_less)
    then show ?thesis using res(1) True by (simp add: row)
  next
    case False
    then obtain k v where kv: "pick_at l c = Some (k, v)" using Cons.prems [of i l c n] row by auto
    let ?best = "case best of None \<Rightarrow> Some (i, k, v) | Some (_, b, _) \<Rightarrow> if k < b then Some (i, k, v) else best"
    obtain res where res: "merge_pick pick_at rs ?best = Some res" and least: "least_pick pick_at rs ?best res" using IH by blast
    have "\<exists>j b w. ?best = Some (j, b, w) \<and> b \<le> k \<and> (\<forall>j' b' w'. best = Some (j', b', w') \<longrightarrow> b \<le> b')"
    proof (cases best)
      case (Some t)
      obtain a m w where "t = (a, m, w)" by (rule prod_cases3)
      then show ?thesis using Some by (cases "k < m") (auto simp: not_less)
    qed simp
    then obtain j b w where best: "?best = Some (j, b, w)" "b \<le> k" "\<And>j' b' w'. best = Some (j', b', w') \<Longrightarrow> b \<le> b'"
      by blast
    have "merge_pick pick_at (row # rs) best = Some res" using False kv res by (simp add: row)
    moreover have some: "res \<noteq> None" using least best(1) by (simp add: least_pick_def)
    have "least_pick pick_at (row # rs) best res"
      unfolding least_pick_def
    proof (intro conjI allI impI)
      show "res = None \<longleftrightarrow> best = None \<and> (\<forall>(i, l, c, n) \<in> set (row # rs). n \<le> c)" using some False by (simp add: row)
      fix q x y assume r: "res = Some (q, x, y)"
      have x: "x \<le> b" using least r best(1) by (simp add: least_pick_def)
      show "x \<le> b'" if "best = Some (j', b', w')" for j' b' w' using best(3) [OF that] x by simp
      show "x \<le> a" if "(j', l', c', n') \<in> set (row # rs)" "c' < n'" "pick_at l' c' = Some (a, b')" for j' l' c' n' a b'
      proof (cases "(j', l', c', n') = row")
        case True
        then show ?thesis using that(3) kv x best(2) by (simp add: row)
      next
        case False
        then show ?thesis using that r least unfolding least_pick_def by auto
      qed
    qed
    ultimately show ?thesis by blast
  qed
qed

text \<open>The sweep of a stack: every key once, in ascending order, with the node its pass ends at.\<close>

definition stack_pairs :: "(node_id \<times> node_id) list list \<Rightarrow> (node_id \<times> node_id) list" where
  "stack_pairs pss = map (\<lambda>k. (k, pass pss k)) (sorted_list_of_set (all_keys pss))"

lemma finite_all_keys [simp]: "finite (all_keys pss)"
  by (simp add: all_keys_def keys_of_def)

lemma stack_disjoint:
  assumes "stack_ok pss" and "i < length pss" and "j < length pss" and "i \<noteq> j"
  shows "keys_of (pss ! i) \<inter> keys_of (pss ! j) = {}"
  using assms
proof (induction rule: stack_ok.induct)
  case (push pss ps)
  have old: "keys_of (pss ! i) \<inter> keys_of ps = {}" if "i < length pss" for i
    using push.hyps(3) that by (fastforce simp: all_keys_def)
  consider "i < length pss" "j < length pss" | "i < length pss" "j = length pss" | "i = length pss" "j < length pss"
    using push.prems by fastforce
  then show ?case
  proof cases
    case 1
    then show ?thesis using push.IH push.prems(3) by (simp add: nth_append)
  next
    case 2
    then show ?thesis using old [OF 2(1)] by (simp add: nth_append)
  next
    case 3
    then show ?thesis using old [OF 3(2)] by (simp add: nth_append Int_commute)
  qed
qed simp

text \<open>The pairs that are still under the cursors.\<close>

definition remaining :: "(node_id \<times> node_id) list list \<Rightarrow> nat list \<Rightarrow> (node_id \<times> node_id) set" where
  "remaining pss cursors = (\<Union>i < length pss. set (drop (cursors ! i) (pss ! i)))"

lemma remaining_step:
  assumes "i < length pss" and "length cursors = length pss" and "cursors ! i < length (pss ! i)"
  shows "remaining pss cursors = insert (pss ! i ! (cursors ! i)) (remaining pss (cursors[i := Suc (cursors ! i)]))"
proof -
  have d: "drop (cursors ! i) (pss ! i) = pss ! i ! (cursors ! i) # drop (Suc (cursors ! i)) (pss ! i)"
    by (rule Cons_nth_drop_Suc [symmetric, OF assms(3)])
  have "x \<in> remaining pss cursors \<longleftrightarrow>
      x = pss ! i ! (cursors ! i) \<or> x \<in> remaining pss (cursors[i := Suc (cursors ! i)])" for x
  proof -
    have "x \<in> set (drop (cursors ! j) (pss ! j)) \<longleftrightarrow>
        (j = i \<and> x = pss ! i ! (cursors ! i)) \<or> x \<in> set (drop (cursors[i := Suc (cursors ! i)] ! j) (pss ! j))" if "j < length pss" for j
      using that assms(2) d by (cases "j = i") auto
    then show ?thesis using assms(1) by (auto simp: remaining_def)
  qed
  then show ?thesis by blast
qed

lemma remaining_start: "fst ` remaining pss (replicate (length pss) 0) = all_keys pss"
proof -
  have "remaining pss (replicate (length pss) 0) = (\<Union>i < length pss. set (pss ! i))" by (simp add: remaining_def)
  also have "\<dots> = (\<Union>ps \<in> set pss. set ps)" unfolding set_conv_nth [of pss] by auto
  finally show ?thesis by (simp add: all_keys_def keys_of_def image_UN)
qed

locale layer_tables =
  fixes len :: "'l \<Rightarrow> nat"
    and pick_at :: "'l \<Rightarrow> nat \<Rightarrow> (node_id \<times> node_id) option"
    and probe :: "'l \<Rightarrow> node_id \<Rightarrow> node_id option option"
    and holds :: "'l \<Rightarrow> (node_id \<times> node_id) list \<Rightarrow> bool"
  assumes len_holds: "holds l ps \<Longrightarrow> len l = length ps"
    and pick_holds: "holds l ps \<Longrightarrow> i < length ps \<Longrightarrow> pick_at l i = Some (ps ! i)"
    and probe_holds: "holds l ps \<Longrightarrow> probe l k = Some (map_of ps k)"
    and sorted_holds: "holds l ps \<Longrightarrow> sorted_wrt (<) (map fst ps)"
begin

lemma first_hit_pass:
  assumes "list_all2 holds ls pss" and "\<forall>ps \<in> set pss. lowers ps"
  shows "\<exists>step. first_hit probe cur i ls = Some step \<and>
    (case step of
       None \<Rightarrow> pass pss cur = cur
     | Some (j, p) \<Rightarrow> i \<le> j \<and> j < i + length ls \<and> p \<noteq> cur \<and> pass pss cur = pass (drop (Suc j - i) pss) p)"
  using assms
proof (induction ls pss arbitrary: i rule: list_all2_induct)
  case (Cons l ls ps pss)
  show ?case
  proof (cases "map_of ps cur")
    case None
    obtain step where step: "first_hit probe cur (Suc i) ls = Some step"
      "case step of None \<Rightarrow> pass pss cur = cur
       | Some (j, p) \<Rightarrow> Suc i \<le> j \<and> j < Suc i + length ls \<and> p \<noteq> cur \<and> pass pss cur = pass (drop (Suc j - Suc i) pss) p"
      using Cons.IH [of "Suc i"] Cons.prems by auto
    have "hop ps cur = cur" using None by (simp add: hop_def)
    then show ?thesis using step probe_holds [OF Cons.hyps(1), of cur] None
      by (auto simp: Suc_diff_le split: option.splits)
  next
    case (Some p)
    then have "(cur, p) \<in> set ps" by (rule map_of_SomeD)
    then have "p \<noteq> cur" using Cons.prems by (auto simp: lowers_def)
    then show ?thesis using probe_holds [OF Cons.hyps(1), of cur] Some by (simp add: hop_def)
  qed
qed simp

lemma resolve_loop_pass:
  assumes h: "list_all2 holds layers pss" and l: "\<forall>ps \<in> set pss. lowers ps"
  shows "resolve_loop layers probe cur m = Some (pass (drop m pss) cur)"
proof (induction "length layers - m" arbitrary: cur m rule: less_induct)
  case less
  have n: "length pss = length layers" using list_all2_lengthD [OF h] by simp
  show ?case
  proof (cases "m < length layers")
    case False
    then show ?thesis using n by (simp add: resolve_loop.simps)
  next
    case True
    have "list_all2 holds (drop m layers) (drop m pss)" "\<forall>ps \<in> set (drop m pss). lowers ps"
      using h l by (auto intro: list_all2_dropI dest: in_set_dropD)
    from first_hit_pass [OF this, of cur m]
    obtain step where step: "first_hit probe cur m (drop m layers) = Some step"
      "case step of None \<Rightarrow> pass (drop m pss) cur = cur
       | Some (j, p) \<Rightarrow> m \<le> j \<and> j < m + length (drop m layers) \<and> p \<noteq> cur \<and>
           pass (drop m pss) cur = pass (drop (Suc j - m) (drop m pss)) p"
      by blast
    show ?thesis
    proof (cases step)
      case None
      then show ?thesis using step True by (simp add: resolve_loop.simps [of layers probe cur])
    next
      case (Some jp)
      obtain j p where jp: "jp = (j, p)" by fastforce
      then have j: "m \<le> j" "p \<noteq> cur" "pass (drop m pss) cur = pass (drop (Suc j) pss) p"
        using step(2) Some by auto
      have "resolve_loop layers probe p (Suc j) = Some (pass (drop (Suc j) pss) p)"
        using True j(1) by (intro less) simp
      then show ?thesis using step(1) Some jp j True by (simp add: resolve_loop.simps [of layers probe cur])
    qed
  qed
qed

lemma resolve_pass:
  assumes "list_all2 holds layers pss" and "\<forall>ps \<in> set pss. lowers ps"
  shows "resolve layers probe x = Some (if pass pss x = x then None else Some (pass pss x))"
  using resolve_loop_pass [OF assms, of x 0] by (simp add: resolve_def)

lemma picks:
  assumes h: "list_all2 holds ls pss" and n: "length cursors = length ls"
    and row: "(i, l, c, m) \<in> set (rows ls cursors (map len ls))"
  shows "i < length pss" and "c = cursors ! i" and "m = length (pss ! i)" and "c < m \<Longrightarrow> pick_at l c = Some (pss ! i ! c)"
proof -
  have r: "i < length ls" "l = ls ! i" "c = cursors ! i" "m = len (ls ! i)" using row n by (simp_all add: rows_in)
  have hi: "holds (ls ! i) (pss ! i)" using list_all2_nthD [OF h r(1)] .
  show "i < length pss" using r(1) list_all2_lengthD [OF h] by simp
  show "c = cursors ! i" and m: "m = length (pss ! i)" using r len_holds [OF hi] by simp_all
  show "pick_at l c = Some (pss ! i ! c)" if "c < m" using pick_holds [OF hi] that m r(2) by simp
qed

text \<open>What is picked is below everything else that remains.\<close>

lemma pick_below:
  assumes h: "list_all2 holds ls pss" and ok: "stack_ok pss" and n: "length cursors = length ls"
    and least: "least_pick pick_at (rows ls cursors (map len ls)) None (Some (i, k, v))"
    and i: "i < length pss" "cursors ! i < length (pss ! i)" "pss ! i ! (cursors ! i) = (k, v)"
    and x: "x \<in> remaining pss (cursors[i := Suc (cursors ! i)])"
  shows "k < fst x"
proof -
  have np: "length pss = length ls" using list_all2_lengthD [OF h] by simp
  have s: "sorted_wrt (<) (map fst (pss ! j))" if "j < length pss" for j
    using sorted_holds [OF list_all2_nthD [OF h]] that np by simp
  obtain j where j: "j < length pss" "x \<in> set (drop (cursors[i := Suc (cursors ! i)] ! j) (pss ! j))"
    using x by (auto simp: remaining_def)
  show ?thesis
  proof (cases "j = i")
    case True
    then obtain q where q: "x = pss ! i ! q" "cursors ! i < q" "q < length (pss ! i)"
      using j(2) n np i(1) by (auto simp: in_set_conv_nth)
    then show ?thesis using sorted_wrt_nth_less [OF s [OF i(1)], of "cursors ! i" q] i by simp
  next
    case False
    then obtain q where q: "x = pss ! j ! q" "cursors ! j \<le> q" "q < length (pss ! j)"
      using j(2) by (auto simp: in_set_conv_nth)
    have row: "(j, ls ! j, cursors ! j, len (ls ! j)) \<in> set (rows ls cursors (map len ls))"
      using j(1) n np by (simp add: rows_in)
    obtain a b where ab: "pss ! j ! (cursors ! j) = (a, b)" by fastforce
    have c: "cursors ! j < len (ls ! j)" using picks(3) [OF h n row] q by simp
    have "k \<le> a" using least row c picks(4) [OF h n row] ab unfolding least_pick_def by auto
    moreover have "a \<le> fst x"
      using sorted_wrt_nth_less [OF s [OF j(1)], of "cursors ! j" q] q ab by (cases "cursors ! j = q") auto
    moreover have "k \<in> keys_of (pss ! i)" "fst x \<in> keys_of (pss ! j)"
      using i q nth_mem [of "cursors ! i" "pss ! i"] by (force simp: keys_of_def)+
    then have "k \<noteq> fst x" using stack_disjoint [OF ok i(1) j(1)] False by auto
    ultimately show ?thesis by simp
  qed
qed

lemma merge_loop_lists:
  assumes h: "list_all2 holds ls pss" and ok: "stack_ok pss"
    and r: "\<And>x. res x = Some (if pass pss x = x then None else Some (pass pss x))"
    and n: "length cursors = length ls"
  shows "\<exists>ks. merge_loop pick_at res ls (map len ls) cursors = Some (map (\<lambda>k. (k, pass pss k)) ks) \<and>
    sorted_wrt (<) ks \<and> set ks = fst ` remaining pss cursors"
  using n
proof (induction "sum_list (map2 (-) (map len ls) cursors)" arbitrary: cursors rule: less_induct)
  case less
  note n = less.prems
  let ?rows = "rows ls cursors (map len ls)"
  have np: "length pss = length ls" using list_all2_lengthD [OF h] by simp
  obtain pick where pick: "merge_pick pick_at ?rows None = Some pick" and least: "least_pick pick_at ?rows None pick"
    using merge_pick_least [of ?rows pick_at None] picks(4) [OF h n] by (metis surj_pair)
  show ?case
  proof (cases pick)
    case None
    have "length (pss ! i) \<le> cursors ! i" if "i < length pss" for i
    proof -
      have row: "(i, ls ! i, cursors ! i, len (ls ! i)) \<in> set ?rows" using that n np by (simp add: rows_in)
      then have "len (ls ! i) \<le> cursors ! i" using least None unfolding least_pick_def by auto
      then show ?thesis using picks(3) [OF h n row] by simp
    qed
    then show ?thesis using pick None by (simp add: merge_loop.simps [of pick_at res ls "map len ls" cursors] remaining_def)
  next
    case (Some t)
    obtain i k v where t: "t = (i, k, v)" by (rule prod_cases3)
    obtain l c m where row: "(i, l, c, m) \<in> set ?rows" "c < m" "pick_at l c = Some (k, v)"
      using merge_pick_row [OF pick [unfolded Some t]] by auto
    note p = picks [OF h n row(1)]
    have i: "i < length pss" "cursors ! i < length (pss ! i)" "pss ! i ! (cursors ! i) = (k, v)" using p row by auto
    let ?cs = "cursors[i := Suc (cursors ! i)]"
    have "sum_list (map2 (-) (map len ls) ?cs) < sum_list (map2 (-) (map len ls) cursors)"
      using cursor_sum_less [of i cursors "map len ls"] i(1) np n p row by (simp add: rows_in)
    from less.hyps [OF this] obtain ks where ks: "merge_loop pick_at res ls (map len ls) ?cs = Some (map (\<lambda>k. (k, pass pss k)) ks)"
      "sorted_wrt (<) ks" "set ks = fst ` remaining pss ?cs" using n by auto
    have "(k, v) \<in> set (pss ! i)" using i nth_mem by metis
    moreover have "distinct (map fst (pss ! i))"
      using sorted_holds [OF list_all2_nthD [OF h]] i(1) np by (simp add: strict_sorted_iff)
    ultimately have kv: "map_of (pss ! i) k = Some v" "k \<in> all_keys pss"
      using i(1) by (force simp: all_keys_def keys_of_def)+
    have "pass pss v = pass pss k" "pass pss k \<noteq> k"
      using pass_value [OF ok nth_mem [OF i(1)] kv(1)] pass_eq_iff [OF stack_lowers [OF ok], of k] kv(2) by auto
    then have "merge_loop pick_at res ls (map len ls) cursors = Some (map (\<lambda>k. (k, pass pss k)) (k # ks))"
      using pick Some t ks(1) r [of v] by (simp add: merge_loop.simps [of pick_at res ls "map len ls" cursors])
    moreover have "sorted_wrt (<) (k # ks)"
      using ks pick_below [OF h ok n least [unfolded Some t] i] by auto
    moreover have "set (k # ks) = fst ` remaining pss cursors"
      using remaining_step [OF i(1) _ i(2)] ks(3) i(3) n np by simp
    ultimately show ?thesis by blast
  qed
qed

lemma merge_pass:
  assumes "list_all2 holds ls pss" and "stack_ok pss"
    and "\<And>x. res x = Some (if pass pss x = x then None else Some (pass pss x))"
  shows "merge_loop pick_at res ls (map len ls) (replicate (length ls) 0) = Some (stack_pairs pss)"
proof -
  obtain ks where ks: "merge_loop pick_at res ls (map len ls) (replicate (length ls) 0) = Some (map (\<lambda>k. (k, pass pss k)) ks)"
    "sorted_wrt (<) ks" "set ks = all_keys pss"
    using merge_loop_lists [OF assms, of "replicate (length ls) 0"] remaining_start [of pss] list_all2_lengthD [OF assms(1)] by auto
  have "ks = sorted_list_of_set (all_keys pss)"
    using ks(2,3) by (intro strict_sorted_unique) auto
  then show ?thesis using ks(1) by (simp add: stack_pairs_def)
qed

end

section \<open>A stack of opened files\<close>

definition shared_holds :: "puffin_base \<Rightarrow> (node_id \<times> node_id) list \<Rightarrow> bool" where
  "shared_holds b ps \<longleftrightarrow> (\<exists>snap es indexed. serves b snap es indexed \<and> ps = snap_global snap)"

definition overlay_holds :: "scope_id \<Rightarrow> puffin_base \<Rightarrow> (node_id \<times> node_id) list \<Rightarrow> bool" where
  "overlay_holds s b ps \<longleftrightarrow> (\<exists>snap es indexed. serves b snap es indexed \<and> ps = scope_pairs snap s)"

lemma table_ready_pair: "table_ready t data ps \<Longrightarrow> i < length ps \<Longrightarrow> pair_at t data i = Some (ps ! i)"
  by (simp add: table_ready_def table_holds_def pair_at_def reads_as_def)

lemma table_ready_count: "table_ready t data ps \<Longrightarrow> pt_count t = length ps"
  by (auto simp: table_ready_def dest: table_holds_count)

lemma serves_shared:
  assumes "serves b snap es indexed"
  obtains t where "pb_shared b = Some t" and "table_ready t (pb_mmap b) (snap_global snap)"
  using assms by (auto simp: serves_def base_holds_def)

lemma serves_overlay:
  assumes "serves b snap es indexed"
  obtains "fmlookup (pb_overlays b) s = None" and "scope_pairs snap s = []"
  | t where "fmlookup (pb_overlays b) s = Some t" and "table_ready t (pb_mmap b) (scope_pairs snap s)"
proof (cases "fmlookup (pb_overlays b) s")
  case None
  then show thesis using assms base_holds_overlay(1) [of table_ready b snap es indexed s] that(1)
    by (simp add: serves_def scope_pairs_def)
next
  case (Some t)
  then show thesis using assms base_holds_overlay(2) [of table_ready b snap es indexed s t] that(2)
    by (auto simp: serves_def scope_pairs_def)
qed

lemma scope_pairs_sorted: "snapshot_ok snap \<Longrightarrow> sorted_wrt (<) (map fst (scope_pairs snap s))"
  by (auto simp: snapshot_ok_def scope_pairs_def dest!: map_of_SomeD split: option.splits)

interpretation shared_tables: layer_tables shared_len shared_pair_at pb_shared_parent shared_holds
proof
  fix b ps assume "shared_holds b ps"
  then obtain snap es indexed where b: "serves b snap es indexed" and ps: "ps = snap_global snap" by (auto simp: shared_holds_def)
  obtain t where t: "pb_shared b = Some t" "table_ready t (pb_mmap b) ps" using serves_shared [OF b] ps by blast
  show "shared_len b = length ps" using t table_ready_count by (simp add: shared_len_def)
  show "shared_pair_at b i = Some (ps ! i)" if "i < length ps" for i
    using t table_ready_pair [OF _ that] by (simp add: shared_pair_at_def)
  show "pb_shared_parent b k = Some (map_of ps k)" for k using serves_answers(1) [OF b] ps by (simp add: answers_def)
  show "sorted_wrt (<) (map fst ps)" using b ps by (simp add: serves_def snapshot_ok_def)
qed

interpretation overlay_tables: layer_tables "\<lambda>b. overlay_len b s" "\<lambda>b i. overlay_pair_at b s i"
  "\<lambda>b x. pb_overlay_parent b s x" "overlay_holds s" for s
proof
  fix b ps assume "overlay_holds s b ps"
  then obtain snap es indexed where b: "serves b snap es indexed" and ps: "ps = scope_pairs snap s" by (auto simp: overlay_holds_def)
  show "overlay_len b s = length ps"
    using ps table_ready_count by (cases rule: serves_overlay [OF b, of s]) (auto simp: overlay_len_def)
  show "overlay_pair_at b s i = Some (ps ! i)" if "i < length ps" for i
    using ps table_ready_pair [OF _ that] that by (cases rule: serves_overlay [OF b, of s]) (auto simp: overlay_pair_at_def)
  show "pb_overlay_parent b s k = Some (map_of ps k)" for k using serves_answers(1) [OF b] ps by (simp add: answers_def)
  show "sorted_wrt (<) (map fst ps)" using b ps scope_pairs_sorted by (simp add: serves_def)
qed

text \<open>
  The invariant of a stack. \<open>ls\<close> lists what the layers store, oldest first: the tables and the
  registry entries of each.
\<close>

type_synonym layer_contents = "forest_snapshot \<times> (node_id \<times> scope_id) list"

definition layer_serves :: "puffin_base \<Rightarrow> layer_contents \<Rightarrow> bool" where
  "layer_serves b l \<longleftrightarrow> (\<exists>indexed. serves b (fst l) (snd l) indexed)"

abbreviation globals :: "layer_contents list \<Rightarrow> (node_id \<times> node_id) list list" where
  "globals ls \<equiv> map (\<lambda>l. snap_global (fst l)) ls"

abbreviation overlays_in :: "layer_contents list \<Rightarrow> scope_id \<Rightarrow> (node_id \<times> node_id) list list" where
  "overlays_in ls s \<equiv> map (\<lambda>l. scope_pairs (fst l) s) ls"

definition stack_serves :: "layered_base \<Rightarrow> layer_contents list \<Rightarrow> bool" where
  "stack_serves lb ls \<longleftrightarrow> list_all2 layer_serves (lb_layers lb) ls \<and> stack_ok (globals ls) \<and> (\<forall>s. stack_ok (overlays_in ls s))"

lemma stack_holds:
  assumes "stack_serves lb ls"
  shows "list_all2 shared_holds (lb_layers lb) (globals ls)" and "list_all2 (overlay_holds s) (lb_layers lb) (overlays_in ls s)"
proof -
  have "layer_serves b l \<Longrightarrow> shared_holds b (snap_global (fst l))" "layer_serves b l \<Longrightarrow> overlay_holds s b (scope_pairs (fst l) s)" for b l
    unfolding layer_serves_def shared_holds_def overlay_holds_def by blast+
  then show "list_all2 shared_holds (lb_layers lb) (globals ls)" and "list_all2 (overlay_holds s) (lb_layers lb) (overlays_in ls s)"
    using assms by (auto simp: stack_serves_def list.rel_map elim!: list_all2_mono)
qed

lemma stack_parents:
  assumes "stack_serves lb ls"
  shows "lb_shared_parent lb x = Some (parent_of (pass (globals ls)) x)"
    and "lb_overlay_parent lb s x = Some (parent_of (pass (overlays_in ls s)) x)"
proof -
  have "stack_ok (globals ls)" "stack_ok (overlays_in ls s)" using assms by (simp_all add: stack_serves_def)
  note l = this [THEN stack_lowers]
  show "lb_shared_parent lb x = Some (parent_of (pass (globals ls)) x)"
    and "lb_overlay_parent lb s x = Some (parent_of (pass (overlays_in ls s)) x)"
    using shared_tables.resolve_pass [OF stack_holds(1) [OF assms] l(1)]
      overlay_tables.resolve_pass [OF stack_holds(2) [OF assms] l(2)]
    by (simp_all add: lb_shared_parent_def lb_overlay_parent_def parent_of_def)
qed

lemma stack_sweeps:
  assumes "stack_serves lb ls"
  shows "lb_for_each_shared_pair lb = Some (stack_pairs (globals ls))"
    and "lb_for_each_overlay_pair lb s = Some (stack_pairs (overlays_in ls s))"
proof -
  have ok: "stack_ok (globals ls)" "stack_ok (overlays_in ls s)" using assms by (simp_all add: stack_serves_def)
  show "lb_for_each_shared_pair lb = Some (stack_pairs (globals ls))"
    using shared_tables.merge_pass [OF stack_holds(1) [OF assms] ok(1), of "lb_shared_parent lb"]
    by (simp add: lb_for_each_shared_pair_def lb_merge_def stack_parents [OF assms] parent_of_def)
  show "lb_for_each_overlay_pair lb s = Some (stack_pairs (overlays_in ls s))"
    using overlay_tables.merge_pass [OF stack_holds(2) [OF assms] ok(2), of "lb_overlay_parent lb s"]
    by (simp add: lb_for_each_overlay_pair_def lb_merge_def stack_parents [OF assms] parent_of_def)
qed

lemma union_scopes_set: "set (union_scopes out ss) = set out \<union> set ss" "distinct out \<Longrightarrow> distinct (union_scopes out ss)"
  by (induction out ss rule: union_scopes.induct) auto

lemma scopes_of_layers_spec:
  assumes "list_all2 layer_serves bs ls" and "distinct out"
  shows "\<exists>ss. scopes_of_layers root bs out = Some ss \<and> distinct ss \<and>
    set ss = set out \<union> {s. \<exists>l \<in> set ls. (root, s) \<in> set (snd l)}"
  using assms
proof (induction bs ls arbitrary: out rule: list_all2_induct)
  case (Cons b bs l ls)
  let ?ss = "map snd (filter (\<lambda>e. fst e = root) (snd l))"
  have "pb_scopes_for_root b root = Some ?ss"
    using Cons.hyps(1) serves_answers(1) [of b "fst l" "snd l"] by (auto simp: layer_serves_def answers_def)
  moreover obtain ss where "scopes_of_layers root bs (union_scopes out ?ss) = Some ss" "distinct ss"
    "set ss = set (union_scopes out ?ss) \<union> {s. \<exists>l \<in> set ls. (root, s) \<in> set (snd l)}"
    using Cons.IH [of "union_scopes out ?ss"] union_scopes_set(2) [OF Cons.prems] by blast
  ultimately show ?case by (auto simp: union_scopes_set(1) image_def)
qed simp

lemma stack_scopes:
  assumes "stack_serves lb ls"
  shows "\<exists>ss. lb_scopes_for_root lb root = Some ss \<and> distinct ss \<and> set ss = {s. \<exists>l \<in> set ls. (root, s) \<in> set (snd l)}"
    and "set (lb_scopes lb) = {s. \<exists>l \<in> set ls. s \<in> fst ` set (snap_scopes (fst l))}"
proof -
  have h: "list_all2 layer_serves (lb_layers lb) ls" using assms by (simp add: stack_serves_def)
  show "\<exists>ss. lb_scopes_for_root lb root = Some ss \<and> distinct ss \<and> set ss = {s. \<exists>l \<in> set ls. (root, s) \<in> set (snd l)}"
    using scopes_of_layers_spec [OF h, of "[]" root] by (simp add: lb_scopes_for_root_def)
  have "set (concat (map overlay_scopes bs)) = {s. \<exists>l \<in> set ls. s \<in> fst ` set (snap_scopes (fst l))}"
    if "list_all2 layer_serves bs ls" for bs
    using that
  proof (induction bs ls rule: list_all2_induct)
    case (Cons b bs l ls)
    have "overlay_scopes b = map fst (snap_scopes (fst l))"
      using Cons.hyps(1) serves_answers(1) [of b "fst l" "snd l"] by (auto simp: layer_serves_def answers_def)
    with Cons.IH show ?case by auto
  qed simp
  then show "set (lb_scopes lb) = {s. \<exists>l \<in> set ls. s \<in> fst ` set (snap_scopes (fst l))}" using h by (simp add: lb_scopes_def)
qed

end
