(* ===== verification/Forest_Members.thy ===== *)
theory Forest_Members
  imports Forest_Fold
begin

text \<open>
  Listing a component: \<^verbatim>\<open>Walk\<close> and \<^verbatim>\<open>ScopedForest::members\<close> of \<^verbatim>\<open>src/core/scoped.rs\<close>. A capped walk
  goes down the recorded children of the memtable and of the base, first through the overlay and
  then through the shared tier. Caps and budgets are machine words, and the budget wraps around.

  The file shows that the walk ends, that for every cap but the two largest words a complete answer
  is exactly the component of the node in the graph the scope sees, each member once, and that a
  truncated answer has exactly as many members as the cap, all of them real, and leaves at least one
  out. This rests on the fetch budget of one more than the cap, which the walk's comment argues for.
  At the largest word the budget wraps to zero, and the walk stops at its seeds.
\<close>

section \<open>The walk\<close>

datatype members = Complete "node_id list" | Truncated "node_id list"

fun nodes :: "members \<Rightarrow> node_id list" where
  "nodes (Complete v) = v"
| "nodes (Truncated v) = v"

fun is_truncated :: "members \<Rightarrow> bool" where
  "is_truncated (Complete v) = False"
| "is_truncated (Truncated v) = True"

record walk =
  cap :: u64
  seen :: "node_id fset"
  out :: "node_id list"
  truncated :: bool

definition walk_new :: "u64 \<Rightarrow> walk" where
  "walk_new c = \<lparr>cap = c, seen = {||}, out = [], truncated = False\<rparr>"

definition admit :: "walk \<Rightarrow> node_id \<Rightarrow> bool \<times> walk" where
  "admit w n =
     (if n |\<in>| seen w then (False, w)
      else let w = w\<lparr>seen := finsert n (seen w)\<rparr> in
        if length (out w) \<ge> unat (cap w) then (False, w\<lparr>truncated := True\<rparr>)
        else (True, w\<lparr>out := out w @ [n]\<rparr>))"

text \<open>
  The two admission loops of \<^verbatim>\<open>expand\<close>: admit each node, push the admitted ones, stop once
  truncated. The frontier is a stack, its top first.
\<close>

fun admit_all :: "walk \<Rightarrow> node_id list \<Rightarrow> node_id list \<Rightarrow> walk \<times> node_id list" where
  "admit_all w [] frontier = (w, frontier)"
| "admit_all w (c # cs) frontier =
     (let (pushed, w) = admit w c;
          frontier = (if pushed then c # frontier else frontier)
      in if truncated w then (w, frontier) else admit_all w cs frontier)"

lemma admit_measure:
  "admit w n = (b, w') \<Longrightarrow> cap w' = cap w \<and>
     2 * (unat (cap w') - length (out w')) + (if b then 1 else 0) \<le> 2 * (unat (cap w) - length (out w))"
  by (auto simp: admit_def Let_def split: if_splits)

lemma admit_all_measure:
  "admit_all w cs fs = (w', fs') \<Longrightarrow> cap w' = cap w \<and>
     2 * (unat (cap w') - length (out w')) + length fs' \<le> 2 * (unat (cap w) - length (out w)) + length fs"
proof (induction cs arbitrary: w fs)
  case (Cons c cs)
  obtain b w1 where a: "admit w c = (b, w1)" by (cases "admit w c")
  from Cons.IH [of w1 "if b then c # fs else fs"] admit_measure [OF a] Cons.prems a show ?case
    by (auto simp: Let_def split: if_splits)
qed simp

function expand_loop :: "(node_id \<Rightarrow> nat \<Rightarrow> node_id list) \<Rightarrow> walk \<Rightarrow> node_id list \<Rightarrow> walk" where
  "expand_loop kids_of w [] = w"
| "expand_loop kids_of w (k # frontier) =
     (let (w, frontier) = admit_all w (kids_of k (unat (cap w + 1))) frontier
      in if truncated w then w else expand_loop kids_of w frontier)"
  by pat_completeness auto
termination
proof (relation "measure (\<lambda>(_, w, fs). 2 * (unat (cap w) - length (out w)) + length fs)", goal_cases)
  case (2 kids_of w k frontier x w' fs')
  then have "admit_all w (kids_of k (unat (cap w + 1))) frontier = (w', fs')" by simp
  from admit_all_measure [OF this] show ?case by auto
qed simp

definition expand :: "(node_id \<Rightarrow> nat \<Rightarrow> node_id list) \<Rightarrow> walk \<Rightarrow> node_id list \<Rightarrow> walk" where
  "expand kids_of w seeds =
     (let (w, frontier) = admit_all w seeds []
      in if truncated w then w else expand_loop kids_of w frontier)"

definition finish :: "walk \<Rightarrow> members" where
  "finish w = (if truncated w then Truncated (out w) else Complete (out w))"

section \<open>Members of a component\<close>

definition shared_kids :: "tier \<Rightarrow> node_id \<Rightarrow> nat \<Rightarrow> node_id list" where
  "shared_kids t k limit =
     (let out = children_of (global (mem t)) k limit [] in
      case t_base t of None \<Rightarrow> out | Some b \<Rightarrow> shared_children b k (limit - length out) out)"

definition overlay_kids :: "tier \<Rightarrow> scope_id \<Rightarrow> node_id \<Rightarrow> nat \<Rightarrow> node_id list" where
  "overlay_kids t scope k limit =
     (let out = (case fmlookup (overlays (mem t)) scope of
           None \<Rightarrow> [] | Some o' \<Rightarrow> children_of o' k limit []) in
      case t_base t of None \<Rightarrow> out | Some b \<Rightarrow> overlay_children b scope k (limit - length out) out)"

definition saturating_add :: "u64 \<Rightarrow> u64 \<Rightarrow> u64" where
  "saturating_add a b = (if unat a + unat b < 2 ^ 64 then a + b else - 1)"

definition members_of :: "scoped_forest \<Rightarrow> scope_id \<Rightarrow> node_id \<Rightarrow> u64 \<Rightarrow>
    (members option \<times> scoped_forest) option" where
  "members_of f scope node c =
     (if \<not> member_index f then Some (None, f)
      else if (case t_base (tier_of f) of None \<Rightarrow> False | Some b \<Rightarrow> \<not> has_member_index b) then Some (None, f)
      else do {
        (shared, t) \<leftarrow> shared_root (tier_of f) node False;
        if scope = GLOBAL_SCOPE
        then Some (Some (finish (expand (shared_kids t) (walk_new c) [shared])), f\<lparr>tier_of := t\<rparr>)
        else do {
          (root, t) \<leftarrow> overlay_root t scope shared False;
          let seeds = expand (overlay_kids t scope) (walk_new (saturating_add c 1)) [root];
          Some (Some (finish (expand (shared_kids t) (walk_new c) (out seeds))), f\<lparr>tier_of := t\<rparr>) } })"

section \<open>What a capped walk returns\<close>

definition kid_edges :: "('a \<Rightarrow> 'a list) \<Rightarrow> ('a \<times> 'a) set" where
  "kid_edges C = {(k, c). c \<in> set (C k)}"

definition reach :: "('a \<Rightarrow> 'a list) \<Rightarrow> 'a set \<Rightarrow> 'a set" where
  "reach C A = (kid_edges C)\<^sup>* `` A"

lemma reach_base: "A \<subseteq> reach C A"
  by (auto simp: reach_def)

lemma reach_step: "k \<in> reach C A \<Longrightarrow> c \<in> set (C k) \<Longrightarrow> c \<in> reach C A"
  unfolding reach_def kid_edges_def by (auto intro: rtrancl_into_rtrancl)

lemma reach_least:
  assumes "A \<subseteq> B" and closed: "\<And>k c. k \<in> B \<Longrightarrow> c \<in> set (C k) \<Longrightarrow> c \<in> B"
  shows "reach C A \<subseteq> B"
proof
  fix x assume "x \<in> reach C A"
  then obtain a where "a \<in> A" "(a, x) \<in> (kid_edges C)\<^sup>*" by (auto simp: reach_def)
  from this(2) \<open>a \<in> A\<close> show "x \<in> B"
    by (induction rule: rtrancl_induct) (use assms in \<open>auto simp: kid_edges_def\<close>)
qed

text \<open>The invariant of a walk that is to list the set \<open>R\<close>.\<close>

definition walking :: "u64 \<Rightarrow> node_id set \<Rightarrow> walk \<Rightarrow> bool" where
  "walking c R w \<longleftrightarrow> cap w = c \<and> distinct (out w) \<and> set (out w) \<subseteq> R \<and> length (out w) \<le> unat c \<and>
     (if truncated w then length (out w) = unat c \<and> (\<exists>z \<in> R. z \<notin> set (out w))
      else fset (seen w) = set (out w))"

lemma walking_new: "walking c R (walk_new c)"
  by (simp add: walking_def walk_new_def)

lemma admit_all_spec:
  assumes "walking c R w" and "\<not> truncated w" and "set cs \<subseteq> R" and "admit_all w cs fs = (w', fs')"
  shows "walking c R w' \<and>
    (\<not> truncated w' \<longrightarrow> set (out w') = set (out w) \<union> set cs \<and> set fs' = set fs \<union> (set cs - set (out w)))"
  using assms
proof (induction cs arbitrary: w fs)
  case (Cons n cs)
  have n: "n \<in> R" "set cs \<subseteq> R" using Cons.prems(3) by auto
  have seen: "fset (seen w) = set (out w)" using Cons.prems(1,2) by (simp add: walking_def)
  show ?case
  proof (cases "n |\<in>| seen w")
    case True
    then have "admit w n = (False, w)" by (simp add: admit_def)
    with Cons.IH [OF Cons.prems(1,2) n(2), of fs] Cons.prems n show ?thesis using True seen by auto
  next
    case False
    then have nout: "n \<notin> set (out w)" using seen by simp
    show ?thesis
    proof (cases "length (out w) \<ge> unat (cap w)")
      case True
      with False have "admit w n = (False, w\<lparr>seen := finsert n (seen w), truncated := True\<rparr>)"
        by (simp add: admit_def Let_def)
      with Cons.prems n nout True show ?thesis by (auto simp: walking_def)
    next
      case room: False
      define w1 where "w1 = w\<lparr>seen := finsert n (seen w), out := out w @ [n]\<rparr>"
      have a: "admit w n = (True, w1)" using False room by (simp add: admit_def Let_def w1_def)
      have w1: "walking c R w1" "\<not> truncated w1"
        using Cons.prems(1,2) n nout room seen by (auto simp: walking_def w1_def)
      from Cons.IH [OF w1 n(2), of "n # fs"] Cons.prems(4) a w1(2) nout show ?thesis
        by (auto simp: w1_def)
    qed
  qed
qed auto

lemma unat_max_u64: "unat (- 1 :: u64) = 2 ^ 64 - 1"
  by (simp add: unsigned_minus_1_eq_mask mask_eq_exp_minus_1)

lemma unat_inc: "c \<noteq> - 1 \<Longrightarrow> unat (c + 1 :: u64) = unat c + 1"
proof -
  assume c: "c \<noteq> - 1"
  have "c + 1 \<noteq> 0" using c by (metis add.commute add_eq_0_iff)
  then show ?thesis using unatSuc [of c] by (simp add: add.commute)
qed

lemma expand_loop_spec:
  assumes dist: "\<And>k. distinct (C k)" and word: "c \<noteq> - 1"
    and R: "\<And>k c. k \<in> R \<Longrightarrow> c \<in> set (C k) \<Longrightarrow> c \<in> R"
    and "walking c R w" and "\<not> truncated w" and "set fs \<subseteq> set (out w)"
    and "\<And>k. k \<in> set (out w) \<Longrightarrow> k \<notin> set fs \<Longrightarrow> set (C k) \<subseteq> set (out w)"
  defines "ch \<equiv> \<lambda>k lim. take lim (C k)"
  shows "walking c R (expand_loop ch w fs) \<and> (\<not> truncated (expand_loop ch w fs) \<longrightarrow>
    set (out w) \<subseteq> set (out (expand_loop ch w fs)) \<and>
    (\<forall>k \<in> set (out (expand_loop ch w fs)). set (C k) \<subseteq> set (out (expand_loop ch w fs))))"
  using assms(4-7)
proof (induction "2 * (unat c - length (out w)) + length fs" arbitrary: w fs rule: less_induct)
  case less
  show ?case
  proof (cases fs)
    case Nil
    with less.prems show ?thesis by auto
  next
    case (Cons k gs)
    let ?cs = "take (unat (cap w + 1)) (C k)"
    obtain w1 fs1 where a: "admit_all w ?cs gs = (w1, fs1)" by (cases "admit_all w ?cs gs")
    have cap: "cap w = c" "unat (c + 1) = unat c + 1" using less.prems(1) unat_inc [OF word] by (simp_all add: walking_def)
    have "k \<in> R" using less.prems(1,3) Cons by (auto simp: walking_def)
    then have "set ?cs \<subseteq> R" using R by (auto dest: in_set_takeD)
    note A = admit_all_spec [OF less.prems(1,2) this a]
    have step: "expand_loop ch w fs = (if truncated w1 then w1 else expand_loop ch w1 fs1)"
      using a by (simp add: Cons ch_def)
    show ?thesis
    proof (cases "truncated w1")
      case True
      with A step show ?thesis by simp
    next
      case False
      with A have w1: "walking c R w1" "set (out w1) = set (out w) \<union> set ?cs"
        "set fs1 = set gs \<union> (set ?cs - set (out w))" by auto
      have "length (C k) \<le> unat c"
      proof (rule ccontr)
        assume "\<not> length (C k) \<le> unat c"
        then have "card (set ?cs) = unat c + 1" using dist cap by (simp add: distinct_card)
        moreover have "card (set (out w1)) \<le> unat c" using w1(1) by (simp add: walking_def distinct_card)
        moreover have "set ?cs \<subseteq> set (out w1)" using w1(2) by auto
        ultimately show False using card_mono [of "set (out w1)" "set ?cs"] by simp
      qed
      then have all: "set ?cs = set (C k)" using cap by simp
      have closed: "set (C q) \<subseteq> set (out w1)" if "q \<in> set (out w1)" "q \<notin> set fs1" for q
        using that less.prems(4) [of q] w1(2,3) all Cons by (cases "q = k") auto
      have sub: "set fs1 \<subseteq> set (out w1)" using less.prems(3) w1(2,3) Cons by auto
      have "2 * (unat c - length (out w1)) + length fs1 < 2 * (unat c - length (out w)) + length fs"
        using admit_all_measure [OF a] cap Cons by auto
      from less.hyps [OF this w1(1) False sub closed] show ?thesis
        using w1(2) False by (auto simp: step)
    qed
  qed
qed

text \<open>The outcome of a whole walk from a list of seeds.\<close>

lemma expand_spec:
  fixes C :: "node_id \<Rightarrow> node_id list" and c :: u64 and seeds :: "node_id list"
  assumes dist: "\<And>k. distinct (C k)" and word: "c \<noteq> - 1"
  defines "w \<equiv> expand (\<lambda>k lim. take lim (C k)) (walk_new c) seeds"
    and "R \<equiv> reach C (set seeds)"
  shows "distinct (out w)" and "set (out w) \<subseteq> R" and "\<not> truncated w \<Longrightarrow> set (out w) = R"
    and "truncated w \<Longrightarrow> length (out w) = unat c \<and> (\<exists>z \<in> R. z \<notin> set (out w))" and "length (out w) \<le> unat c"
proof -
  obtain w0 fs where a: "admit_all (walk_new c) seeds [] = (w0, fs)"
    by (cases "admit_all (walk_new c) seeds []")
  have new: "\<not> truncated (walk_new c)" "out (walk_new c) = []" by (simp_all add: walk_new_def)
  have "set seeds \<subseteq> R" by (simp add: R_def reach_base)
  note A = admit_all_spec [OF walking_new new(1) this a]
  have w: "w = (if truncated w0 then w0 else expand_loop (\<lambda>k lim. take lim (C k)) w0 fs)"
    by (simp add: w_def expand_def a)
  have "walking c R w \<and> (\<not> truncated w \<longrightarrow> set seeds \<subseteq> set (out w) \<and> (\<forall>k \<in> set (out w). set (C k) \<subseteq> set (out w)))"
  proof (cases "truncated w0")
    case True
    with A w show ?thesis by simp
  next
    case False
    with A new have w0: "walking c R w0" "set (out w0) = set seeds" "set fs = set seeds" by auto
    have "k \<in> R \<Longrightarrow> q \<in> set (C k) \<Longrightarrow> q \<in> R" for k q unfolding R_def by (rule reach_step)
    from expand_loop_spec [where C = C and fs = fs, OF dist word this w0(1) False] w0(2,3) show ?thesis
      using False by (simp add: w)
  qed
  then have W: "walking c R w"
    and closed: "\<not> truncated w \<Longrightarrow> set seeds \<subseteq> set (out w)"
      "\<not> truncated w \<Longrightarrow> k \<in> set (out w) \<Longrightarrow> set (C k) \<subseteq> set (out w)" for k by auto
  show "distinct (out w)" "set (out w) \<subseteq> R" "length (out w) \<le> unat c"
    using W by (simp_all add: walking_def)
  show "truncated w \<Longrightarrow> length (out w) = unat c \<and> (\<exists>z \<in> R. z \<notin> set (out w))"
    using W by (simp add: walking_def)
  show "set (out w) = R" if "\<not> truncated w"
  proof
    show "set (out w) \<subseteq> R" using W by (simp add: walking_def)
    show "R \<subseteq> set (out w)"
      unfolding R_def using closed [OF that] by (intro reach_least) auto
  qed
qed

section \<open>Child lists that cover a table\<close>

text \<open>
  What a child index promises about a parent function: children are keys of the table, larger than
  their recorded parent and in the same component, every key is somebody's child, no list has a
  repetition.
\<close>

definition covers :: "('a::wellorder \<Rightarrow> 'a list) \<Rightarrow> ('a \<Rightarrow> 'a option) \<Rightarrow> bool" where
  "covers C q \<longleftrightarrow> (\<forall>k. distinct (C k)) \<and>
     (\<forall>k c. c \<in> set (C k) \<longrightarrow> k < c \<and> root_of q k = root_of q c \<and> q c \<noteq> None) \<and>
     (\<forall>c. q c \<noteq> None \<longrightarrow> (\<exists>k. c \<in> set (C k)))"

lemma coversD:
  assumes "covers C q"
  shows "distinct (C k)" and "c \<in> set (C k) \<Longrightarrow> k < c"
    and "c \<in> set (C k) \<Longrightarrow> root_of q k = root_of q c" and "c \<in> set (C k) \<Longrightarrow> q c \<noteq> None"
    and "q c \<noteq> None \<Longrightarrow> \<exists>k. c \<in> set (C k)"
  using assms unfolding covers_def by blast+

lemma covers_empty: "covers (\<lambda>_. []) (\<lambda>_. None)"
  by (simp add: covers_def)

lemma index_covers: "index_ok d \<Longrightarrow> covers (kids d) (par d)"
  unfolding index_ok_def covers_def by blast

lemma reach_covers:
  assumes c: "covers C q" and dec: "decreasing q"
  shows "x \<in> reach C {root_of q x}"
proof (induction x rule: less_induct)
  case (less x)
  show ?case
  proof (cases "q x")
    case None
    then show ?thesis using reach_base by (fastforce simp: root_of_None)
  next
    case (Some y)
    then obtain k where k: "x \<in> set (C k)" using coversD(5) [OF c] by blast
    with less.IH [OF coversD(2) [OF c k]] coversD(3) [OF c k] show ?thesis
      by (auto intro: reach_step)
  qed
qed

lemma reach_root:
  assumes c: "covers C q" and "x \<in> reach C {r}"
  shows "root_of q x = root_of q r"
proof -
  have "reach C {r} \<subseteq> {x. root_of q x = root_of q r}"
    using coversD(3) [OF c] by (intro reach_least) auto
  with assms(2) show ?thesis by blast
qed

lemma reach_class:
  assumes "covers C q" and "decreasing q" and "root_of q r = r"
  shows "reach C {r} = {y. root_of q y = r}"
proof (intro set_eqI iffI)
  fix y assume "y \<in> reach C {r}"
  from reach_root [OF assms(1) this] assms(3) show "y \<in> {y. root_of q y = r}" by simp
next
  fix y assume "y \<in> {y. root_of q y = r}"
  with reach_covers [OF assms(1,2), of y] show "y \<in> reach C {r}" by simp
qed

lemma reach_Un: "reach C A = (\<Union>a \<in> A. reach C {a})"
  by (auto simp: reach_def)

text \<open>The lists of a memtable and of the base below it together cover the composed table.\<close>

lemma covers_layered:
  assumes K: "covers K p" and C: "covers C q" and l: "layered q p"
  shows "covers (\<lambda>k. K k @ C k) (q ++ p)"
proof -
  have off: "q k = None" if "c \<in> set (K k)" for k c
  proof -
    have c: "p c \<noteq> None" "root_of p k = root_of p c" using coversD(3,4) [OF K that] by auto
    show ?thesis
    proof (cases "p k")
      case None
      then have "root_of p c = k" using c(2) by (simp add: root_of_None)
      with c(1) have "k \<in> ran p" using root_in_ran [OF layeredD(2) [OF l], of c] by blast
      with l show ?thesis by (auto simp: layered_def)
    qed (use l in \<open>auto simp: layered_def\<close>)
  qed
  have qc: "p c \<noteq> None \<Longrightarrow> q c = None" for c using l by (auto simp: layered_def)
  note R = layered_root [OF l]
  have res: "root_of q x = (case q x of None \<Rightarrow> x | Some b \<Rightarrow> b)" for x
    using l root_of_resolved_map [of q x] by (simp add: layered_def resolved_map_def)
  have R': "root_of (q ++ p) x = root_of p (root_of q x)" for x
    by (simp add: R res split: option.split)
  have "set (K k) \<inter> set (C k) = {}" for k
    using coversD(4) [OF K] coversD(4) [OF C] qc by blast
  moreover have "k < c \<and> root_of (q ++ p) k = root_of (q ++ p) c \<and> (q ++ p) c \<noteq> None"
    if "c \<in> set (K k @ C k)" for k c
  proof (cases "c \<in> set (K k)")
    case True
    from coversD(2-4) [OF K True] off [OF True] qc [of c] show ?thesis by (auto simp: R)
  next
    case False
    with that have "c \<in> set (C k)" by simp
    from coversD(2-4) [OF C this] show ?thesis by (auto simp: R')
  qed
  moreover have "\<exists>k. c \<in> set (K k @ C k)" if "(q ++ p) c \<noteq> None" for c
    using that coversD(5) [OF K, of c] coversD(5) [OF C, of c] by (auto simp: map_add_None)
  ultimately show ?thesis
    using coversD(1) [OF K] coversD(1) [OF C] unfolding covers_def by simp
qed

section \<open>Correctness of the members query\<close>

text \<open>What a base with a member index promises about its child lists.\<close>

definition children_ok :: "routing_base \<Rightarrow> bool" where
  "children_ok b \<longleftrightarrow> (\<exists>C D.
     (\<forall>k lim o'. shared_children b k lim o' = o' @ take lim (C k)) \<and> covers C (shared_parent b) \<and>
     (\<forall>s k lim o'. overlay_children b s k lim o' = o' @ take lim (D s k)) \<and>
     (\<forall>s. covers (D s) (overlay_parent b s)))"

definition indexed_base :: "tier \<Rightarrow> bool" where
  "indexed_base t \<longleftrightarrow> (case t_base t of None \<Rightarrow> True | Some b \<Rightarrow> has_member_index b \<longrightarrow> children_ok b)"

lemma take_take_app: "take lim xs @ take (lim - length (take lim xs)) ys = take lim (xs @ ys)"
  by (cases "length xs \<le> lim") (simp_all add: min_def)

lemma take_app_min: "take (lim - min (length xs) lim) ys = take (lim - length xs) ys"
  by (cases "length xs \<le> lim") (simp_all add: min_def)

lemma kids_cover:
  assumes ok: "tier_ok t" and idx: "mem_index (mem t)"
    and base: "case t_base t of None \<Rightarrow> True | Some b \<Rightarrow> children_ok b"
  obtains C D where "shared_kids t = (\<lambda>k lim. take lim (C k))" and "covers C (bpar t ++ mpar t)"
    and "\<And>s. overlay_kids t s = (\<lambda>k lim. take lim (D s k))"
    and "\<And>s. covers (D s) (bopar t s ++ mopar t s)"
proof -
  have i: "index_ok (global (mem t))" "\<And>s. index_ok (mem_overlay (mem t) s)"
    using ok idx by (simp_all add: tier_ok_def)
  have o: "(case fmlookup (overlays (mem t)) s of None \<Rightarrow> [] | Some o' \<Rightarrow> children_of o' k lim []) =
      take lim (kids (mem_overlay (mem t) s) k)" for s k lim
    by (simp add: mem_overlay_def children_of_kids kids_def Dsu.tracking_members_def dsu_new_def
        split: option.split)
  note L = tier_okD(1,2) [OF ok]
  show thesis
  proof (cases "t_base t")
    case None
    then have "bpar t = Map.empty" "bopar t s = Map.empty" for s by (simp_all add: bpar_def bopar_def)
    moreover have "shared_kids t = (\<lambda>k lim. take lim (kids (global (mem t)) k))"
      "overlay_kids t s = (\<lambda>k lim. take lim (kids (mem_overlay (mem t) s) k))" for s
      using None by (auto simp: shared_kids_def overlay_kids_def o children_of_kids fun_eq_iff)
    ultimately show thesis
      using i by (intro that [of "kids (global (mem t))" "\<lambda>s. kids (mem_overlay (mem t) s)"])
        (simp_all add: index_covers)
  next
    case (Some b)
    with base obtain C D where
      C: "\<And>k lim o'. shared_children b k lim o' = o' @ take lim (C k)" "covers C (shared_parent b)" and
      D: "\<And>s k lim o'. overlay_children b s k lim o' = o' @ take lim (D s k)"
        "\<And>s. covers (D s) (overlay_parent b s)" by (auto simp: children_ok_def)
    have b: "bpar t = shared_parent b" "\<And>s. bopar t s = overlay_parent b s"
      using Some by (simp_all add: bpar_def bopar_def)
    have "shared_kids t = (\<lambda>k lim. take lim (kids (global (mem t)) k @ C k))"
      "overlay_kids t s = (\<lambda>k lim. take lim (kids (mem_overlay (mem t) s) k @ D s k))" for s
      using Some by (auto simp: shared_kids_def overlay_kids_def o children_of_kids fun_eq_iff C(1) D(1)
          Let_def take_app_min)
    note kids_eq = this
    have cov: "covers (\<lambda>k. kids (global (mem t)) k @ C k) (bpar t ++ mpar t)"
      "covers (\<lambda>k. kids (mem_overlay (mem t) s) k @ D s k) (bopar t s ++ mopar t s)" for s
      using covers_layered [OF index_covers [OF i(1)] C(2)] L(1)
        covers_layered [OF index_covers [OF i(2)] D(2)] L(2) by (simp_all add: b)
    show thesis using kids_eq(1) cov(1) kids_eq(2) cov(2) by (rule that)
  qed
qed

definition component :: "edge_event list \<Rightarrow> scope_id \<Rightarrow> node_id \<Rightarrow> node_id set" where
  "component es s x = {y. (x, y) \<in> conn (visible_edges es s)}"

definition lists_component :: "members \<Rightarrow> nat \<Rightarrow> node_id set \<Rightarrow> bool" where
  "lists_component m c R \<longleftrightarrow> distinct (nodes m) \<and> length (nodes m) \<le> c \<and>
     (if is_truncated m then length (nodes m) = c \<and> set (nodes m) \<subset> R else set (nodes m) = R)"

lemma finish_lists:
  assumes dist: "\<And>k. distinct (C k)" and word: "c \<noteq> - 1" and sub: "reach C (set seeds) \<subseteq> R"
    and all: "reach C (set seeds) = R \<or> distinct seeds \<and> unat c < length seeds"
  shows "lists_component (finish (expand (\<lambda>k lim. take lim (C k)) (walk_new c) seeds)) (unat c) R"
proof -
  let ?w = "expand (\<lambda>k lim. take lim (C k)) (walk_new c) seeds"
  note E = expand_spec [where C = C and c = c and seeds = seeds, OF dist word]
  show ?thesis
  proof (cases "truncated ?w")
    case True
    with E(1,2,4) sub show ?thesis by (auto simp: lists_component_def finish_def)
  next
    case False
    have "reach C (set seeds) = R"
    proof (rule ccontr)
      assume "reach C (set seeds) \<noteq> R"
      with all have "distinct seeds" "unat c < length seeds" by auto
      moreover have "set seeds \<subseteq> set (out ?w)" unfolding E(3) [OF False] by (rule reach_base)
      ultimately show False
        using E(1,5) card_mono [of "set (out ?w)" "set seeds"] by (simp add: distinct_card)
    qed
    with E(1,3,5) False show ?thesis by (simp add: lists_component_def finish_def)
  qed
qed

lemma small_cap:
  assumes "unat c + 2 < 2 ^ 64"
  shows "c \<noteq> - 1" and "c + 1 \<noteq> - 1" and "saturating_add c 1 = c + 1"
proof -
  have m: "unat (- 1 :: u64) = 2 ^ 64 - 1" by (simp add: unat_max_u64)
  then show c: "c \<noteq> - 1" using assms by auto
  have "unat (c + 1) \<noteq> unat (- 1 :: u64)" using unat_inc [OF c] m assms by linarith
  then show "c + 1 \<noteq> - 1" by (rule contrapos_nn) (rule arg_cong)
  show "saturating_add c 1 = c + 1" using assms by (simp add: saturating_add_def)
qed

lemma members_of_spec:
  assumes f: "forest_represents f es" and idx: "member_index f" and base: "indexed_base (tier_of f)"
    and has: "\<And>b. t_base (tier_of f) = Some b \<Longrightarrow> has_member_index b" and fits: "unat c + 2 < 2 ^ 64"
  shows "\<exists>m f'. members_of f s x c = Some (Some m, f') \<and> lists_component m (unat c) (component es s x)"
proof -
  let ?t = "tier_of f"
  have rep: "represents ?t (global_edges es) (scope_edges es)" and mi: "mem_index (mem ?t)"
    using f idx by (simp_all add: forest_represents_def)
  then have ok: "tier_ok ?t" and tr: "tracks (grep ?t) (orep ?t) (regs ?t) (global_edges es) (scope_edges es)"
    by (simp_all add: represents_def)
  have comp: "component es s x = {y. lowest (visible_edges es s) y = lowest (visible_edges es s) x}" for s
    by (auto simp: component_def conn_iff_lowest)
  from shared_root_spec [OF ok] obtain t1 where
    1: "shared_root ?t x False = Some (grep ?t x, t1)" "tier_same ?t t1" by blast
  note k1 = tier_same_keeps [OF ok 1(2)]
  from overlay_root_spec [OF k1(1)] obtain t2 where
    2: "overlay_root t1 s (grep ?t x) False = Some (orep ?t s (grep ?t x), t2)" "tier_same t1 t2"
    using k1(3) by metis
  note k2 = tier_same_keeps [OF k1(1) 2(2)]
  have cover: "case t_base t of None \<Rightarrow> True | Some b \<Rightarrow> children_ok b" if "t_base t = t_base ?t" for t
    using base has that by (auto simp: indexed_base_def split: option.splits)
  have mi': "mem_index (mem t1)" "mem_index (mem t2)"
    using mi 1(2) 2(2) by (simp_all add: tier_same_def)
  have word: "c \<noteq> - 1" "c + 1 \<noteq> - 1" "saturating_add c 1 = c + 1"
    using small_cap [OF fits] by simp_all
  have avail: "\<not> (case t_base ?t of None \<Rightarrow> False | Some b \<Rightarrow> \<not> has_member_index b)"
    using has by (auto split: option.splits)
  show ?thesis
  proof (cases "s = GLOBAL_SCOPE")
    case True
    obtain C where C: "shared_kids t1 = (\<lambda>k lim. take lim (C k))" "covers C (bpar t1 ++ mpar t1)"
      using kids_cover [OF k1(1) mi'(1) cover [OF k1(5)]] by blast
    have g: "root_of (bpar t1 ++ mpar t1) = grep ?t" using k1(2) by (simp add: grep_def)
    have dec: "decreasing (bpar t1 ++ mpar t1)" by (rule layeredD(3) [OF tier_okD(1) [OF k1(1)]])
    have "reach C {grep ?t x} = {y. grep ?t y = grep ?t x}"
      using reach_class [OF C(2) dec, of "grep ?t x"] rep_funD(1) [OF rep_funs(1) [OF ok]]
      unfolding g by blast
    moreover have "grep ?t = lowest (visible_edges es s)"
      using tracksD(1) [OF tr] True by (simp add: visible_edges_split scope_edges_global)
    ultimately have "lists_component (finish (expand (shared_kids t1) (walk_new c) [grep ?t x])) (unat c) (component es s x)"
      unfolding C(1) by (intro finish_lists coversD(1) [OF C(2)] word(1)) (simp_all add: comp)
    then show ?thesis using 1(1) True idx avail by (simp add: members_of_def)
  next
    case False
    let ?r = "orep ?t s (grep ?t x)"
    have base2: "t_base t2 = t_base ?t" using k1(5) k2(5) by simp
    obtain C D where C: "shared_kids t2 = (\<lambda>k lim. take lim (C k))" "covers C (bpar t2 ++ mpar t2)"
      and D': "\<And>s. overlay_kids t2 s = (\<lambda>k lim. take lim (D s k))"
        "\<And>s. covers (D s) (bopar t2 s ++ mopar t2 s)"
      by (rule kids_cover [OF k2(1) mi'(2) cover [OF base2]]) (rule that)
    note D = D' [of s]
    let ?seeds = "expand (overlay_kids t2 s) (walk_new (c + 1)) [?r]"
    have n: "unat (c + 1) = unat c + 1" by (rule unat_inc [OF word(1)])
    have g: "root_of (bpar t2 ++ mpar t2) = grep ?t" using k1(2) k2(2) by (simp add: grep_def)
    have o: "root_of (bopar t2 s ++ mopar t2 s) = orep ?t s"
      using fun_cong [OF k1(3), of s] fun_cong [OF k2(3), of s] by (simp add: orep_def)
    have decs: "decreasing (bpar t2 ++ mpar t2)" "decreasing (bopar t2 s ++ mopar t2 s)"
      using layeredD(3) [OF tier_okD(1) [OF k2(1)]] layeredD(3) [OF tier_okD(2) [OF k2(1)]] by simp_all
    have rr: "orep ?t s ?r = ?r" using rep_funD(1) [OF rep_funs(2) [OF ok]] .
    have over: "reach (D s) {?r} = {y. orep ?t s y = ?r}"
      using reach_class [OF D(2) decs(2), of ?r] rr unfolding o by blast
    note E = expand_spec [where C = "D s" and c = "c + 1" and seeds = "[?r]", OF coversD(1) [OF D(2)] word(2),
        folded D(1), simplified, unfolded over]
    have comp': "component es s x = {y. orep ?t s (grep ?t y) = ?r}"
      unfolding comp visible_edges_split using tracksD(3) [OF tr, of s] by auto
    have stay: "orep ?t s (grep ?t y) = ?r" if "orep ?t s y = ?r" for y
    proof (cases "element (orep ?t s) y")
      case True
      with tracksD(4) [OF tr True] that show ?thesis by simp
    next
      case False
      from not_elementD [OF rep_funs(2) [OF ok] False] that
      have "grep ?t x = y" by simp
      then show ?thesis using rep_funD(1) [OF rep_funs(1) [OF ok], of x] that by simp
    qed
    have sub: "reach C (set (out ?seeds)) \<subseteq> component es s x"
    proof
      fix z assume "z \<in> reach C (set (out ?seeds))"
      then obtain y where "y \<in> set (out ?seeds)" "z \<in> reach C {y}" by (auto simp: reach_def)
      with E(2) reach_root [OF C(2)] stay show "z \<in> component es s x" unfolding g comp' by force
    qed
    have "reach C (set (out ?seeds)) = component es s x" if "\<not> truncated ?seeds"
    proof
      show "component es s x \<subseteq> reach C (set (out ?seeds))"
      proof
        fix z assume "z \<in> component es s x"
        then have "grep ?t z \<in> set (out ?seeds)" using E(3) that by (simp add: comp')
        moreover have "z \<in> reach C {grep ?t z}" using reach_covers [OF C(2) decs(1)] unfolding g .
        ultimately show "z \<in> reach C (set (out ?seeds))" by (auto simp: reach_def)
      qed
    qed (rule sub)
    then have "reach C (set (out ?seeds)) = component es s x \<or>
        distinct (out ?seeds) \<and> unat c < length (out ?seeds)"
      using E(1,4) n by (cases "truncated ?seeds") auto
    then have "lists_component (finish (expand (shared_kids t2) (walk_new c) (out ?seeds))) (unat c) (component es s x)"
      unfolding C(1) by (intro finish_lists coversD(1) [OF C(2)] word(1) sub)
    then show ?thesis
      using 1(1) 2(1) False idx avail word(3) by (simp add: members_of_def Let_def)
  qed
qed

text \<open>At the largest word the fetch budget is zero: both walks stop at the node they start from.\<close>

lemma expand_starved:
  assumes "\<And>k. kids_of k 0 = []"
  shows "expand kids_of (walk_new (- 1)) [r] = \<lparr>cap = - 1, seen = {|r|}, out = [r], truncated = False\<rparr>"
proof -
  have "0 < unat (- 1 :: u64)" by (simp add: unat_max_u64)
  then show ?thesis using assms by (simp add: expand_def walk_new_def admit_def Let_def)
qed

lemma kids_starved:
  assumes "tier_ok t" and "mem_index (mem t)" and "case t_base t of None \<Rightarrow> True | Some b \<Rightarrow> children_ok b"
  shows "shared_kids t k 0 = []" and "overlay_kids t s k 0 = []"
proof -
  obtain C D where "shared_kids t = (\<lambda>k lim. take lim (C k))" "\<And>s. overlay_kids t s = (\<lambda>k lim. take lim (D s k))"
    using kids_cover [OF assms] by metis
  then show "shared_kids t k 0 = []" and "overlay_kids t s k 0 = []" by simp_all
qed

lemma members_of_starved:
  assumes f: "forest_represents f es" and idx: "member_index f" and base: "indexed_base (tier_of f)"
    and has: "\<And>b. t_base (tier_of f) = Some b \<Longrightarrow> has_member_index b"
  shows "\<exists>f'. members_of f s x (- 1) = Some (Some (Complete [lowest (visible_edges es s) x]), f')"
proof -
  let ?t = "tier_of f"
  have rep: "represents ?t (global_edges es) (scope_edges es)" and mi: "mem_index (mem ?t)"
    using f idx by (simp_all add: forest_represents_def)
  then have ok: "tier_ok ?t" and tr: "tracks (grep ?t) (orep ?t) (regs ?t) (global_edges es) (scope_edges es)"
    by (simp_all add: represents_def)
  from shared_root_spec [OF ok] obtain t1 where
    1: "shared_root ?t x False = Some (grep ?t x, t1)" "tier_same ?t t1" by blast
  note k1 = tier_same_keeps [OF ok 1(2)]
  from overlay_root_spec [OF k1(1)] obtain t2 where
    2: "overlay_root t1 s (grep ?t x) False = Some (orep ?t s (grep ?t x), t2)" "tier_same t1 t2"
    using k1(3) by metis
  note k2 = tier_same_keeps [OF k1(1) 2(2)]
  have cover: "case t_base t of None \<Rightarrow> True | Some b \<Rightarrow> children_ok b" if "t_base t = t_base ?t" for t
    using base has that by (auto simp: indexed_base_def split: option.splits)
  have mi': "mem_index (mem t1)" "mem_index (mem t2)" using mi 1(2) 2(2) by (simp_all add: tier_same_def)
  have base2: "t_base t2 = t_base ?t" using k1(5) k2(5) by simp
  have starved: "shared_kids t1 k 0 = []" "shared_kids t2 k 0 = []" "overlay_kids t2 s k 0 = []" for k
    using kids_starved [OF k1(1) mi'(1) cover [OF k1(5)]] kids_starved [OF k2(1) mi'(2) cover [OF base2]] by simp_all
  have sat: "saturating_add (- 1) 1 = - 1" by (simp add: saturating_add_def unat_max_u64)
  have avail: "\<not> (case t_base ?t of None \<Rightarrow> False | Some b \<Rightarrow> \<not> has_member_index b)"
    using has by (auto split: option.splits)
  have low: "lowest (visible_edges es s) x = (if s = GLOBAL_SCOPE then grep ?t x else orep ?t s (grep ?t x))"
    using tracksD(1,3) [OF tr] by (auto simp: visible_edges_split scope_edges_global)
  show ?thesis
    using 1(1) 2(1) idx avail low
    by (simp add: members_of_def Let_def sat expand_starved [of "shared_kids t1", OF starved(1)]
        expand_starved [of "shared_kids t2", OF starved(2)] expand_starved [of "overlay_kids t2 s", OF starved(3)] finish_def)
qed

end
