(* ===== verification/Layered_Fold.thy ===== *)
theory Layered_Fold
  imports Layered_Base Forest_Members
begin

text \<open>
  A stack of opened files under a forest. A file written from a compaction, alone in a stack,
  encodes the stream it was written from; a file written from the memtable, pushed on the stack the
  forest reads through, refines it; and a stack of which a stretch has been replaced by one layer
  that holds the sweep of the stretch resolves as before. These are the hypotheses under which the
  folds and the installation of a base leave every answer as it was.
\<close>

section \<open>A stack as a routing base\<close>

lemma all_keys_dom: "stack_ok pss \<Longrightarrow> all_keys pss = dom (parent_of (pass pss))"
  using pass_eq_iff [OF stack_lowers] by (auto simp: parent_of_def dom_def)

lemma stack_pairs_lists: "stack_ok pss \<Longrightarrow> lists_keys (stack_pairs pss) (parent_of (pass pss))"
  by (simp add: lists_keys_def stack_pairs_def comp_def image_image all_keys_dom [symmetric])

lemma rep_fun_pass: "stack_ok pss \<Longrightarrow> rep_fun (pass pss)"
  using pass_unkeyed pass_eq_iff [OF stack_lowers] pass_le [OF stack_lowers] by (auto simp: rep_fun_def)

lemma stack_routing:
  assumes "stack_serves lb ls"
  shows "shared_parent (layered_routing lb) = parent_of (pass (globals ls))"
    and "overlay_parent (layered_routing lb) s = parent_of (pass (overlays_in ls s))"
    and "for_each_shared_pair (layered_routing lb) = stack_pairs (globals ls)"
    and "for_each_overlay_pair (layered_routing lb) s = stack_pairs (overlays_in ls s)"
    and "s \<in> set (scopes_for_root (layered_routing lb) x) \<longleftrightarrow> (\<exists>l \<in> set ls. (x, s) \<in> set (snd l))"
    and "s \<in> set (base_scopes (layered_routing lb)) \<longleftrightarrow> (\<exists>l \<in> set ls. s \<in> fst ` set (snap_scopes (fst l)))"
proof -
  obtain ss where "lb_scopes_for_root lb x = Some ss" "set ss = {s. \<exists>l \<in> set ls. (x, s) \<in> set (snd l)}"
    using stack_scopes(1) [OF assms] by blast
  then show "s \<in> set (scopes_for_root (layered_routing lb) x) \<longleftrightarrow> (\<exists>l \<in> set ls. (x, s) \<in> set (snd l))"
    by (simp add: layered_routing_def or_else_def)
qed (use stack_parents [OF assms] stack_sweeps [OF assms] stack_scopes(2) [OF assms] in
    \<open>simp_all add: layered_routing_def or_else_def fun_eq_iff\<close>)

lemma compose_pass:
  assumes "\<forall>ps \<in> set pss. lowers ps" and "lowers ps"
  shows "parent_of (pass (pss @ [ps])) = compose_parent (parent_of (pass pss)) (map_of ps)"
proof (rule ext)
  fix x
  have y: "(case parent_of (pass pss) x of None \<Rightarrow> x | Some b \<Rightarrow> b) = pass pss x" by (simp add: parent_of_def)
  have "r < pass pss x" if "map_of ps (pass pss x) = Some r" for r
    using that assms(2) by (auto simp: lowers_def dest!: map_of_SomeD)
  then show "parent_of (pass (pss @ [ps])) x = compose_parent (parent_of (pass pss)) (map_of ps) x"
    using pass_le [OF assms(1), of x]
    by (fastforce simp: compose_parent_def Let_def y parent_of_def hop_def split: option.split)
qed

section \<open>Pushing the memtable\<close>

lemma memtable_snapshot:
  assumes ok: "tier_ok t"
  shows "stream_snapshot (memtable_delta t) =
    \<lparr>snap_global = map (\<lambda>k. (k, grep t k)) (dsu_keys (global (mem t))),
     snap_scopes = map (\<lambda>s. (s, map (\<lambda>k. (k, orep t s k)) (overlay_keys t s)))
       (filter (\<lambda>s. overlay_keys t s \<noteq> []) (sorted_list_of_fset (fmdom (overlays (mem t)))))\<rparr>"
proof -
  have k: "\<forall>k \<in> set (dsu_keys (global (mem t))). grep t k \<noteq> k"
    "\<And>s k. k \<in> set (overlay_keys t s) \<Longrightarrow> orep t s k \<noteq> k"
    using moved_iff [OF ok] by (auto simp: dsu_keys_spec(2) overlay_keys_spec(2))
  show ?thesis
    using collect_shared_ev [OF k(1), of collector_init] collect_scope_ev [OF k(2), of "overlay_keys t"]
    by (simp add: stream_snapshot_def memtable_delta_def Let_def)
qed

lemma map_of_tagged: "map_of (map (\<lambda>s. (s, f s)) ss) s = (if s \<in> set ss then Some (f s) else None)"
  by (induction ss) auto

lemma memtable_pairs:
  assumes ok: "tier_ok t"
  shows "snap_global (stream_snapshot (memtable_delta t)) = shared_of (memtable_delta t)"
    and "scope_pairs (stream_snapshot (memtable_delta t)) s = overlay_of (memtable_delta t) s"
proof -
  show "snap_global (stream_snapshot (memtable_delta t)) = shared_of (memtable_delta t)"
    by (simp add: memtable_snapshot [OF ok] delta_pairs [OF ok])
  have "s |\<notin>| fmdom (overlays (mem t)) \<Longrightarrow> overlay_keys t s = []"
    by (simp add: overlay_keys_def fmdom_notD)
  then show "scope_pairs (stream_snapshot (memtable_delta t)) s = overlay_of (memtable_delta t) s"
    by (auto simp: memtable_snapshot [OF ok] delta_pairs [OF ok] scope_pairs_def map_of_tagged split: option.split)
qed

text \<open>The representatives of the memtable's keys go on top of any stack that the base resolves through.\<close>

lemma push_ok:
  fixes q p :: "node_id \<Rightarrow> node_id option"
  assumes ok: "stack_ok pss" and l: "layered q p" and q: "q = parent_of (pass pss)" and ks: "set ks = dom p"
  shows "stack_ok (pss @ [map (\<lambda>k. (k, root_of (q ++ p) k)) ks])"
proof -
  let ?ps = "map (\<lambda>k. (k, root_of (q ++ p) k)) ks"
  have d: "all_keys pss = dom q" by (simp add: all_keys_dom [OF ok] q)
  have k: "keys_of ?ps = dom p" using ks by (force simp: keys_of_def)
  have root: "(q ++ p) (root_of (q ++ p) x) = None" for x
    using root_of_eq_self_iff [OF layeredD(3) [OF l], of "root_of (q ++ p) x"] root_of_idem [OF layeredD(3) [OF l], of x] by simp
  have "lowers ?ps"
    unfolding lowers_def
  proof (clarsimp)
    fix x assume "x \<in> set ks"
    then obtain y where "(q ++ p) x = Some y" using ks by (cases "(q ++ p) x") auto
    then show "root_of (q ++ p) x < x" by (rule root_of_less [OF layeredD(3) [OF l]])
  qed
  moreover have "keys_of ?ps \<inter> all_keys pss = {}" using l by (simp add: k d layered_def)
  moreover have "snd ` set ?ps \<inter> (all_keys pss \<union> keys_of ?ps) = {}"
    using root by (auto simp: d k map_add_None)
  ultimately show ?thesis using ok by (simp add: stack_ok_snoc)
qed

lemma stack_push:
  assumes st: "stack_serves lb ls" and ok: "tier_ok t" and base: "t_base t = Some (layered_routing lb)"
    and b: "serves b (stream_snapshot (memtable_delta t)) (sort_dedup (registry_of (memtable_delta t))) indexed"
  shows "stack_serves (pushed lb b) (ls @ [(stream_snapshot (memtable_delta t), sort_dedup (registry_of (memtable_delta t)))])"
    and "stacks (layered_routing (pushed lb b)) (t_base t) (memtable_delta t)"
proof -
  let ?snap = "stream_snapshot (memtable_delta t)" and ?es = "sort_dedup (registry_of (memtable_delta t))"
  let ?ls = "ls @ [(?snap, ?es)]"
  have so: "stack_ok (globals ls)" "\<And>s. stack_ok (overlays_in ls s)" using st by (simp_all add: stack_serves_def)
  note p = delta_pairs [OF ok]
  have par: "bpar t = parent_of (pass (globals ls))" "bopar t s = parent_of (pass (overlays_in ls s))" for s
    using stack_routing(1,2) [OF st] base by (simp_all add: bpar_def bopar_def)
  have g: "stack_ok (globals ?ls)"
    using push_ok [OF so(1) tier_okD(1) [OF ok] par(1) dsu_keys_spec(2)] by (simp add: memtable_pairs [OF ok] p grep_def [abs_def])
  have o: "stack_ok (overlays_in ?ls s)" for s
    using push_ok [OF so(2) tier_okD(2) [OF ok] par(2) overlay_keys_spec(2), of s] by (simp add: memtable_pairs [OF ok] p orep_def [abs_def])
  show st': "stack_serves (pushed lb b) ?ls"
    using st g o b by (auto simp: stack_serves_def pushed_def layer_serves_def intro!: list_all2_appendI)
  note r = stack_routing [OF st] and r' = stack_routing [OF st']
  have "lowers (shared_of (memtable_delta t))" "lowers (overlay_of (memtable_delta t) s)" for s
    using stack_lowers [OF g] stack_lowers [OF o [of s]] by (simp_all add: memtable_pairs [OF ok])
  note c = compose_pass [OF stack_lowers [OF so(1)] this(1)] compose_pass [OF stack_lowers [OF so(2)] this(2)]
  have scopes: "overlay_of (memtable_delta t) s \<noteq> [] \<Longrightarrow> s \<in> fst ` set (snap_scopes ?snap)" for s
    unfolding memtable_pairs(2) [OF ok, symmetric] by (force simp: scope_pairs_def dest: map_of_SomeD split: option.splits)
  show "stacks (layered_routing (pushed lb b)) (t_base t) (memtable_delta t)"
    unfolding stacks_def base option.case
  proof (intro conjI allI)
    show "shared_parent (layered_routing (pushed lb b)) = compose_parent (shared_parent (layered_routing lb)) (map_of (shared_of (memtable_delta t)))"
      using c(1) by (simp add: r(1) r'(1) memtable_pairs [OF ok])
    fix s
    show "overlay_parent (layered_routing (pushed lb b)) s =
        compose_parent (overlay_parent (layered_routing lb) s) (map_of (overlay_of (memtable_delta t) s))"
      using c(2) by (simp add: r(2) r'(2) memtable_pairs [OF ok])
    show "lists_keys (for_each_shared_pair (layered_routing (pushed lb b))) (shared_parent (layered_routing (pushed lb b)))"
      unfolding r'(1,3) by (rule stack_pairs_lists [OF g])
    show "lists_keys (for_each_overlay_pair (layered_routing (pushed lb b)) s) (overlay_parent (layered_routing (pushed lb b)) s)"
      unfolding r'(2,4) by (rule stack_pairs_lists [OF o])
    show "s \<in> set (scopes_for_root (layered_routing (pushed lb b)) x) \<longleftrightarrow>
        (\<exists>p. Some (layered_routing lb) = Some p \<and> s \<in> set (scopes_for_root p x)) \<or> RegistryEntry x s \<in> set (memtable_delta t)" for x
      by (auto simp: r(5) r'(5) set_registry_of)
    show "overlay_of (memtable_delta t) s \<noteq> [] \<or> (\<exists>p. Some (layered_routing lb) = Some p \<and> s \<in> set (base_scopes p)) \<longrightarrow>
        s \<in> set (base_scopes (layered_routing (pushed lb b)))"
      using scopes [of s] by (auto simp: r(6) r'(6))
  qed
qed

section \<open>A compaction as the only layer\<close>

lemma compaction_scope_pairs:
  assumes ok: "tier_ok t"
  shows "snap_global (stream_snapshot (compaction t)) = shared_of (compaction t)"
    and "scope_pairs (stream_snapshot (compaction t)) s = overlay_of (compaction t) s"
proof -
  show "snap_global (stream_snapshot (compaction t)) = shared_of (compaction t)"
    by (simp add: compaction_snapshot [OF ok] compaction_pairs [OF ok])
  have "s \<notin> set (scope_ids t) \<Longrightarrow> all_overlay_keys t s = []"
    using moved_scope [OF ok] keys_spec(4) [OF ok, of s] by (cases "all_overlay_keys t s") auto
  then show "scope_pairs (stream_snapshot (compaction t)) s = overlay_of (compaction t) s"
    by (auto simp: compaction_snapshot [OF ok] compaction_pairs [OF ok] scope_pairs_def map_of_tagged split: option.split)
qed

lemma single_ok:
  assumes "rep_fun r" and "set ks = {k. r k \<noteq> k}"
  shows "stack_ok [map (\<lambda>k. (k, r k)) ks]"
proof -
  have "lowers (map (\<lambda>k. (k, r k)) ks)" using rep_funD(2) [OF assms(1)] assms(2) by (auto simp: lowers_def less_le)
  moreover have "snd ` set (map (\<lambda>k. (k, r k)) ks) \<inter> keys_of (map (\<lambda>k. (k, r k)) ks) = {}"
    using rep_funD(1) [OF assms(1)] assms(2) by (auto simp: keys_of_def)
  ultimately show ?thesis using stack_ok_snoc [of "[]" "map (\<lambda>k. (k, r k)) ks"] by (simp add: stack_ok.empty)
qed

lemma stack_single:
  assumes ok: "tier_ok t" and b: "serves b (stream_snapshot (compaction t)) (sort_dedup (registry_of (compaction t))) indexed"
  shows "stack_serves (lb_new b) [(stream_snapshot (compaction t), sort_dedup (registry_of (compaction t)))]"
    and "encodes (layered_routing (lb_new b)) (compaction t)"
proof -
  let ?snap = "stream_snapshot (compaction t)" and ?es = "sort_dedup (registry_of (compaction t))"
  let ?ls = "[(?snap, ?es)]"
  note k = keys_spec [OF ok] and p = compaction_pairs [OF ok] and q = compaction_scope_pairs [OF ok]
  have g: "stack_ok (globals ?ls)" using single_ok [OF rep_funs(1) [OF ok] k(2)] by (simp add: q p)
  have o: "stack_ok (overlays_in ?ls s)" for s using single_ok [OF rep_funs(2) [OF ok] k(4)] by (simp add: q p)
  show st: "stack_serves (lb_new b) ?ls" using g o b by (auto simp: stack_serves_def lb_new_def layer_serves_def)
  have one: "parent_of (pass [ps]) = map_of ps" if "lowers ps" for ps :: "(node_id \<times> node_id) list"
    using that by (auto simp: parent_of_def hop_def fun_eq_iff lowers_def dest!: map_of_SomeD split: option.splits)
  have "lowers (shared_of (compaction t))" "lowers (overlay_of (compaction t) s)" for s
    using stack_lowers [OF g] stack_lowers [OF o [of s]] by (simp_all add: q)
  note one = this [THEN one]
  note r = stack_routing [OF st]
  have scopes: "overlay_of (compaction t) s \<noteq> [] \<Longrightarrow> s \<in> fst ` set (snap_scopes ?snap)" for s
    unfolding q(2) [symmetric] by (force simp: scope_pairs_def dest: map_of_SomeD split: option.splits)
  show "encodes (layered_routing (lb_new b)) (compaction t)"
    unfolding encodes_def
  proof (intro conjI allI)
    show "shared_parent (layered_routing (lb_new b)) = map_of (shared_of (compaction t))"
      and "overlay_parent (layered_routing (lb_new b)) s = map_of (overlay_of (compaction t) s)" for s
      using one by (simp_all add: r(1,2) q)
    show "s \<in> set (scopes_for_root (layered_routing (lb_new b)) x) \<longleftrightarrow> RegistryEntry x s \<in> set (compaction t)" for x s
      by (simp add: r(5) set_registry_of)
    show "lists_keys (for_each_shared_pair (layered_routing (lb_new b))) (shared_parent (layered_routing (lb_new b)))"
      unfolding r(1,3) by (rule stack_pairs_lists [OF g])
    show "lists_keys (for_each_overlay_pair (layered_routing (lb_new b)) s) (overlay_parent (layered_routing (lb_new b)) s)" for s
      unfolding r(2,4) by (rule stack_pairs_lists [OF o])
    show "overlay_of (compaction t) s \<noteq> [] \<longrightarrow> s \<in> set (base_scopes (layered_routing (lb_new b)))" for s
      using scopes [of s] by (auto simp: r(6))
  qed
qed

section \<open>A stack answers as one table\<close>

lemma stack_answers:
  assumes "stack_serves lb ls"
  shows "lb_shared_parent lb x = Some (parent_of (pass (globals ls)) x) \<and>
    lb_overlay_parent lb s x = Some (parent_of (pass (overlays_in ls s)) x) \<and>
    lb_for_each_shared_pair lb = Some (stack_pairs (globals ls)) \<and>
    lb_for_each_overlay_pair lb s = Some (stack_pairs (overlays_in ls s)) \<and>
    lists_keys (stack_pairs (globals ls)) (parent_of (pass (globals ls))) \<and>
    lists_keys (stack_pairs (overlays_in ls s)) (parent_of (pass (overlays_in ls s)))"
  using stack_parents [OF assms] stack_sweeps [OF assms] stack_pairs_lists assms by (simp add: stack_serves_def)

text \<open>
  C12: a stack of opened files answers as one table. Resolving a node passes the layers once, oldest
  first, and reaches the node that no layer re-roots; the merge of a sweep visits every key of
  every layer exactly once, in ascending order, with that node as its value; and neither algorithm
  leaves the bounds of a mapping, in the shared tier or in any scope.
\<close>

theorem stack_answers_as_one_table:
  assumes "stack_serves lb ls"
  shows "lb_shared_parent lb x = Some (parent_of (pass (globals ls)) x) \<and>
    lb_overlay_parent lb s x = Some (parent_of (pass (overlays_in ls s)) x) \<and>
    lb_for_each_shared_pair lb = Some (stack_pairs (globals ls)) \<and>
    lb_for_each_overlay_pair lb s = Some (stack_pairs (overlays_in ls s)) \<and>
    lists_keys (stack_pairs (globals ls)) (parent_of (pass (globals ls))) \<and>
    lists_keys (stack_pairs (overlays_in ls s)) (parent_of (pass (overlays_in ls s)))"
  using stack_answers [OF assms] .

text \<open>A second file over the small one: the shared root of the first is re-rooted by the second.\<close>

definition small_delta :: forest_snapshot where
  "small_delta = \<lparr>snap_global = [(5, 4)], snap_scopes = []\<rparr>"

lemma small_delta_blobs:
  "file_blobs 2 small_options small_delta [] =
     [make_blob 2 GLOBAL_BLOB_TYPE (counted pair_bytes [(5, 4)]) [],
      make_blob 2 SHARED_FLAT_BLOB_TYPE (u64_to_le_bytes 1 @ pair_bytes (4, 5)) []]"
  by (simp add: file_blobs_def table_blobs_def index_blobs_def registry_blobs_def encode_registry_def
      rw_new_def rw_with_block_size_def rw_push_def rw_finish_def filter_blobs_def key_filters_def member_filters_def
      named_filters_def build_with_def clamp_filter_bits_def member_blob_def member_payload_def
      child_pairs_def mw_new_def mw_with_block_size_def mw_push_def mw_finish_def small_options_def small_delta_def
      scope_blob_def entry_bytes_def pair_bytes_def Let_def)

lemma small_delta_file:
  "length (to_vec plain_json (footer_of (file_blobs 2 small_options small_delta []) [])) < 1000"
  "length (concat (map blob_data (file_blobs 2 small_options small_delta []))) < 1000"
  by (simp_all add: small_delta_blobs footer_of_def plain_json_def enc_pair_def enc_list_def enc_metadata_def metadata_fields_def
      metadata_of_def enc_char_def blob_types comp_def make_blob_def length_concat sum_list_triv length_counted [of _ 16])

lemma small_serves:
  obtains b where "serves b small_snapshot [(3, 7), (5, 7)] True"
proof -
  let ?es = "[(3, 7), (5, 7)] :: (node_id \<times> scope_id) list"
  obtain data where d: "puffin_write plain_json (file_blobs 1 small_options small_snapshot ?es) [] = Some data"
    "length data < 20 + 1000 + length (concat (map blob_data (file_blobs 1 small_options small_snapshot ?es)))"
    using puffin_write_small [OF small_file(1)] by auto
  then have "length data < 2 ^ 38" using small_file(2) by simp
  moreover have "file_ok small_snapshot ?es" "sorted_wrt (<) (map fst (snap_scopes small_snapshot))"
    by (simp_all add: file_ok_def small_snapshot_def snapshot_ok_def)
  ultimately show thesis using open_written [OF plain_json_ok d(1), of Buffered] that by (auto simp: small_options_def)
qed

lemma small_delta_serves:
  obtains b where "serves b small_delta [] True"
proof -
  obtain data where d: "puffin_write plain_json (file_blobs 2 small_options small_delta []) [] = Some data"
    "length data < 20 + 1000 + length (concat (map blob_data (file_blobs 2 small_options small_delta [])))"
    using puffin_write_small [OF small_delta_file(1)] by auto
  then have "length data < 2 ^ 38" using small_delta_file(2) by simp
  moreover have "file_ok small_delta []" "sorted_wrt (<) (map fst (snap_scopes small_delta))" "snap_scopes small_delta = []"
    by (simp_all add: file_ok_def small_delta_def snapshot_ok_def)
  ultimately show thesis using open_written [OF plain_json_ok d(1), of Buffered] that by (auto simp: small_options_def)
qed

lemma small_stack_serves:
  assumes "serves b small_snapshot [(3, 7), (5, 7)] True" and "serves d small_delta [] True"
  shows "stack_serves (pushed (lb_new b) d) [(small_snapshot, [(3, 7), (5, 7)]), (small_delta, [])]"
proof -
  have "stack_ok ([[(9, 5)]] @ [[(5, 4)]] :: (node_id \<times> node_id) list list)"
    unfolding stack_ok_snoc using stack_ok_snoc [of "[]" "[(9, 5)] :: (node_id \<times> node_id) list"]
    by (simp add: stack_ok.empty lowers_def keys_of_def)
  moreover have "stack_ok [scope_pairs small_snapshot s, scope_pairs small_delta s]" for s
    using stack_ok_snoc [of "[scope_pairs small_snapshot s]" "[]"] stack_ok_snoc [of "[]" "scope_pairs small_snapshot s"]
    by (simp add: stack_ok.empty small_snapshot_def small_delta_def scope_pairs_def lowers_def keys_of_def)
  ultimately show ?thesis
    using assms by (auto simp: stack_serves_def pushed_def lb_new_def layer_serves_def small_snapshot_def small_delta_def)
qed

theorem stack_answers_as_one_table_witness:
  "\<exists>b d. lb_shared_parent (pushed (lb_new b) d) 9 = Some (Some 4) \<and>
    lb_overlay_parent (pushed (lb_new b) d) 7 5 = Some (Some 3) \<and>
    lb_for_each_shared_pair (pushed (lb_new b) d) = Some [(5, 4), (9, 4)]"
proof -
  obtain b d where bd: "serves b small_snapshot [(3, 7), (5, 7)] True" "serves d small_delta [] True"
    using small_serves small_delta_serves by metis
  have "{5, 9} = set [5, 9 :: node_id]" by simp
  then have keys: "sorted_list_of_set {5, 9 :: node_id} = [5, 9]" by (simp only: sorted_list_of_set_sort_remdups) simp
  show ?thesis
    using stack_answers_as_one_table [OF small_stack_serves [OF bd], of 9 7]
      stack_answers_as_one_table [OF small_stack_serves [OF bd], of 5 7]
    by (intro exI [of _ b] exI [of _ d])
      (simp add: parent_of_def hop_def small_snapshot_def small_delta_def scope_pairs_def stack_pairs_def keys_of_def keys insert_commute)
qed

end
