(* ===== verification/Compact.thy ===== *)
theory Compact
  imports Layered_Fold
begin

text \<open>
  Storage-side compaction, \<^verbatim>\<open>src/storage/compact.rs\<close>: a stretch of layers merged into the blobs of one
  file, read from the mappings alone. The overlays are merged in chunks on as many threads as the
  machine offers, the registry runs by a merge that re-sorts only the entries whose root moved.
  Both are compared with reference definitions: the blobs do not depend on the number of threads,
  and they are those of a file that holds the sweep of every table and the entries of every layer
  with their roots resolved.
\<close>

section \<open>The overlays\<close>

record compaction_stats =
  cs_shared_pairs :: u64
  cs_overlay_pairs :: u64
  cs_scopes :: u64
  cs_registry_entries :: u64
  cs_registry_corrections :: u64
  cs_moved_roots :: u64

definition compact_table :: "(node_id \<times> node_id) list \<Rightarrow> bytes \<times> u64" where
  "compact_table pairs =
     (let count = word_of_nat (length pairs) in (close_table (open_table @ concat (map pair_bytes pairs)) count, count))"

definition one_overlay :: "layered_base \<Rightarrow> scope_id \<Rightarrow> (scope_id \<times> bytes \<times> u64) option option" where
  "one_overlay layers scope =
     do { pairs \<leftarrow> lb_for_each_overlay_pair layers scope;
          Some (if pairs = [] then None else let (data, count) = compact_table pairs in Some (scope, data, count)) }"

text \<open>The work of one thread; a panic in it is a panic of the merge.\<close>

definition overlay_chunk :: "layered_base \<Rightarrow> scope_id list \<Rightarrow> (scope_id \<times> bytes \<times> u64) list option" where
  "overlay_chunk layers chunk = map_option (List.map_filter (\<lambda>x. x)) (those (map (one_overlay layers) chunk))"

function chunks :: "nat \<Rightarrow> 'a list \<Rightarrow> 'a list list" where
  "chunks per xs = (if xs = [] \<or> per = 0 then [] else take per xs # chunks per (drop per xs))"
  by pat_completeness auto
termination
  by (relation "measure (\<lambda>(per, xs). length xs)") auto

declare chunks.simps [simp del]

text \<open>\<open>cores\<close> is what \<^verbatim>\<open>available_parallelism\<close> reports, if anything.\<close>

definition merge_overlays :: "nat option \<Rightarrow> layered_base \<Rightarrow> (scope_id \<times> bytes \<times> u64) list option" where
  "merge_overlays cores layers =
     (let scopes = lb_scopes layers;
          threads = min (case cores of None \<Rightarrow> 1 | Some n \<Rightarrow> n) (max (length scopes) 1) in
      if threads \<le> 1 then overlay_chunk layers scopes
      else let per = (length scopes + threads - 1) div threads in
        map_option concat (those (map (overlay_chunk layers) (chunks per scopes))))"

section \<open>The registry\<close>

definition compact_moved_roots :: "layered_base \<Rightarrow> node_id fset option" where
  "compact_moved_roots layers =
     map_option (\<lambda>ps. fset_of_list (map fst ps))
       (those (concat (map (\<lambda>layer. map (shared_pair_at layer) [0..<shared_len layer]) (tl (lb_layers layers)))))"

fun peek_pick :: "nat \<Rightarrow> 'e::linorder list list \<Rightarrow> (nat \<times> 'e) option \<Rightarrow> (nat \<times> 'e) option" where
  "peek_pick idx [] pick = pick"
| "peek_pick idx (run # runs) pick =
     peek_pick (Suc idx) runs
       (case run of
          [] \<Rightarrow> pick
        | entry # _ \<Rightarrow> (case pick of
              None \<Rightarrow> Some (idx, entry)
            | Some (_, best) \<Rightarrow> if entry < best then Some (idx, entry) else pick))"

lemma peek_pick_in:
  assumes "peek_pick idx runs pick = Some (i, e)"
  shows "pick = Some (i, e) \<or> (idx \<le> i \<and> i < idx + length runs \<and> runs ! (i - idx) \<noteq> [] \<and> hd (runs ! (i - idx)) = e)"
  using assms
proof (induction idx runs pick rule: peek_pick.induct)
  case (2 idx run runs pick)
  let ?pick = "case run of [] \<Rightarrow> pick | entry # _ \<Rightarrow> (case pick of None \<Rightarrow> Some (idx, entry)
    | Some (_, best) \<Rightarrow> if entry < best then Some (idx, entry) else pick)"
  have "?pick = pick \<or> (run \<noteq> [] \<and> ?pick = Some (idx, hd run))" by (auto split: list.splits option.splits)
  moreover have "?pick = Some (i, e) \<or> (Suc idx \<le> i \<and> i < Suc idx + length runs \<and> runs ! (i - Suc idx) \<noteq> [] \<and> hd (runs ! (i - Suc idx)) = e)"
    using 2 by simp
  moreover have "Suc idx \<le> i \<Longrightarrow> (run # runs) ! (i - idx) = runs ! (i - Suc idx)"
    by (simp add: nth_Cons' Suc_le_eq)
  ultimately show ?case by auto
qed simp

lemma peek_pick_least:
  shows "peek_pick idx runs pick = None \<longleftrightarrow> pick = None \<and> (\<forall>r \<in> set runs. r = [])"
    and "peek_pick idx runs pick = Some (i, e) \<Longrightarrow> (\<forall>b x. pick = Some (b, x) \<longrightarrow> e \<le> x) \<and> (\<forall>r \<in> set runs. r \<noteq> [] \<longrightarrow> e \<le> hd r)"
proof (induction idx runs pick rule: peek_pick.induct)
  case (2 idx run runs pick)
  {
    case 1
    show ?case using "2.IH"(1) by (auto split: list.splits option.splits if_splits)
  next
    case 2
    let ?pick = "case run of [] \<Rightarrow> pick | entry # _ \<Rightarrow> (case pick of None \<Rightarrow> Some (idx, entry)
      | Some (_, best) \<Rightarrow> if entry < best then Some (idx, entry) else pick)"
    have le: "pick = Some (b, x) \<Longrightarrow> \<exists>b' y. ?pick = Some (b', y) \<and> y \<le> x"
      "run \<noteq> [] \<Longrightarrow> \<exists>b' y. ?pick = Some (b', y) \<and> y \<le> hd run" for b x
      by (auto split: list.splits option.splits simp: not_less)
    have IH: "?pick = Some (b, y) \<Longrightarrow> e \<le> y" "r \<in> set runs \<Longrightarrow> r \<noteq> [] \<Longrightarrow> e \<le> hd r" for b y r
      using "2.IH"(2) 2 by simp_all
    show ?case
    proof (intro conjI allI ballI impI)
      show "e \<le> x" if "pick = Some (b, x)" for b x using le(1) [OF that] IH(1) by (blast intro: order_trans)
      show "e \<le> hd r" if "r \<in> set (run # runs)" "r \<noteq> []" for r
      proof (cases "r = run")
        case True
        then show ?thesis using le(2) that(2) IH(1) by (blast intro: order_trans)
      qed (use that IH(2) in auto)
    qed
  }
qed auto

function registry_merge :: "'e::linorder list list \<Rightarrow> 'e list" where
  "registry_merge runs =
     (case peek_pick 0 runs None of
        None \<Rightarrow> []
      | Some (idx, entry) \<Rightarrow> entry # registry_merge (runs[idx := tl (runs ! idx)]))"
  by pat_completeness auto
termination
proof (relation "measure (\<lambda>runs. sum_list (map length runs))")
  fix runs :: "'e::linorder list list" and r idx entry
  assume "peek_pick 0 runs None = Some r" "(idx, entry) = r"
  then have i: "idx < length runs" "runs ! idx \<noteq> []" using peek_pick_in [of 0 runs None idx entry] by auto
  have "length (runs ! idx) \<le> sum_list (map length runs)" using i(1) by (intro member_le_sum_list) auto
  then show "(runs[idx := tl (runs ! idx)], runs) \<in> measure (\<lambda>runs. sum_list (map length runs))"
    using i sum_list_update [of idx "map length runs" "length (tl (runs ! idx))"]
    by (cases "runs ! idx") (auto simp: map_update)
qed simp

declare registry_merge.simps [simp del]

definition for_each_registry_entry :: "layered_base \<Rightarrow> (node_id \<times> scope_id) list option" where
  "for_each_registry_entry layers = map_option registry_merge (those (map registry_iter (lb_layers layers)))"

text \<open>The second pass: the entries in order, the corrections woven in, duplicates dropped as they meet.\<close>

type_synonym registry_push = "(node_id \<times> scope_id) option \<times> registry_writer"

definition push_distinct :: "node_id \<times> scope_id \<Rightarrow> registry_push \<Rightarrow> registry_push" where
  "push_distinct entry st = (if fst st = Some entry then st else (Some entry, rw_push entry (snd st)))"

fun drain_corrections :: "(node_id \<times> scope_id) list \<Rightarrow> node_id \<times> scope_id \<Rightarrow> registry_push \<Rightarrow>
    (node_id \<times> scope_id) list \<times> registry_push" where
  "drain_corrections [] entry st = ([], st)"
| "drain_corrections (c # cs) entry st =
     (if c \<le> entry then drain_corrections cs entry (push_distinct c st) else (c # cs, st))"

fun weave_corrections :: "node_id fset \<Rightarrow> (node_id \<times> scope_id) list \<Rightarrow> (node_id \<times> scope_id) list \<Rightarrow> registry_push \<Rightarrow>
    registry_push" where
  "weave_corrections moved [] cs st = fold push_distinct cs st"
| "weave_corrections moved (entry # entries) cs st =
     (if fst entry |\<in>| moved then weave_corrections moved entries cs st
      else let (cs, st) = drain_corrections cs entry st in weave_corrections moved entries cs (push_distinct entry st))"

record merged_registry =
  mr_blob :: "(string \<times> bytes) option"
  mr_entries :: u64
  mr_corrections :: u64
  mr_moved_roots :: u64

definition compact_registry :: "layered_base \<Rightarrow> registry_encoding \<Rightarrow> merged_registry option" where
  "compact_registry layers encoding =
     do { moved \<leftarrow> compact_moved_roots layers;
          entries \<leftarrow> for_each_registry_entry layers;
          corrections \<leftarrow> those (map (\<lambda>(root, scope).
              do { p \<leftarrow> lb_shared_parent layers root; Some (case p of None \<Rightarrow> root | Some r \<Rightarrow> r, scope) })
            (filter (\<lambda>(root, _). root |\<in>| moved) entries));
          let corrections = sort_dedup corrections;
          let writer = snd (weave_corrections moved entries corrections (None, rw_new encoding));
          Some \<lparr>mr_blob = rw_finish writer, mr_entries = rw_entries writer,
            mr_corrections = word_of_nat (length corrections), mr_moved_roots = word_of_nat (fcard moved)\<rparr> }"

section \<open>The merged file\<close>

definition compact_layers :: "nat option \<Rightarrow> layered_base \<Rightarrow> i64 \<Rightarrow> write_options \<Rightarrow>
    (blob list \<times> compaction_stats) option" where
  "compact_layers cores layers seq opts =
     do { pairs \<leftarrow> lb_for_each_shared_pair layers;
          let (shared, shared_pairs) = compact_table pairs;
          overlays \<leftarrow> merge_overlays cores layers;
          let overlay_pairs = sum_list (map (\<lambda>(_, _, count). count) overlays);
          registry \<leftarrow> compact_registry layers (wo_registry opts);
          shared_keys \<leftarrow> table_keys shared;
          let shared_filter = build_with (map fst shared_keys) (unat shared_pairs) (filter_bits opts);
          overlay_keys \<leftarrow> those (map (\<lambda>(scope, data, _).
            map_option (map (\<lambda>(k, _). overlay_key scope k)) (table_keys data)) overlays);
          let overlay_filter = build_with (concat overlay_keys) (unat overlay_pairs) (filter_bits opts);
          let blobs = make_blob seq GLOBAL_BLOB_TYPE shared [] #
            map (\<lambda>(scope, data, _). make_blob seq SCOPE_BLOB_TYPE data (scope_props scope)) overlays @
            (case mr_blob registry of None \<Rightarrow> [] | Some (t, data) \<Rightarrow> [make_blob seq t data []]) @
            filter_blobs seq (named_filters
              [(SHARED_FILTER_BLOB_TYPE, shared_filter), (OVERLAY_FILTER_BLOB_TYPE, overlay_filter)]);
          let stats = \<lparr>cs_shared_pairs = shared_pairs, cs_overlay_pairs = overlay_pairs,
            cs_scopes = word_of_nat (length overlays), cs_registry_entries = mr_entries registry,
            cs_registry_corrections = mr_corrections registry, cs_moved_roots = mr_moved_roots registry\<rparr>;
          if wo_member_index opts then
            do { (members, sp, op) \<leftarrow> member_loop (make_blob seq) (wo_members opts)
                   ((Shared, 0, [], shared) # map (\<lambda>(scope, data, _). (Overlay, scope, scope_props scope, data)) overlays) [] [];
                 Some (blobs @ members @ filter_blobs seq (member_filters sp op (filter_bits opts)), stats) }
          else Some (blobs, stats) }"

section \<open>Threads do not matter\<close>

lemma map_filter_append: "List.map_filter f (xs @ ys) = List.map_filter f xs @ List.map_filter f ys"
  by (induction xs) (auto simp: List.map_filter_simps split: option.split)

lemma those_append: "those (xs @ ys) = do { a \<leftarrow> those xs; b \<leftarrow> those ys; Some (a @ b) }"
proof (induction xs)
  case Nil
  then show ?case by (cases "those ys") simp_all
next
  case (Cons x xs)
  then show ?case by (cases x; cases "those xs"; cases "those ys") simp_all
qed

lemma overlay_chunk_append:
  "overlay_chunk layers (a @ b) = do { x \<leftarrow> overlay_chunk layers a; y \<leftarrow> overlay_chunk layers b; Some (x @ y) }"
  by (cases "those (map (one_overlay layers) a)"; cases "those (map (one_overlay layers) b)")
    (simp_all add: overlay_chunk_def those_append map_filter_append)

lemma concat_chunks: "0 < per \<Longrightarrow> concat (chunks per xs) = xs"
proof (induction per xs rule: chunks.induct)
  case (1 per xs)
  then show ?case by (cases "xs = []") (simp_all add: chunks.simps [of per])
qed

lemma overlay_chunks: "map_option concat (those (map (overlay_chunk layers) css)) = overlay_chunk layers (concat css)"
proof (induction css)
  case (Cons cs css)
  then show ?case
    by (cases "those (map (overlay_chunk layers) css)"; cases "overlay_chunk layers cs"; cases "overlay_chunk layers (concat css)")
      (simp_all add: overlay_chunk_append)
qed (simp add: overlay_chunk_def List.map_filter_simps)

lemma merge_overlays_sequential: "merge_overlays cores layers = overlay_chunk layers (lb_scopes layers)"
proof -
  have "0 < (n + t - 1) div t" if "1 < t" "t \<le> max n 1" for n t :: nat
    using that by (simp add: div_greater_zero_iff)
  then show ?thesis by (simp add: merge_overlays_def overlay_chunks concat_chunks Let_def not_le min_def)
qed

section \<open>The registry, compared with sorting everything\<close>

lemma registry_merge_spec:
  assumes "\<forall>r \<in> set runs. sorted r"
  shows "sorted (registry_merge runs)" and "set (registry_merge runs) = (\<Union>r \<in> set runs. set r)"
proof -
  have "sorted (registry_merge runs) \<and> set (registry_merge runs) = (\<Union>r \<in> set runs. set r)"
    using assms
  proof (induction runs rule: registry_merge.induct)
    case (1 runs)
    show ?case
    proof (cases "peek_pick 0 runs None")
      case None
      then show ?thesis using peek_pick_least(1) [of 0 runs None] by (simp add: registry_merge.simps [of runs])
    next
      case (Some p)
      obtain i e where p: "p = (i, e)" by fastforce
      let ?runs = "runs[i := tl (runs ! i)]"
      have i: "i < length runs" "runs ! i = e # tl (runs ! i)"
        using peek_pick_in [of 0 runs None i e] Some p by (auto simp: hd_Cons_tl [symmetric] simp del: hd_Cons_tl)
      have least: "e \<le> hd r" if "r \<in> set runs" "r \<noteq> []" for r
        using peek_pick_least(2) [of 0 runs None i e] Some p that by auto
      have sorted: "\<forall>r \<in> set ?runs. sorted r"
        using 1(2) i by (auto dest!: set_update_subset_insert [THEN subsetD] simp: sorted_tl)
      note IH = 1(1) [OF Some p [symmetric] sorted]
      have "runs = take i runs @ (e # tl (runs ! i)) # drop (Suc i) runs" using id_take_nth_drop [OF i(1)] i(2) by simp
      then have "(\<Union>r \<in> set runs. set r) = (\<Union>r \<in> set (take i runs @ (e # tl (runs ! i)) # drop (Suc i) runs). set r)" by simp
      moreover have "?runs = take i runs @ tl (runs ! i) # drop (Suc i) runs" by (rule upd_conv_take_nth_drop [OF i(1)])
      ultimately have sub: "(\<Union>r \<in> set runs. set r) = insert e (\<Union>r \<in> set ?runs. set r)" by auto
      have "e \<le> x" if x: "x \<in> (\<Union>r \<in> set runs. set r)" for x
      proof -
        obtain r where r: "r \<in> set runs" "x \<in> set r" using x by blast
        then have "sorted r" "r \<noteq> []" using 1(2) by auto
        then have "hd r \<le> x" using r(2) by (cases r) auto
        then show ?thesis using least [OF r(1) \<open>r \<noteq> []\<close>] by simp
      qed
      then show ?thesis using IH sub Some p by (simp add: registry_merge.simps [of runs])
    qed
  qed
  then show "sorted (registry_merge runs)" and "set (registry_merge runs) = (\<Union>r \<in> set runs. set r)" by blast+
qed

fun weave :: "'e::linorder list \<Rightarrow> 'e list \<Rightarrow> 'e list" where
  "weave [] cs = cs"
| "weave (e # es) cs = takeWhile (\<lambda>c. c \<le> e) cs @ e # weave es (dropWhile (\<lambda>c. c \<le> e) cs)"

lemma drain_weave:
  "drain_corrections cs e st = (dropWhile (\<lambda>c. c \<le> e) cs, fold push_distinct (takeWhile (\<lambda>c. c \<le> e) cs) st)"
  by (induction cs e st rule: drain_corrections.induct) auto

lemma weave_corrections_weave:
  "weave_corrections moved entries cs st = fold push_distinct (weave (filter (\<lambda>e. fst e |\<notin>| moved) entries) cs) st"
  by (induction moved entries cs st rule: weave_corrections.induct) (auto simp: drain_weave)

lemma weave_spec:
  assumes "sorted es" and "sorted cs"
  shows "sorted (weave es cs)" and "set (weave es cs) = set es \<union> set cs"
proof -
  have "sorted (weave es cs) \<and> set (weave es cs) = set es \<union> set cs"
    using assms
  proof (induction es arbitrary: cs)
    case (Cons e es)
    let ?low = "takeWhile (\<lambda>c. c \<le> e) cs" and ?high = "dropWhile (\<lambda>c. c \<le> e) cs"
    have "sorted (?low @ ?high)" using Cons.prems by simp
    then have s: "sorted ?low" "sorted ?high" by (simp_all only: sorted_append)
    note IH = Cons.IH [OF _ s(2)]
    have high: "e \<le> x" if "x \<in> set ?high" for x
      using that s(2) hd_dropWhile [of "\<lambda>c. c \<le> e" cs] by (cases ?high) (auto simp: less_imp_le not_le dest: less_le_trans)
    have low: "\<forall>x \<in> set ?low. x \<le> e" by (auto dest: set_takeWhileD)
    have "set cs = set ?low \<union> set ?high" by (metis set_append takeWhile_dropWhile_id)
    then show ?case using IH Cons.prems s low high by (force simp: sorted_append)
  qed simp
  then show "sorted (weave es cs)" and "set (weave es cs) = set es \<union> set cs" by blast+
qed

lemma fold_push_distinct: "snd (fold push_distinct xs (None, w)) = fold rw_push (remdups_adj xs) w"
proof -
  have "snd (fold push_distinct xs (Some x, w)) = fold rw_push (tl (remdups_adj (x # xs))) w" for x xs w
  proof (induction xs arbitrary: x w)
    case (Cons y xs)
    then show ?case by (cases "x = y") (auto simp: push_distinct_def remdups_adj_Cons [of y] split: list.split)
  qed simp
  then show ?thesis by (cases xs) (simp_all add: push_distinct_def remdups_adj_Cons split: list.split)
qed

lemma weave_pushes:
  assumes "sorted entries" and "sorted cs"
  shows "snd (weave_corrections moved entries cs (None, w)) =
    fold rw_push (sort_dedup (filter (\<lambda>e. fst e |\<notin>| moved) entries @ cs)) w"
proof -
  have s: "sorted (filter (\<lambda>e. fst e |\<notin>| moved) entries)" using assms(1) by (simp add: sorted_wrt_filter)
  note v = weave_spec [OF s assms(2)]
  have "remdups_adj (weave (filter (\<lambda>e. fst e |\<notin>| moved) entries) cs) = sort_dedup (filter (\<lambda>e. fst e |\<notin>| moved) entries @ cs)"
    using v by (intro strict_sorted_unique) (auto simp: strict_sorted_remdups_adj)
  then show ?thesis by (simp add: weave_corrections_weave fold_push_distinct)
qed

section \<open>What a compaction writes\<close>

text \<open>
  What folding keeps of the registries: an entry of a layer names a node that no layer up to its own
  re-roots; the entries are sorted; and a layer that stores overlay pairs has entries.
\<close>

fun live_from :: "node_id set \<Rightarrow> layer_contents list \<Rightarrow> bool" where
  "live_from keys [] = True"
| "live_from keys (l # ls) =
     ((\<forall>e \<in> set (snd l). fst e \<notin> keys \<union> keys_of (snap_global (fst l))) \<and> live_from (keys \<union> keys_of (snap_global (fst l))) ls)"

abbreviation registry_live :: "layer_contents list \<Rightarrow> bool" where
  "registry_live ls \<equiv> live_from {} ls"

lemma live_from_entry: "live_from keys ls \<Longrightarrow> l \<in> set ls \<Longrightarrow> e \<in> set (snd l) \<Longrightarrow> fst e \<notin> keys"
  by (induction keys ls rule: live_from.induct) auto

lemma live_from_append: "live_from keys (as @ bs) \<longleftrightarrow> live_from keys as \<and> live_from (keys \<union> all_keys (globals as)) bs"
  by (induction keys as rule: live_from.induct) (auto simp: Un_assoc)

lemma live_from_mono: "live_from keys ls \<Longrightarrow> keys' \<subseteq> keys \<Longrightarrow> live_from keys' ls"
  by (induction keys ls arbitrary: keys' rule: live_from.induct) (auto, metis Un_mono order_refl)

definition stack_wf :: "layered_base \<Rightarrow> layer_contents list \<Rightarrow> bool" where
  "stack_wf lb ls \<longleftrightarrow> lb_layers lb \<noteq> [] \<and> stack_serves lb ls \<and> registry_live ls \<and>
     (\<forall>l \<in> set ls. (snd l = [] \<longrightarrow> snap_scopes (fst l) = []) \<and> sorted_wrt (<) (snd l))"

definition merged_entries :: "layer_contents list \<Rightarrow> (node_id \<times> scope_id) list" where
  "merged_entries ls = sort_dedup (map (\<lambda>e. (pass (globals ls) (fst e), snd e)) (concat (map snd ls)))"

definition merged_snapshot :: "layered_base \<Rightarrow> layer_contents list \<Rightarrow> forest_snapshot" where
  "merged_snapshot lb ls = \<lparr>snap_global = stack_pairs (globals ls),
     snap_scopes = map (\<lambda>s. (s, stack_pairs (overlays_in ls s))) (filter (\<lambda>s. stack_pairs (overlays_in ls s) \<noteq> []) (lb_scopes lb))\<rparr>"

text \<open>Totals that fit a machine word.\<close>

definition merged_small :: "layered_base \<Rightarrow> layer_contents list \<Rightarrow> bool" where
  "merged_small lb ls \<longleftrightarrow> length (stack_pairs (globals ls)) < 2 ^ 59 \<and>
     sum_list (map (\<lambda>s. length (stack_pairs (overlays_in ls s))) (lb_scopes lb)) < 2 ^ 59 \<and> length (merged_entries ls) < 2 ^ 59"

lemma stack_pairs_sorted: "sorted_wrt (<) (map fst (stack_pairs pss))"
  by (simp add: stack_pairs_def comp_def)

lemma those_stack_pairs:
  assumes "list_all2 shared_holds bs pss"
  shows "those (concat (map (\<lambda>layer. map (shared_pair_at layer) [0..<shared_len layer]) bs)) = Some (concat pss)"
  using assms
proof (induction bs pss rule: list_all2_induct)
  case (Cons b bs ps pss)
  have "map (shared_pair_at b) [0..<shared_len b] = map Some ps"
    using shared_tables.len_holds [OF Cons.hyps(1)] shared_tables.pick_holds [OF Cons.hyps(1)] by (intro nth_equalityI) auto
  moreover have "those (map Some ps) = Some ps" by (induction ps) simp_all
  ultimately show ?case using Cons.IH by (simp add: those_append)
qed simp

lemma moved_roots_spec:
  assumes "stack_serves lb ls"
  obtains moved where "compact_moved_roots lb = Some moved" and "fset moved = all_keys (tl (globals ls))"
proof -
  have "list_all2 shared_holds (tl (lb_layers lb)) (tl (globals ls))"
    using stack_holds(1) [OF assms] by (cases "lb_layers lb"; cases ls) auto
  from those_stack_pairs [OF this] show thesis
    by (intro that [of "fset_of_list (map fst (concat (tl (globals ls))))"])
      (simp_all add: compact_moved_roots_def fset_of_list.rep_eq all_keys_def keys_of_def image_UN)
qed

lemma registry_entries_spec:
  assumes "stack_wf lb ls"
  obtains es where "for_each_registry_entry lb = Some es" and "sorted es" and "set es = set (concat (map snd ls))"
proof -
  have h: "list_all2 layer_serves (lb_layers lb) ls" using assms by (simp add: stack_wf_def stack_serves_def)
  have "those (map registry_iter bs) = Some (map snd ls)" if "list_all2 layer_serves bs ls" for bs
    using that
  proof (induction bs ls rule: list_all2_induct)
    case (Cons b bs l ls)
    have "registry_iter b = Some (snd l)"
      using Cons.hyps(1) serves_answers(1) [of b "fst l" "snd l"] by (auto simp: layer_serves_def answers_def)
    with Cons.IH show ?case by simp
  qed simp
  note runs = this [OF h]
  have "\<forall>r \<in> set (map snd ls). sorted r" using assms by (auto simp: stack_wf_def strict_sorted_iff)
  from registry_merge_spec [OF this] runs show thesis
    by (intro that [of "registry_merge (map snd ls)"]) (simp_all add: for_each_registry_entry_def)
qed

text \<open>The documented test for a moved root is exact.\<close>

lemma moved_exact:
  assumes live: "registry_live ls" and e: "e \<in> set (concat (map snd ls))"
  shows "fst e \<in> all_keys (tl (globals ls)) \<longleftrightarrow> fst e \<in> all_keys (globals ls)"
proof (cases ls)
  case (Cons l0 rest)
  have "fst e \<notin> keys_of (snap_global (fst l0))"
    using live e Cons live_from_entry [of "keys_of (snap_global (fst l0))" rest _ e] by auto
  then show ?thesis using Cons by simp
qed (use e in simp)

lemma compact_registry_spec:
  assumes wf: "stack_wf lb ls"
  obtains r where "compact_registry lb enc = Some r" and "mr_blob r = encode_registry (merged_entries ls) enc"
proof -
  have st: "stack_serves lb ls" and live: "registry_live ls" using wf by (simp_all add: stack_wf_def)
  obtain moved where moved: "compact_moved_roots lb = Some moved" "fset moved = all_keys (tl (globals ls))"
    using moved_roots_spec [OF st] .
  obtain es where es: "for_each_registry_entry lb = Some es" "sorted es" "set es = set (concat (map snd ls))"
    using registry_entries_spec [OF wf] .
  let ?live = "\<lambda>e. (pass (globals ls) (fst e), snd e)"
  let ?cs = "map ?live (filter (\<lambda>(root, _). root |\<in>| moved) es)"
  have "those (map (\<lambda>(root, scope). do { p \<leftarrow> lb_shared_parent lb root; Some (case p of None \<Rightarrow> root | Some r \<Rightarrow> r, scope) })
      (filter (\<lambda>(root, _). root |\<in>| moved) es)) = Some ?cs"
    by (intro those_map_Some) (auto simp: stack_parents(1) [OF st] parent_of_def)
  moreover have "sort_dedup (filter (\<lambda>e. fst e |\<notin>| moved) es @ sort_dedup ?cs) = merged_entries ls"
  proof -
    have "stack_ok (globals ls)" using st by (simp add: stack_serves_def)
    note p = pass_eq_iff [OF stack_lowers [OF this]]
    have m: "fst e |\<in>| moved \<longleftrightarrow> pass (globals ls) (fst e) \<noteq> fst e" if "e \<in> set es" for e
      using moved_exact [OF live, of e] that es(3) p [of "fst e"] moved(2) by auto
    have "set (filter (\<lambda>e. fst e |\<notin>| moved) es @ sort_dedup ?cs) = ?live ` set es"
    proof (intro equalityI subsetI)
      fix x assume "x \<in> set (filter (\<lambda>e. fst e |\<notin>| moved) es @ sort_dedup ?cs)"
      then consider "x \<in> set es" "fst x |\<notin>| moved" | "x \<in> ?live ` set es" by auto
      then show "x \<in> ?live ` set es"
      proof cases
        case 1
        then have "x = ?live x" using m [OF 1(1)] by (simp add: prod_eq_iff)
        then show ?thesis using 1(1) by blast
      qed
    next
      fix x assume "x \<in> ?live ` set es"
      then obtain e where e: "e \<in> set es" "x = ?live e" by blast
      show "x \<in> set (filter (\<lambda>e. fst e |\<notin>| moved) es @ sort_dedup ?cs)"
      proof (cases "fst e |\<in>| moved")
        case True
        then have "x \<in> set ?cs" using e by (auto simp: case_prod_beta)
        then show ?thesis by simp
      next
        case False
        then have "x = e" using m [OF e(1)] e(2) by (simp add: prod_eq_iff)
        then show ?thesis using False e(1) by simp
      qed
    qed
    then show ?thesis unfolding merged_entries_def by (intro sort_dedup_cong) (simp add: es(3))
  qed
  then have "snd (weave_corrections moved es (sort_dedup ?cs) (None, rw_new enc)) = fold rw_push (merged_entries ls) (rw_new enc)"
    using weave_pushes [OF es(2) strict_sorted_imp_sorted [OF sorted_sort_dedup]] by simp
  ultimately show thesis
    using moved(1) es(1) by (intro that) (auto simp: compact_registry_def encode_registry_def Let_def)
qed

lemma compact_table_counted: "compact_table ps = (counted pair_bytes ps, word_of_nat (length ps))"
  by (simp add: compact_table_def close_open_table Let_def)

lemma overlay_chunk_spec:
  assumes "stack_serves lb ls"
  shows "overlay_chunk lb scopes = Some (map (\<lambda>s. (s, counted pair_bytes (stack_pairs (overlays_in ls s)),
      word_of_nat (length (stack_pairs (overlays_in ls s))))) (filter (\<lambda>s. stack_pairs (overlays_in ls s) \<noteq> []) scopes))"
proof (induction scopes)
  case (Cons s scopes)
  have "overlay_chunk lb [s] = Some (if stack_pairs (overlays_in ls s) = [] then []
      else [(s, counted pair_bytes (stack_pairs (overlays_in ls s)), word_of_nat (length (stack_pairs (overlays_in ls s))))])"
    by (simp add: overlay_chunk_def one_overlay_def stack_sweeps(2) [OF assms] compact_table_counted List.map_filter_simps)
  then show ?case using overlay_chunk_append [of lb "[s]" scopes] Cons by simp
qed (simp add: overlay_chunk_def List.map_filter_simps)

lemma member_le_sum: "x \<in> set xs \<Longrightarrow> f x \<le> sum_list (map f xs)" for f :: "'a \<Rightarrow> nat"
  by (induction xs) auto

lemma merged_snapshot_ok:
  assumes "merged_small lb ls"
  shows "snapshot_ok (merged_snapshot lb ls)"
proof -
  have "length (stack_pairs (overlays_in ls s)) < 2 ^ 59" if "s \<in> set (lb_scopes lb)" for s
    using member_le_sum [OF that, of "\<lambda>s. length (stack_pairs (overlays_in ls s))"] assms by (simp add: merged_small_def)
  then show ?thesis using assms by (auto simp: snapshot_ok_def merged_snapshot_def merged_small_def stack_pairs_sorted)
qed

lemma sum_words: "sum_list (map f xs) < 2 ^ 64 \<Longrightarrow> unat (sum_list (map (\<lambda>x. word_of_nat (f x) :: u64) xs)) = sum_list (map f xs)"
proof -
  have "sum_list (map (\<lambda>x. word_of_nat (f x) :: u64) xs) = word_of_nat (sum_list (map f xs))" by (induction xs) simp_all
  then show "sum_list (map f xs) < 2 ^ 64 \<Longrightarrow> ?thesis" by (simp add: unat_word_of_nat_small)
qed

lemma sum_list_filter_le: "sum_list (map f (filter P xs)) \<le> sum_list (map f xs)" for f :: "'a \<Rightarrow> nat"
  by (induction xs) auto

lemma compact_layers_spec:
  assumes wf: "stack_wf lb ls" and small: "merged_small lb ls"
  obtains stats where "compact_layers cores lb seq opts = Some (file_blobs seq opts (merged_snapshot lb ls) (merged_entries ls), stats)"
    and "cs_shared_pairs stats = word_of_nat (length (stack_pairs (globals ls)))"
proof -
  have st: "stack_serves lb ls" using wf by (simp add: stack_wf_def)
  let ?snap = "merged_snapshot lb ls" and ?ss = "filter (\<lambda>s. stack_pairs (overlays_in ls s) \<noteq> []) (lb_scopes lb)"
  let ?sp = "\<lambda>s. stack_pairs (overlays_in ls s)"
  have ok: "snapshot_ok ?snap" by (rule merged_snapshot_ok [OF small])
  then have n: "length (snap_global ?snap) < 2 ^ 59" "\<forall>s \<in> set ?ss. length (?sp s) < 2 ^ 59"
    by (auto simp: snapshot_ok_def merged_snapshot_def)
  obtain r where r: "compact_registry lb (wo_registry opts) = Some r" "mr_blob r = encode_registry (merged_entries ls) (wo_registry opts)"
    using compact_registry_spec [OF wf] .
  have overlays: "merge_overlays cores lb = Some (map (\<lambda>s. (s, counted pair_bytes (?sp s), word_of_nat (length (?sp s)))) ?ss)"
    by (simp add: merge_overlays_sequential overlay_chunk_spec [OF st])
  have keys: "those (map (\<lambda>(scope, data, _). map_option (map (\<lambda>(k, _). overlay_key scope k)) (table_keys data))
      (map (\<lambda>s. (s, counted pair_bytes (?sp s), word_of_nat (length (?sp s)) :: u64)) ?ss)) =
      Some (map (\<lambda>s. map (\<lambda>(k, _). overlay_key s k) (?sp s)) ?ss)"
  proof -
    have "those (map (\<lambda>s. map_option (map (\<lambda>(k, _). overlay_key s k)) (table_keys (counted pair_bytes (?sp s)))) ?ss) =
        Some (map (\<lambda>s. map (\<lambda>(k, _). overlay_key s k) (?sp s)) ?ss)"
      using n(2) by (intro those_map_Some) (simp add: table_keys_counted)
    then show ?thesis by (simp add: comp_def)
  qed
  have "sum_list (map (\<lambda>s. length (?sp s)) ?ss) < 2 ^ 64"
    using sum_list_filter_le [of "\<lambda>s. length (?sp s)" "\<lambda>s. ?sp s \<noteq> []" "lb_scopes lb"] small by (simp add: merged_small_def)
  note u = sum_words [OF this]
  have g: "snap_global ?snap = stack_pairs (globals ls)" and sc: "snap_scopes ?snap = map (\<lambda>s. (s, ?sp s)) ?ss"
    by (simp_all add: merged_snapshot_def)
  have t: "make_blob seq GLOBAL_BLOB_TYPE (counted pair_bytes (stack_pairs (globals ls))) [] #
      map (\<lambda>s. make_blob seq SCOPE_BLOB_TYPE (counted pair_bytes (?sp s)) (scope_props s)) ?ss @
      registry_blobs seq opts (merged_entries ls) @ filter_blobs seq (key_filters opts ?snap) =
      table_blobs seq opts ?snap (merged_entries ls)"
    by (simp add: table_blobs_def g sc scope_blob_def comp_def)
  have f: "key_filters opts ?snap = named_filters
      [(SHARED_FILTER_BLOB_TYPE, build_with (map fst (stack_pairs (globals ls))) (length (stack_pairs (globals ls))) (filter_bits opts)),
       (OVERLAY_FILTER_BLOB_TYPE, build_with (concat (map (\<lambda>s. map (\<lambda>(k, _). overlay_key s k) (?sp s)) ?ss))
         (sum_list (map (\<lambda>s. length (?sp s)) ?ss)) (filter_bits opts))]"
    by (simp add: key_filters_def g sc comp_def)
  have ul: "unat (word_of_nat (length (stack_pairs (globals ls))) :: u64) = length (stack_pairs (globals ls))"
    using n(1) g by (simp add: unat_word_of_nat_small)
  have members: "do { (members, sp, op) \<leftarrow> member_loop (make_blob seq) (wo_members opts)
        ((Shared, 0, [], counted pair_bytes (stack_pairs (globals ls))) #
         map (\<lambda>s. (Overlay, s, scope_props s, counted pair_bytes (?sp s))) ?ss) [] [];
      Some (blobs @ members @ filter_blobs seq (member_filters sp op (filter_bits opts))) } =
    Some (blobs @ index_blobs seq opts ?snap)" for blobs
    using member_loop_tables [OF ok refl refl, of seq opts blobs] by (simp add: g sc comp_def)
  obtain ms sp op where ml: "member_loop (make_blob seq) (wo_members opts)
        ((Shared, 0, [], counted pair_bytes (stack_pairs (globals ls))) #
         map (\<lambda>s. (Overlay, s, scope_props s, counted pair_bytes (?sp s))) ?ss) [] [] = Some (ms, sp, op)"
    "ms @ filter_blobs seq (member_filters sp op (filter_bits opts)) = index_blobs seq opts ?snap"
    using members [of "[]"] by (auto split: bind_splits)
  have fb: "file_blobs seq opts ?snap (merged_entries ls) =
      make_blob seq GLOBAL_BLOB_TYPE (counted pair_bytes (stack_pairs (globals ls))) [] #
      map (\<lambda>s. make_blob seq SCOPE_BLOB_TYPE (counted pair_bytes (?sp s)) (scope_props s)) ?ss @
      (case mr_blob r of None \<Rightarrow> [] | Some (t, data) \<Rightarrow> [make_blob seq t data []]) @
      filter_blobs seq (key_filters opts ?snap) @
      (if wo_member_index opts then ms @ filter_blobs seq (member_filters sp op (filter_bits opts)) else [])"
    by (simp add: file_blobs_def t [symmetric] ml(2) registry_blobs_def r(2))
  show thesis
    by (rule that [of "\<lparr>cs_shared_pairs = word_of_nat (length (stack_pairs (globals ls))),
        cs_overlay_pairs = sum_list (map (\<lambda>s. word_of_nat (length (?sp s))) ?ss), cs_scopes = word_of_nat (length ?ss),
        cs_registry_entries = mr_entries r, cs_registry_corrections = mr_corrections r, cs_moved_roots = mr_moved_roots r\<rparr>"])
      (simp_all add: compact_layers_def stack_sweeps(1) [OF st] compact_table_counted overlays r(1)
        table_keys_counted [OF n(1) [unfolded g]] keys [unfolded map_map comp_def prod.case] u ul ml(1) fb f comp_def Let_def del: member_loop.simps)
qed

text \<open>
  C14: the merge of committed layers writes what a compaction from scratch would. The blobs are those
  of one file that holds, for the shared tier and for every scope, each key of the stretch once with
  the node the stretch resolves it to, and the entries of every layer with their roots resolved,
  sorted and without repetition: although only the entries with a moved root were re-sorted, and
  however many threads took part.
\<close>

theorem compact_layers_matches_reference:
  assumes "stack_wf lb ls" and "merged_small lb ls"
  shows "\<exists>stats. compact_layers cores lb seq opts = Some (file_blobs seq opts (merged_snapshot lb ls) (merged_entries ls), stats) \<and>
    cs_shared_pairs stats = word_of_nat (length (stack_pairs (globals ls)))"
  using compact_layers_spec [OF assms] by metis

abbreviation small_layers :: "layer_contents list" where
  "small_layers \<equiv> [(small_snapshot, [(3, 7), (5, 7)]), (small_delta, [])]"

lemma small_keys: "sorted_list_of_set {5, 9 :: node_id} = [5, 9]"
proof -
  have "{5, 9} = set [5, 9 :: node_id]" by simp
  then show ?thesis by (simp only: sorted_list_of_set_sort_remdups) simp
qed

lemma small_merge:
  assumes "serves b small_snapshot [(3, 7), (5, 7)] True" and "serves d small_delta [] True"
  shows "stack_wf (pushed (lb_new b) d) small_layers" and "merged_small (pushed (lb_new b) d) small_layers"
    and "merged_snapshot (pushed (lb_new b) d) small_layers = \<lparr>snap_global = [(5, 4), (9, 4)], snap_scopes = [(7, [(5, 3)])]\<rparr>"
    and "merged_entries small_layers = [(3, 7), (4, 7)]"
proof -
  note st = small_stack_serves [OF assms]
  show wf: "stack_wf (pushed (lb_new b) d) small_layers"
    using st by (auto simp: stack_wf_def pushed_def lb_new_def small_snapshot_def small_delta_def keys_of_def)
  have "overlay_scopes b = [7]" "overlay_scopes d = []"
    using serves_answers(1) [OF assms(1)] serves_answers(1) [OF assms(2)] by (simp_all add: answers_def small_snapshot_def small_delta_def)
  then have scopes: "lb_scopes (pushed (lb_new b) d) = [7]" by (simp add: lb_scopes_def pushed_def lb_new_def sort_dedup_def)
  have pairs: "stack_pairs (globals small_layers) = [(5, 4), (9, 4)]" "stack_pairs (overlays_in small_layers 7) = [(5, 3)]"
    using small_keys by (simp_all add: stack_pairs_def keys_of_def small_snapshot_def small_delta_def scope_pairs_def hop_def insert_commute)
  show e: "merged_entries small_layers = [(3, 7), (4, 7)]"
    by (simp add: merged_entries_def small_snapshot_def small_delta_def hop_def sort_dedup_def)
  show "merged_small (pushed (lb_new b) d) small_layers" unfolding merged_small_def scopes e pairs(1) by (simp add: pairs(2) [simplified])
  show "merged_snapshot (pushed (lb_new b) d) small_layers = \<lparr>snap_global = [(5, 4), (9, 4)], snap_scopes = [(7, [(5, 3)])]\<rparr>"
    unfolding merged_snapshot_def pairs(1) scopes by (simp add: pairs(2) [simplified])
qed

theorem compact_layers_matches_reference_witness:
  "\<exists>b d stats. compact_layers (Some 4) (pushed (lb_new b) d) 3 small_options =
     Some (file_blobs 3 small_options \<lparr>snap_global = [(5, 4), (9, 4)], snap_scopes = [(7, [(5, 3)])]\<rparr> [(3, 7), (4, 7)], stats)"
proof -
  obtain b d where bd: "serves b small_snapshot [(3, 7), (5, 7)] True" "serves d small_delta [] True"
    using small_serves small_delta_serves by metis
  note m = small_merge [OF bd]
  from compact_layers_matches_reference [OF m(1,2), of "Some 4" 3 small_options] show ?thesis
    unfolding m(3,4) by blast
qed

end
