(* ===== verification/Stack_Splice.thy ===== *)
theory Stack_Splice
  imports Compact
begin

text \<open>
  Stacks that grow and shrink. A fold pushes the memtable, a compaction starts over with one layer,
  and a merge replaces a stretch of layers by the file that compaction wrote for it
  (\<^verbatim>\<open>LayeredBase::slice\<close> and \<^verbatim>\<open>LayeredBase::spliced\<close>). All three keep the invariant of the stack, and the
  spliced stack resolves every node as before, whatever was pushed above it meanwhile.
\<close>

section \<open>Tables\<close>

lemma stack_ok_append: "stack_ok (as @ bs) \<Longrightarrow> stack_ok as \<and> stack_ok bs"
proof (induction bs rule: rev_induct)
  case (snoc b bs)
  have "stack_ok ((as @ bs) @ [b])" using snoc.prems by simp
  then show ?case using snoc.IH unfolding stack_ok_snoc by auto
qed (simp add: stack_ok.empty)

lemma stack_ok_disjoint: "stack_ok (as @ bs) \<Longrightarrow> all_keys as \<inter> all_keys bs = {}"
proof (induction bs rule: rev_induct)
  case (snoc b bs)
  have "stack_ok ((as @ bs) @ [b])" using snoc.prems by simp
  then show ?case using snoc.IH unfolding stack_ok_snoc by auto
qed simp

lemma keys_of_stack_pairs [simp]: "keys_of (stack_pairs pss) = all_keys pss"
  by (simp add: keys_of_def stack_pairs_def image_image)

lemma hop_stack_pairs: "stack_ok pss \<Longrightarrow> hop (stack_pairs pss) x = pass pss x"
  using pass_eq_iff [OF stack_lowers, of pss x] by (auto simp: hop_def stack_pairs_def map_of_tagged)

lemma pass_splice: "stack_ok pss \<Longrightarrow> pass (as @ [stack_pairs pss] @ bs) x = pass (as @ pss @ bs) x"
  by (simp add: hop_stack_pairs)

text \<open>The value of a merged pair is keyed neither in the stretch nor below it.\<close>

lemma pass_below:
  assumes "stack_ok (as @ pss)" and "k \<in> all_keys pss"
  shows "pass pss k \<notin> all_keys (as @ pss)"
proof -
  have "k \<notin> all_keys as" using stack_ok_disjoint [OF assms(1)] assms(2) by blast
  then have "pass as k = k" using pass_eq_iff [OF stack_lowers] stack_ok_append [OF assms(1)] by blast
  then show ?thesis using pass_unkeyed [OF assms(1), of k] by simp
qed

lemma splice_bottom:
  assumes "stack_ok (as @ pss)"
  shows "stack_ok (as @ [stack_pairs pss])"
proof -
  have ok: "stack_ok as" "stack_ok pss" using stack_ok_append [OF assms] by simp_all
  have "lowers (stack_pairs pss)"
    using pass_le [OF stack_lowers [OF ok(2)]] pass_eq_iff [OF stack_lowers [OF ok(2)]]
    by (auto simp: lowers_def stack_pairs_def less_le)
  moreover have "snd ` set (stack_pairs pss) \<inter> (all_keys as \<union> all_keys pss) = {}"
    using pass_below [OF assms] by (auto simp: stack_pairs_def)
  moreover have "all_keys pss \<inter> all_keys as = {}" using stack_ok_disjoint [OF assms] by blast
  ultimately show ?thesis using ok(1) by (simp add: stack_ok_snoc)
qed

lemma splice_ok: "stack_ok (as @ pss @ bs) \<Longrightarrow> stack_ok (as @ [stack_pairs pss] @ bs)"
proof (induction bs rule: rev_induct)
  case Nil
  then show ?case using splice_bottom by simp
next
  case (snoc b bs)
  have "stack_ok ((as @ pss @ bs) @ [b])" using snoc.prems by simp
  then have "stack_ok ((as @ [stack_pairs pss] @ bs) @ [b])"
    using snoc.IH unfolding stack_ok_snoc by (simp add: Un_assoc)
  then show ?case by simp
qed

section \<open>Layers\<close>

lemma live_splice:
  assumes ok: "stack_ok (globals as @ globals ss)" and live: "live_from {} (as @ ss @ bs)"
    and g: "snap_global snap = stack_pairs (globals ss)"
  shows "live_from {} (as @ [(snap, merged_entries ss)] @ bs)"
proof -
  let ?G = "globals ss"
  have l: "live_from {} as" "live_from (all_keys (globals as)) ss" "live_from (all_keys (globals as) \<union> all_keys ?G) bs"
    using live by (simp_all add: live_from_append)
  have ss: "stack_ok ?G" using stack_ok_append [OF ok] by simp
  have "fst e \<notin> all_keys (globals as) \<union> all_keys ?G" if e: "e \<in> set (merged_entries ss)" for e
  proof -
    obtain l d where d: "l \<in> set ss" "d \<in> set (snd l)" "e = (pass ?G (fst d), snd d)"
      using e by (auto simp: merged_entries_def)
    have "fst d \<notin> all_keys (globals as)" using live_from_entry [OF l(2) d(1,2)] .
    then show ?thesis
      using pass_below [OF ok, of "fst d"] pass_unkeyed [OF ss, of "fst d"] pass_eq_iff [OF stack_lowers [OF ss], of "fst d"] d(3)
      by (cases "fst d \<in> all_keys ?G") auto
  qed
  then show ?thesis using l g by (simp add: live_from_append)
qed

lemma merged_scope_pairs:
  assumes "stack_serves lb ls"
  shows "scope_pairs (merged_snapshot lb ls) s = stack_pairs (overlays_in ls s)"
proof -
  have "stack_pairs (overlays_in ls s) = []" if "s \<notin> set (lb_scopes lb)"
  proof -
    have "scope_pairs (fst l) s = []" if "l \<in> set ls" for l
      using that \<open>s \<notin> set (lb_scopes lb)\<close> stack_scopes(2) [OF assms]
      by (force simp: scope_pairs_def dest: map_of_SomeD split: option.split)
    then have "all_keys (overlays_in ls s) = {}" by (auto simp: all_keys_def keys_of_def)
    then show ?thesis by (simp add: stack_pairs_def)
  qed
  then show ?thesis by (auto simp: scope_pairs_def merged_snapshot_def map_of_tagged split: option.split)
qed

lemma overlay_key_scope:
  assumes "x \<in> all_keys (overlays_in ls s)"
  shows "\<exists>l \<in> set ls. s \<in> fst ` set (snap_scopes (fst l))"
proof -
  obtain l where l: "l \<in> set ls" "x \<in> keys_of (scope_pairs (fst l) s)" using assms by (auto simp: all_keys_def)
  then have "map_of (snap_scopes (fst l)) s \<noteq> None"
    by (cases "map_of (snap_scopes (fst l)) s") (auto simp: scope_pairs_def keys_of_def)
  then have "s \<in> fst ` set (snap_scopes (fst l))" by (simp add: map_of_eq_None_iff)
  then show ?thesis using l(1) by blast
qed

lemma merged_nonempty:
  assumes wf: "stack_wf lb ls" and none: "merged_entries ls = []"
  shows "snap_scopes (merged_snapshot lb ls) = []"
proof -
  have "set (merged_entries ls) = {}" using none by simp
  then have "\<forall>l \<in> set ls. snd l = []" unfolding merged_entries_def set_sort_dedup by auto
  then have "\<forall>l \<in> set ls. snap_scopes (fst l) = []" using wf by (simp add: stack_wf_def)
  then have "set (lb_scopes lb) = {}" using stack_scopes(2) [of lb ls] wf by (auto simp: stack_wf_def)
  then show ?thesis by (simp add: merged_snapshot_def)
qed

text \<open>Replacing a stretch by its merge, on the layers of a stack.\<close>

definition merged_layer :: "puffin_base list \<Rightarrow> layer_contents list \<Rightarrow> layer_contents" where
  "merged_layer bs ss = (merged_snapshot \<lparr>lb_layers = bs\<rparr> ss, merged_entries ss)"

lemma stack_wf_stretch:
  assumes wf: "stack_wf \<lparr>lb_layers = ab @ sb @ ub\<rparr> (as @ ss @ us)" and n: "length ab = length as" "length sb = length ss" "sb \<noteq> []"
  shows "stack_wf \<lparr>lb_layers = sb\<rparr> ss"
proof -
  have h: "list_all2 layer_serves sb ss" and live: "live_from {} ss"
    using wf n by (auto simp: stack_wf_def stack_serves_def live_from_append list_all2_append intro: live_from_mono)
  have "stack_ok (globals as @ globals ss @ globals us)" "\<And>s. stack_ok (overlays_in as s @ overlays_in ss s @ overlays_in us s)"
    using wf by (simp_all add: stack_wf_def stack_serves_def)
  then have "stack_ok (globals ss)" "\<And>s. stack_ok (overlays_in ss s)" using stack_ok_append by blast+
  then show ?thesis using wf h live n(3) by (simp add: stack_wf_def stack_serves_def)
qed

lemma stack_wf_spliced:
  assumes wf: "stack_wf \<lparr>lb_layers = ab @ sb @ ub\<rparr> (as @ ss @ us)" and n: "length ab = length as" "length sb = length ss" "sb \<noteq> []"
    and b: "layer_serves b (merged_layer sb ss)"
  shows "stack_wf \<lparr>lb_layers = ab @ [b] @ ub\<rparr> (as @ [merged_layer sb ss] @ us)"
proof -
  note w = stack_wf_stretch [OF wf n]
  have st: "stack_serves \<lparr>lb_layers = sb\<rparr> ss" using w by (simp add: stack_wf_def)
  have ok: "stack_ok (globals as @ globals ss @ globals us)" "\<And>s. stack_ok (overlays_in as s @ overlays_in ss s @ overlays_in us s)"
    and live: "live_from {} (as @ ss @ us)" using wf by (simp_all add: stack_wf_def stack_serves_def)
  have g: "snap_global (fst (merged_layer sb ss)) = stack_pairs (globals ss)" by (simp add: merged_layer_def merged_snapshot_def)
  have o: "scope_pairs (fst (merged_layer sb ss)) s = stack_pairs (overlays_in ss s)" for s
    by (simp add: merged_layer_def merged_scope_pairs [OF st])
  have "list_all2 layer_serves ab as" "list_all2 layer_serves ub us"
    using wf n by (auto simp: stack_wf_def stack_serves_def list_all2_append)
  then have "list_all2 layer_serves (ab @ [b] @ ub) (as @ [merged_layer sb ss] @ us)"
    using b by (auto intro!: list_all2_appendI)
  moreover have "live_from {} (as @ [merged_layer sb ss] @ us)"
    using live_splice [OF _ live] stack_ok_append [of "globals as @ globals ss" "globals us"] ok(1) g
    by (simp add: merged_layer_def)
  moreover have "snd (merged_layer sb ss) = [] \<longrightarrow> snap_scopes (fst (merged_layer sb ss)) = []" "sorted_wrt (<) (snd (merged_layer sb ss))"
    using merged_nonempty [OF w] by (simp_all add: merged_layer_def merged_entries_def)
  ultimately show ?thesis
    using splice_ok [OF ok(1)] splice_ok [OF ok(2)] wf g o by (auto simp: stack_wf_def stack_serves_def)
qed

text \<open>The spliced stack is equivalent to the one it replaces.\<close>

lemma spliced_equivalent:
  assumes wf: "stack_wf \<lparr>lb_layers = ab @ sb @ ub\<rparr> (as @ ss @ us)" and n: "length ab = length as" "length sb = length ss" "sb \<noteq> []"
    and b: "layer_serves b (merged_layer sb ss)" and base: "base_wf (layered_routing \<lparr>lb_layers = ab @ sb @ ub\<rparr>)"
  shows "equivalent_base (layered_routing \<lparr>lb_layers = ab @ sb @ ub\<rparr>) (layered_routing \<lparr>lb_layers = ab @ [b] @ ub\<rparr>)"
proof -
  let ?old = "layered_routing \<lparr>lb_layers = ab @ sb @ ub\<rparr>" and ?new = "layered_routing \<lparr>lb_layers = ab @ [b] @ ub\<rparr>"
  let ?ls = "as @ ss @ us" and ?ls' = "as @ [merged_layer sb ss] @ us"
  have so: "stack_serves \<lparr>lb_layers = ab @ sb @ ub\<rparr> ?ls" using wf by (simp add: stack_wf_def)
  have sn: "stack_serves \<lparr>lb_layers = ab @ [b] @ ub\<rparr> ?ls'" using stack_wf_spliced [OF wf n b] by (simp add: stack_wf_def)
  have w: "stack_wf \<lparr>lb_layers = sb\<rparr> ss" by (rule stack_wf_stretch [OF wf n])
  then have st: "stack_serves \<lparr>lb_layers = sb\<rparr> ss" by (simp add: stack_wf_def)
  then have ok: "stack_ok (globals ss)" "stack_ok (overlays_in ss s)" for s by (simp_all add: stack_serves_def)
  note r = stack_routing [OF so] and r' = stack_routing [OF sn]
  have g: "pass (globals ?ls') = pass (globals ?ls)"
    using pass_splice [OF ok(1), of "globals as" "globals us"] by (auto simp: merged_layer_def merged_snapshot_def)
  have o: "pass (overlays_in ?ls' s) = pass (overlays_in ?ls s)" for s
    using pass_splice [OF ok(2) [of s], of "overlays_in as s" "overlays_in us s"] by (auto simp: merged_layer_def merged_scope_pairs [OF st])
  have shared: "shared_parent ?new = shared_parent ?old" by (simp only: r(1) r'(1) g)
  have over: "overlay_parent ?new s = overlay_parent ?old s" for s by (simp only: r(2) r'(2) o)
  have regs: "s \<in> set (scopes_for_root ?new x)" if live: "shared_parent ?old x = None" and s: "s \<in> set (scopes_for_root ?old x)" for x s
  proof -
    obtain l where l: "l \<in> set ?ls" "(x, s) \<in> set (snd l)" using s by (auto simp: r(5))
    show ?thesis
    proof (cases "l \<in> set ss")
      case True
      have "stack_ok (globals ?ls)" using so by (simp add: stack_serves_def)
      moreover have "pass (globals ?ls) x = x" using live by (simp only: r(1) parent_of_def split: if_splits) simp
      ultimately have "x \<notin> all_keys (globals ?ls)" using pass_eq_iff [OF stack_lowers] by blast
      then have "pass (globals ss) x = x" using pass_eq_iff [OF stack_lowers [OF ok(1)], of x] by simp
      then have "(x, s) \<in> set (merged_entries ss)" using True l(2) by (force simp: merged_entries_def)
      then show ?thesis unfolding r'(5) by (simp add: merged_layer_def)
    next
      case False
      then show ?thesis using l unfolding r'(5) by auto
    qed
  qed
  have scopes: "s \<in> set (base_scopes ?new)" if ne: "overlay_parent ?new s \<noteq> Map.empty" for s
  proof -
    obtain x where "parent_of (pass (overlays_in ?ls' s)) x \<noteq> None" using ne unfolding r'(2) fun_eq_iff by blast
    then have "x \<in> all_keys (overlays_in ?ls' s)" using sn all_keys_dom [of "overlays_in ?ls' s"] by (auto simp: stack_serves_def)
    then show ?thesis unfolding r'(6) by (rule overlay_key_scope)
  qed
  have "base_wf ?new"
    unfolding base_wf_def shared over
  proof (intro conjI allI impI)
    show "lists_keys (for_each_shared_pair ?new) (shared_parent ?old)"
      using stack_pairs_lists [of "globals ?ls'"] sn unfolding shared [symmetric] r'(1,3) stack_serves_def by blast
    show "lists_keys (for_each_overlay_pair ?new s) (overlay_parent ?old s)" for s
      using stack_pairs_lists [of "overlays_in ?ls' s"] sn unfolding over [symmetric] r'(2,4) stack_serves_def by blast
  qed (use base_wfD [OF base] regs scopes over in \<open>auto simp: shared\<close>)
  then show ?thesis using shared over regs by (auto simp: equivalent_base_def)
qed

section \<open>Folds\<close>

lemma grep_live:
  assumes "tier_ok t"
  shows "grep t x \<notin> dom (bpar t) \<union> dom (mpar t)"
  using moved_iff(1) [OF assms, of "grep t x"] rep_funD(1) [OF rep_funs(1) [OF assms]] by auto

lemma registry_entry_live:
  assumes "tier_ok t" and "ev = memtable_delta t \<or> ev = compaction t"
  shows "\<forall>e \<in> set (sort_dedup (registry_of ev)). fst e \<notin> dom (bpar t) \<union> dom (mpar t)"
proof
  fix e assume "e \<in> set (sort_dedup (registry_of ev))"
  then have "RegistryEntry (fst e) (snd e) \<in> set ev" using set_registry_of [of "fst e" "snd e" ev] by simp
  then have "\<exists>k. fst e = grep t k"
    using assms(2) by (auto simp: memtable_delta_def compaction_def shared_ev_def scope_ev_def overlay_ev_def split: if_splits)
  then show "fst e \<notin> dom (bpar t) \<union> dom (mpar t)" using grep_live [OF assms(1)] by metis
qed

lemma overlay_entry:
  assumes "k \<in> set (keys s)" and "orep t s k \<noteq> k" and "s \<in> set ss"
  shows "registry_of (concat (map (scope_ev t keys) ss)) \<noteq> []"
proof -
  have "RegistryEntry (grep t k) s \<in> set (concat (map (scope_ev t keys) ss))"
    using assms by (auto simp: scope_ev_def overlay_ev_def intro!: bexI [of _ s] bexI [of _ k])
  then have "(grep t k, s) \<in> set (registry_of (concat (map (scope_ev t keys) ss)))" by (simp only: set_registry_of)
  then show ?thesis by (metis empty_iff list.set(1))
qed

lemma sort_dedup_Nil: "sort_dedup xs = [] \<longleftrightarrow> xs = []"
  using set_sort_dedup [of xs] by (metis set_empty)

lemma stack_wf_pushed:
  assumes wf: "stack_wf lb ls" and ok: "tier_ok t" and base: "t_base t = Some (layered_routing lb)"
    and b: "serves b (stream_snapshot (memtable_delta t)) (sort_dedup (registry_of (memtable_delta t))) indexed"
  shows "stack_wf (pushed lb b) (ls @ [(stream_snapshot (memtable_delta t), sort_dedup (registry_of (memtable_delta t)))])"
proof -
  let ?ev = "memtable_delta t"
  have st: "stack_serves lb ls" using wf by (simp add: stack_wf_def)
  have so: "stack_ok (globals ls)" using st by (simp add: stack_serves_def)
  have "bpar t = parent_of (pass (globals ls))" using stack_routing(1) [OF st] base by (simp add: bpar_def)
  then have keys: "all_keys (globals ls) = dom (bpar t)" using all_keys_dom [OF so] by simp
  have "keys_of (shared_of ?ev) = dom (mpar t)" by (auto simp: delta_pairs [OF ok] keys_of_def dsu_keys_spec(2) image_image)
  then have live: "live_from {} (ls @ [(stream_snapshot ?ev, sort_dedup (registry_of ?ev))])"
    using wf registry_entry_live [OF ok, of ?ev] by (simp add: stack_wf_def live_from_append memtable_pairs [OF ok] keys)
  have "snap_scopes (stream_snapshot ?ev) = []" if none: "registry_of ?ev = []"
  proof (rule ccontr)
    assume "snap_scopes (stream_snapshot ?ev) \<noteq> []"
    then obtain s k where s: "s \<in> set (sorted_list_of_fset (fmdom (overlays (mem t))))" "k \<in> set (overlay_keys t s)"
      by (auto simp: memtable_snapshot [OF ok] filter_empty_conv neq_Nil_conv) (metis list.set_intros(1))
    then have "orep t s k \<noteq> k" using moved_iff(2) [OF ok] by (auto simp: overlay_keys_spec(2))
    from overlay_entry [of k "overlay_keys t" s, OF s(2) this s(1)] none show False by (simp add: memtable_delta_def)
  qed
  then show ?thesis
    using stack_push(1) [OF st ok base b] wf live by (auto simp: stack_wf_def pushed_def sort_dedup_Nil)
qed

lemma stack_wf_single:
  assumes ok: "tier_ok t" and b: "serves b (stream_snapshot (compaction t)) (sort_dedup (registry_of (compaction t))) indexed"
  shows "stack_wf (lb_new b) [(stream_snapshot (compaction t), sort_dedup (registry_of (compaction t)))]"
proof -
  let ?ev = "compaction t"
  have "keys_of (shared_of ?ev) = {k. grep t k \<noteq> k}"
    using keys_spec(2) [OF ok] by (auto simp: compaction_pairs [OF ok] keys_of_def image_image)
  then have keys: "keys_of (shared_of ?ev) = dom (bpar t) \<union> dom (mpar t)" using moved_iff(1) [OF ok] by auto
  then have live: "live_from {} [(stream_snapshot ?ev, sort_dedup (registry_of ?ev))]"
    using registry_entry_live [OF ok, of ?ev] by (simp add: compaction_scope_pairs [OF ok])
  have "snap_scopes (stream_snapshot ?ev) = []" if none: "registry_of ?ev = []"
  proof (rule ccontr)
    assume "snap_scopes (stream_snapshot ?ev) \<noteq> []"
    then obtain s k where s: "s \<in> set (scope_ids t)" "k \<in> set (all_overlay_keys t s)"
      by (auto simp: compaction_snapshot [OF ok] filter_empty_conv neq_Nil_conv) (metis list.set_intros(1))
    then have "orep t s k \<noteq> k" using keys_spec(4) [OF ok, of s] by auto
    from overlay_entry [of k "all_overlay_keys t" s, OF s(2) this s(1)] none show False by (simp add: compaction_def)
  qed
  then show ?thesis
    using stack_single(1) [OF ok b] live by (auto simp: stack_wf_def lb_new_def sort_dedup_Nil)
qed

section \<open>A merge in the background\<close>

lemma splice_parts:
  assumes "i < j" and "j \<le> length bs"
  shows "bs = take i bs @ take (j - i) (drop i bs) @ drop j bs" and "length (take i bs) = i"
    and "take (j - i) (drop i bs) \<noteq> []" and "length (take (j - i) (drop i bs)) = j - i"
proof -
  have "drop i bs = take (j - i) (drop i bs) @ drop (j - i) (drop i bs)" by (rule append_take_drop_id [symmetric])
  moreover have "drop (j - i) (drop i bs) = drop j bs" using assms(1) by (simp add: drop_drop)
  ultimately show "bs = take i bs @ take (j - i) (drop i bs) @ drop j bs" by (metis append_take_drop_id)
qed (use assms in auto)

lemma merged_file_serves:
  assumes js: "json_ok js (footer_of (file_blobs seq opts (merged_snapshot \<lparr>lb_layers = bs\<rparr> ss) (merged_entries ss)) fprops)"
    and wf: "stack_wf \<lparr>lb_layers = bs\<rparr> ss" and small: "merged_small \<lparr>lb_layers = bs\<rparr> ss"
    and w: "puffin_write js (file_blobs seq opts (merged_snapshot \<lparr>lb_layers = bs\<rparr> ss) (merged_entries ss)) fprops = Some data"
    and n: "length data < 2 ^ 38"
  obtains b where "open_with_reader js (Some data) reader = Inr b" and "layer_serves b (merged_layer bs ss)"
proof -
  let ?snap = "merged_snapshot \<lparr>lb_layers = bs\<rparr> ss"
  have scopes: "sorted_wrt (<) (map fst (snap_scopes ?snap))"
    by (simp add: merged_snapshot_def comp_def lb_scopes_def sorted_wrt_filter)
  have d: "distinct (map fst (snap_scopes ?snap))" using scopes by (simp add: strict_sorted_iff)
  have "sorted_wrt (<) (merged_entries ss)" by (simp add: merged_entries_def)
  then have "file_ok ?snap (merged_entries ss)"
    using merged_snapshot_ok [OF small] small d by (simp add: file_ok_def merged_small_def)
  from open_written [OF js w n this scopes merged_nonempty [OF wf]] that show thesis
    by (metis fst_conv layer_serves_def merged_layer_def snd_conv)
qed

text \<open>
  C13: a merge in the background changes no answer. Take any stretch of the stack a forest reads
  through, merge it from the mapped files alone, write and open the result, and splice it in at the
  place of the stretch: every step succeeds, the stack keeps its invariant, and installing it leaves
  every answer in every scope as it was.
\<close>

theorem background_merge_keeps_answers:
  assumes f: "forest_represents f es" and base: "t_base (tier_of f) = Some (layered_routing lb)"
    and wf: "stack_wf lb ls" and range: "i < j" "j \<le> length ls"
    and small: "merged_small \<lparr>lb_layers = take (j - i) (drop i (lb_layers lb))\<rparr> (take (j - i) (drop i ls))"
  shows "\<exists>stretch blobs stats. lb_slice lb i j = Inr stretch \<and> compact_layers cores stretch seq opts = Some (blobs, stats) \<and>
    (\<forall>data. json_ok js (footer_of blobs fprops) \<longrightarrow> puffin_write js blobs fprops = Some data \<longrightarrow> length data < 2 ^ 38 \<longrightarrow>
      (\<exists>b lb' ls'. open_with_reader js (Some data) reader = Inr b \<and> spliced lb i j b = Inr lb' \<and> stack_wf lb' ls' \<and>
        length ls' = length ls - (j - i) + 1 \<and> forest_represents (swap_base (layered_routing lb') f) es \<and>
        (\<forall>s x. \<exists>f'. scope_root (swap_base (layered_routing lb') f) s x = Some (lowest (visible_edges es s) x, f'))))"
proof -
  let ?bs = "lb_layers lb"
  let ?ab = "take i ?bs" and ?sb = "take (j - i) (drop i ?bs)" and ?ub = "drop j ?bs"
  let ?as = "take i ls" and ?ss = "take (j - i) (drop i ls)" and ?us = "drop j ls"
  have len: "length ?bs = length ls" using wf by (auto simp: stack_wf_def stack_serves_def dest: list_all2_lengthD)
  have jb: "j \<le> length ?bs" using range len by simp
  have lb: "lb = \<lparr>lb_layers = ?ab @ ?sb @ ?ub\<rparr>" using splice_parts(1) [OF range(1) jb] by (cases lb) simp
  have ls: "ls = ?as @ ?ss @ ?us" by (rule splice_parts(1) [OF range])
  have wf': "stack_wf \<lparr>lb_layers = ?ab @ ?sb @ ?ub\<rparr> (?as @ ?ss @ ?us)" using wf lb ls by simp
  have n: "length ?ab = length ?as" "length ?sb = length ?ss" "?sb \<noteq> []"
    using range jb len by auto
  note stretch = stack_wf_stretch [OF wf' n]
  have sl: "lb_slice lb i j = Inr \<lparr>lb_layers = ?sb\<rparr>"
    using range jb n(3) by (simp add: lb_slice_def slice_def from_layers_def)
  obtain stats where c: "compact_layers cores \<lparr>lb_layers = ?sb\<rparr> seq opts =
      Some (file_blobs seq opts (merged_snapshot \<lparr>lb_layers = ?sb\<rparr> ?ss) (merged_entries ?ss), stats)"
    using compact_layers_spec [OF stretch small] by metis
  have ok: "tier_ok (tier_of f)" using f by (simp add: forest_represents_def represents_def)
  have bw: "base_wf (layered_routing \<lparr>lb_layers = ?ab @ ?sb @ ?ub\<rparr>)" using tier_okD(5) [OF ok base] lb by simp
  have "\<exists>b lb' ls'. open_with_reader js (Some data) reader = Inr b \<and> spliced lb i j b = Inr lb' \<and> stack_wf lb' ls' \<and>
      length ls' = length ls - (j - i) + 1 \<and> forest_represents (swap_base (layered_routing lb') f) es \<and>
      (\<forall>s x. \<exists>f'. scope_root (swap_base (layered_routing lb') f) s x = Some (lowest (visible_edges es s) x, f'))"
    if js: "json_ok js (footer_of (file_blobs seq opts (merged_snapshot \<lparr>lb_layers = ?sb\<rparr> ?ss) (merged_entries ?ss)) fprops)"
      and w: "puffin_write js (file_blobs seq opts (merged_snapshot \<lparr>lb_layers = ?sb\<rparr> ?ss) (merged_entries ?ss)) fprops = Some data"
      "length data < 2 ^ 38" for data
  proof -
    obtain b where b: "open_with_reader js (Some data) reader = Inr b" "layer_serves b (merged_layer ?sb ?ss)"
      using merged_file_serves [OF js stretch small w] .
    let ?lb = "\<lparr>lb_layers = ?ab @ [b] @ ?ub\<rparr>"
    have "spliced lb i j b = Inr ?lb" using range jb by (simp add: spliced_def from_layers_def)
    moreover have "equivalent_base (layered_routing lb) (layered_routing ?lb)"
      using spliced_equivalent [OF wf' n b(2) bw] lb by simp
    then have rep: "forest_represents (swap_base (layered_routing ?lb) f) es" by (rule swap_base_represents [OF f base])
    ultimately show ?thesis
      using b(1) stack_wf_spliced [OF wf' n b(2)] scope_root_spec [OF rep] range
      by (intro exI [of _ b] exI [of _ ?lb] exI [of _ "?as @ [merged_layer ?sb ?ss] @ ?us"]) auto
  qed
  note opened = this
  show ?thesis by (rule exI, rule exI, rule exI, rule conjI [OF sl conjI [OF c]]) (blast intro: opened)
qed

text \<open>The forest of two edges, compacted into a file that it then reads through.\<close>

lemma two_edge_stream:
  "map_option fst (Option.bind (apply_events forest_new two_edges) (\<lambda>f. compact_locked (tier_of f))) =
    Some [SharedPair 9 5, ScopeStart 7, OverlayPair 5 3, RegistryEntry 5 7, RegistryEntry 3 7, ScopeEnd 7]"
  by code_simp

lemma two_edge_stack:
  obtains f b where "forest_represents f two_edges" and "t_base (tier_of f) = Some (layered_routing (lb_new b))"
    and "stack_wf (lb_new b) [(small_snapshot, [(3, 7), (5, 7)])]" and "serves b small_snapshot [(3, 7), (5, 7)] True"
proof -
  obtain f where f: "apply_events forest_new two_edges = Some f" "forest_represents f two_edges" using two_edge_forest .
  have rep: "represents (tier_of f) (global_edges two_edges) (scope_edges two_edges)" using f(2) by (simp add: forest_represents_def)
  then have ok: "tier_ok (tier_of f)" by (simp add: represents_def)
  obtain t' where "compact_locked (tier_of f) = Some (compaction (tier_of f), t')" using compact_locked_spec [OF ok] by blast
  then have ev: "compaction (tier_of f) = [SharedPair 9 5, ScopeStart 7, OverlayPair 5 3, RegistryEntry 5 7, RegistryEntry 3 7, ScopeEnd 7]"
    using two_edge_stream f(1) by simp
  have snap: "stream_snapshot (compaction (tier_of f)) = small_snapshot"
    by (simp add: ev stream_snapshot_def small_snapshot_def Let_def)
  have entries: "sort_dedup (registry_of (compaction (tier_of f))) = [(3, 7), (5, 7)]"
    by (simp add: ev sort_dedup_def)
  obtain b where b: "serves b small_snapshot [(3, 7), (5, 7)] True" using small_serves .
  then have b': "serves b (stream_snapshot (compaction (tier_of f))) (sort_dedup (registry_of (compaction (tier_of f)))) True"
    by (simp add: snap entries)
  let ?f = "f\<lparr>tier_of := \<lparr>t_base = Some (layered_routing (lb_new b)), mem = memtable_new (member_index f)\<rparr>\<rparr>"
  have "forest_represents ?f two_edges"
    using fold_represents [OF rep stack_single(2) [OF ok b']] by (simp add: forest_represents_def memtable_new_def)
  moreover have "stack_wf (lb_new b) [(small_snapshot, [(3, 7), (5, 7)])]" using stack_wf_single [OF ok b'] by (simp add: snap entries)
  ultimately show thesis using that [of ?f b] b by simp
qed

lemma one_layer_merge:
  assumes b: "serves b small_snapshot [(3, 7), (5, 7)] True"
  shows "merged_snapshot (lb_new b) [(small_snapshot, [(3, 7), (5, 7)])] = small_snapshot"
    and "merged_entries [(small_snapshot, [(3, 7), (5, 7)])] = [(3, 7), (5, 7)]"
    and "merged_small (lb_new b) [(small_snapshot, [(3, 7), (5, 7)])]"
proof -
  have "overlay_scopes b = [7]" using serves_answers(1) [OF b] by (simp add: answers_def small_snapshot_def)
  then have scopes: "lb_scopes (lb_new b) = [7]" by (simp add: lb_scopes_def lb_new_def sort_dedup_def)
  have pairs: "stack_pairs [snap_global small_snapshot] = [(9, 5)]" "stack_pairs [scope_pairs small_snapshot 7] = [(5, 3)]"
    by (simp_all add: stack_pairs_def keys_of_def small_snapshot_def scope_pairs_def hop_def)
  show "merged_snapshot (lb_new b) [(small_snapshot, [(3, 7), (5, 7)])] = small_snapshot"
    by (simp add: merged_snapshot_def pairs scopes) (simp add: small_snapshot_def)
  show e: "merged_entries [(small_snapshot, [(3, 7), (5, 7)])] = [(3, 7), (5, 7)]"
    by (simp add: merged_entries_def small_snapshot_def hop_def sort_dedup_def)
  show "merged_small (lb_new b) [(small_snapshot, [(3, 7), (5, 7)])]" by (simp add: merged_small_def pairs scopes e)
qed

theorem background_merge_keeps_answers_witness:
  "\<exists>f b lb' f'. t_base (tier_of f) = Some (layered_routing (lb_new b)) \<and>
    scope_root (swap_base (layered_routing lb') f) 7 9 = Some (lowest (visible_edges two_edges 7) 9, f')"
proof -
  let ?es = "[(3, 7), (5, 7)] :: (node_id \<times> scope_id) list"
  obtain f b where f: "forest_represents f two_edges" "t_base (tier_of f) = Some (layered_routing (lb_new b))"
    and wf: "stack_wf (lb_new b) [(small_snapshot, ?es)]" and b: "serves b small_snapshot ?es True"
    using two_edge_stack .
  note m = one_layer_merge [OF b]
  have new: "\<lparr>lb_layers = take (1 - 0) (drop 0 (lb_layers (lb_new b)))\<rparr> = lb_new b" by (simp add: lb_new_def)
  have sub: "take (1 - 0) (drop 0 [(small_snapshot, ?es)]) = [(small_snapshot, ?es)]" by simp
  have small: "merged_small \<lparr>lb_layers = take (1 - 0) (drop 0 (lb_layers (lb_new b)))\<rparr> (take (1 - 0) (drop 0 [(small_snapshot, ?es)]))"
    unfolding new sub by (rule m(3))
  have r: "0 < (1 :: nat)" "1 \<le> length [(small_snapshot, ?es)]" by simp_all
  obtain stretch blobs stats where s: "lb_slice (lb_new b) 0 1 = Inr stretch"
    "compact_layers None stretch 1 small_options = Some (blobs, stats)"
    and opened: "\<And>data. puffin_write plain_json blobs [] = Some data \<Longrightarrow> length data < 2 ^ 38 \<Longrightarrow>
      \<exists>lb'. \<forall>s x. \<exists>f'. scope_root (swap_base (layered_routing lb') f) s x = Some (lowest (visible_edges two_edges s) x, f')"
    using background_merge_keeps_answers [OF f wf r small, of None 1 small_options plain_json "[]" Buffered] plain_json_ok by blast
  have "stretch = lb_new b" using s(1) by (simp add: lb_slice_def slice_def from_layers_def lb_new_def)
  then have "blobs = file_blobs 1 small_options small_snapshot ?es"
    using s(2) compact_layers_spec [OF wf m(3), of None 1 small_options] by (auto simp: m(1,2))
  moreover obtain data where "puffin_write plain_json (file_blobs 1 small_options small_snapshot ?es) [] = Some data"
    "length data < 20 + 1000 + length (concat (map blob_data (file_blobs 1 small_options small_snapshot ?es)))"
    using puffin_write_small [OF small_file(1)] by auto
  ultimately obtain lb' where "\<forall>s x. \<exists>f'. scope_root (swap_base (layered_routing lb') f) s x = Some (lowest (visible_edges two_edges s) x, f')"
    using opened [of data] small_file(2) by auto
  then show ?thesis using f(2) by blast
qed

end
