(* ===== verification/Member_Query.thy ===== *)
theory Member_Query
  imports Stack_Splice
begin

text \<open>
  The members query over opened files. The child lists of a stack of layers, each written with the
  member index, cover the table the stack resolves to, which is what the query asks of its base. So a
  query over a stack lists the component, for every cap but the two largest words. The file ends with
  two limits of the code: a cap at the largest word, whose fetch budget wraps to zero, and a run
  written with the index whose shared tier is empty, which hides the index of the whole stack.
\<close>

section \<open>The child lists of a stack\<close>

lemma children_loop_layers:
  assumes "list_all2 (\<lambda>l xs. \<forall>room acc. list_kids l room acc = Some (acc @ take room xs)) layers xss"
    and "start \<le> length acc"
  shows "children_loop list_kids start limit layers acc =
    Some (acc @ take (limit - (length acc - start)) (concat xss))"
  using assms
proof (induction layers xss arbitrary: acc rule: list_all2_induct)
  case (Cons l layers xs xss)
  let ?room = "limit - (length acc - start)"
  let ?acc = "acc @ take ?room xs"
  have "children_loop list_kids start limit layers ?acc =
      Some (?acc @ take (limit - (length ?acc - start)) (concat xss))"
    using Cons.prems by (intro Cons.IH) auto
  moreover have "limit - (length ?acc - start) = ?room - length xs" using Cons.prems by (simp add: min_def)
  ultimately show ?case using Cons.hyps(1) by (auto simp: Let_def)
qed simp

lemma set_children_in: "set (children_in ps k) = {c. (c, k) \<in> set ps \<and> c \<noteq> k}"
  by (force simp: children_in_def child_pairs_def)

lemma distinct_children_in:
  assumes "distinct (map fst ps)"
  shows "distinct (children_in ps k)"
proof -
  have "distinct ps" using assms by (simp add: distinct_map)
  then have "distinct (child_pairs ps)"
    by (auto simp: child_pairs_def distinct_map inj_on_def intro: distinct_filter)
  then show ?thesis by (auto simp: children_in_def distinct_map inj_on_def)
qed

lemma root_of_pass: "stack_ok pss \<Longrightarrow> root_of (parent_of (pass pss)) x = pass pss x"
  by (simp add: resolved_parent_of(2) [OF rep_fun_pass])

lemma stack_keyed_once:
  assumes ok: "stack_ok (pss @ [ps])" and "(c, k) \<in> set ps" and "qs \<in> set pss"
  shows "(c, k') \<notin> set qs"
  using assms by (force simp: stack_ok_snoc keys_of_def all_keys_def)

lemma distinct_stack_children:
  assumes "stack_ok pss" and "\<forall>ps \<in> set pss. distinct (map fst ps)"
  shows "distinct (concat (map (\<lambda>ps. children_in ps k) pss))"
  using assms
proof (induction rule: stack_ok.induct)
  case (push pss ps)
  have "stack_ok (pss @ [ps])" using push.hyps by (intro stack_ok.push)
  from stack_keyed_once [OF this] show ?case
    using push distinct_children_in [of ps k] by (auto simp: set_children_in)
qed simp

lemma stack_children_cover:
  assumes ok: "stack_ok pss" and keyed: "\<forall>ps \<in> set pss. distinct (map fst ps)"
  shows "covers (\<lambda>k. concat (map (\<lambda>ps. children_in ps k) pss)) (parent_of (pass pss))"
  unfolding covers_def
proof (intro conjI allI impI)
  show "distinct (concat (map (\<lambda>ps. children_in ps k) pss))" for k by (rule distinct_stack_children [OF ok keyed])
  fix k c assume "c \<in> set (concat (map (\<lambda>ps. children_in ps k) pss))"
  then obtain ps where ps: "ps \<in> set pss" "(c, k) \<in> set ps" by (auto simp: set_children_in)
  then have "map_of ps c = Some k" using keyed by simp
  from pass_value [OF ok ps(1) this] show "root_of (parent_of (pass pss)) k = root_of (parent_of (pass pss)) c"
    by (simp add: root_of_pass [OF ok])
  show "k < c" using ps stack_lowers [OF ok] by (auto simp: lowers_def)
  have "c \<in> all_keys pss" using ps by (force simp: all_keys_def keys_of_def)
  then show "parent_of (pass pss) c \<noteq> None" unfolding all_keys_dom [OF ok] by blast
next
  fix c assume "parent_of (pass pss) c \<noteq> None"
  then have "c \<in> all_keys pss" using all_keys_dom [OF ok] by blast
  then obtain ps k where ps: "ps \<in> set pss" "(c, k) \<in> set ps" by (auto simp: all_keys_def keys_of_def)
  then have "k < c" using stack_lowers [OF ok] by (auto simp: lowers_def)
  then show "\<exists>k. c \<in> set (concat (map (\<lambda>ps. children_in ps k) pss))" using ps by (auto simp: set_children_in)
qed

lemma indexed_layer:
  assumes "layer_serves b l" and "pb_has_member_index b"
  shows "answers_members b (fst l)" and "distinct (map fst (snap_global (fst l)))"
    and "distinct (map fst (scope_pairs (fst l) s))"
proof -
  obtain indexed where b: "serves b (fst l) (snd l) indexed" using assms(1) by (auto simp: layer_serves_def)
  show "answers_members b (fst l)" using serves_answers(2,3) [OF b] assms(2) by (cases indexed) auto
  have ok: "snapshot_ok (fst l)" using b by (simp add: serves_def)
  then show "distinct (map fst (snap_global (fst l)))" by (simp add: snapshot_ok_def strict_sorted_iff)
  show "distinct (map fst (scope_pairs (fst l) s))" using scope_pairs_sorted [OF ok, of s] by (simp add: strict_sorted_iff)
qed

lemma stack_children_ok:
  assumes st: "stack_serves lb ls" and ix: "lb_has_member_index lb"
  shows "children_ok (layered_routing lb)"
proof -
  let ?C = "\<lambda>k. concat (map (\<lambda>ps. children_in ps k) (globals ls))"
  let ?D = "\<lambda>s k. concat (map (\<lambda>ps. children_in ps k) (overlays_in ls s))"
  have all: "list_all2 (\<lambda>b l. layer_serves b l \<and> pb_has_member_index b) (lb_layers lb) ls"
    using st ix by (auto simp: stack_serves_def lb_has_member_index_def list_all_iff list_all2_conv_all_nth)
  have kids: "list_all2 (\<lambda>b xs. \<forall>room acc. pb_shared_children b k room acc = Some (acc @ take room xs))
      (lb_layers lb) (map (\<lambda>ps. children_in ps k) (globals ls))"
    "list_all2 (\<lambda>b xs. \<forall>room acc. pb_overlay_children b s k room acc = Some (acc @ take room xs))
      (lb_layers lb) (map (\<lambda>ps. children_in ps k) (overlays_in ls s))" for k s
    using all indexed_layer(1) by (auto simp: list.rel_map answers_members_def elim!: list_all2_mono)
  have sc: "shared_children (layered_routing lb) k lim o' = o' @ take lim (?C k)" for k lim o'
    using children_loop_layers [OF kids(1) [of k], of "length o'" o' lim] by (simp add: layered_routing_def or_else_def lb_shared_children_def)
  have oc: "overlay_children (layered_routing lb) s k lim o' = o' @ take lim (?D s k)" for s k lim o'
    using children_loop_layers [OF kids(2) [of s k], of "length o'" o' lim] by (simp add: layered_routing_def or_else_def lb_overlay_children_def)
  have keyed: "\<forall>ps \<in> set (globals ls). distinct (map fst ps)" "\<forall>ps \<in> set (overlays_in ls s). distinct (map fst ps)" for s
    using all indexed_layer(2,3) by (fastforce simp: list_all2_conv_all_nth in_set_conv_nth)+
  have ok: "stack_ok (globals ls)" "stack_ok (overlays_in ls s)" for s using st by (simp_all add: stack_serves_def)
  show ?thesis
    unfolding children_ok_def stack_routing(1,2) [OF st]
    using sc oc stack_children_cover [OF ok(1) keyed(1)] stack_children_cover [OF ok(2) keyed(2)]
    by (intro exI [of _ ?C] exI [of _ ?D]) blast
qed

section \<open>Querying a forest over a stack\<close>

text \<open>A forest that tracks members, with no base or over a stack of runs that all carry the index.\<close>

definition member_forest :: "scoped_forest \<Rightarrow> bool" where
  "member_forest f \<longleftrightarrow> member_index f \<and>
     (\<forall>b. t_base (tier_of f) = Some b \<longrightarrow>
        (\<exists>lb ls. b = layered_routing lb \<and> stack_serves lb ls \<and> lb_has_member_index lb))"

lemma member_forestD:
  assumes "member_forest f"
  shows "member_index f" and "indexed_base (tier_of f)" and "t_base (tier_of f) = Some b \<Longrightarrow> has_member_index b"
proof -
  show "member_index f" using assms by (simp add: member_forest_def)
  show "indexed_base (tier_of f)"
    using assms stack_children_ok by (fastforce simp: member_forest_def indexed_base_def split: option.split)
  show "t_base (tier_of f) = Some b \<Longrightarrow> has_member_index b"
    using assms by (auto simp: member_forest_def layered_routing_def)
qed

text \<open>
  C5: the members query. On a forest that tracks members, with no base or over a stack of opened files
  that all carry the member index, the query returns, and what it returns for a node in a scope is
  the node's component in the graph the scope sees: a complete answer lists exactly the component, a
  truncated answer lists exactly as many members as the cap and leaves some out, and no member is
  listed twice. The two largest caps a machine word can hold are excluded.
\<close>

theorem members_lists_component:
  assumes "forest_represents f es" and "member_forest f" and "unat c + 2 < 2 ^ 64"
  shows "\<exists>m f'. members_of f s x c = Some (Some m, f') \<and> lists_component m (unat c) (component es s x)"
  using members_of_spec [OF assms(1) member_forestD [OF assms(2)] assms(3)] .

text \<open>The forest of two edges, tracking members, compacted into a file with the index that it then reads through.\<close>

lemma tracked_stream:
  "map_option fst (Option.bind (apply_events (forest_tracking_members forest_new) two_edges) (\<lambda>f. compact_locked (tier_of f))) =
    Some [SharedPair 9 5, ScopeStart 7, OverlayPair 5 3, RegistryEntry 5 7, RegistryEntry 3 7, ScopeEnd 7]"
  by code_simp

lemma tracked_stack:
  obtains f b where "forest_represents f two_edges" and "member_forest f" and "t_base (tier_of f) = Some (layered_routing (lb_new b))"
    and "serves b small_snapshot [(3, 7), (5, 7)] True"
proof -
  let ?es = "[(3, 7), (5, 7)] :: (node_id \<times> scope_id) list"
  obtain f where f: "apply_events (forest_tracking_members forest_new) two_edges = Some f"
    "forest_represents f two_edges" "same_config (forest_tracking_members forest_new) f"
    using apply_events_spec [OF forest_new_represents(2), of two_edges] by auto
  have rep: "represents (tier_of f) (global_edges two_edges) (scope_edges two_edges)" using f(2) by (simp add: forest_represents_def)
  then have ok: "tier_ok (tier_of f)" by (simp add: represents_def)
  obtain t' where "compact_locked (tier_of f) = Some (compaction (tier_of f), t')" using compact_locked_spec [OF ok] by blast
  then have ev: "compaction (tier_of f) = [SharedPair 9 5, ScopeStart 7, OverlayPair 5 3, RegistryEntry 5 7, RegistryEntry 3 7, ScopeEnd 7]"
    using tracked_stream f(1) by simp
  have snap: "stream_snapshot (compaction (tier_of f)) = small_snapshot"
    "sort_dedup (registry_of (compaction (tier_of f))) = ?es"
    by (simp_all add: ev stream_snapshot_def small_snapshot_def sort_dedup_def Let_def)
  obtain b where b: "serves b small_snapshot ?es True" using small_serves .
  then have b': "serves b (stream_snapshot (compaction (tier_of f))) (sort_dedup (registry_of (compaction (tier_of f)))) True"
    by (simp add: snap)
  let ?f = "f\<lparr>tier_of := \<lparr>t_base = Some (layered_routing (lb_new b)), mem = memtable_new (member_index f)\<rparr>\<rparr>"
  have i: "member_index f" using f(3) by (simp add: same_config_def forest_tracking_members_def forest_new_def)
  have "forest_represents ?f two_edges"
    using fold_represents [OF rep stack_single(2) [OF ok b']] by (simp add: forest_represents_def memtable_new_def)
  moreover have "pb_has_member_index b"
    using serves_answers(2) [OF b] by (simp add: answers_members_def small_snapshot_def child_pairs_def)
  then have "member_forest ?f"
    using stack_single(1) [OF ok b'] i by (auto simp: member_forest_def lb_has_member_index_def lb_new_def)
  ultimately show thesis using that [of ?f b] b by simp
qed

theorem members_lists_component_witness:
  "\<exists>f b m f'. t_base (tier_of f) = Some (layered_routing (lb_new b)) \<and> pb_mmap b \<noteq> [] \<and>
     members_of f 7 9 5 = Some (Some m, f') \<and> lists_component m 5 (component two_edges 7 9)"
proof -
  obtain f b where f: "forest_represents f two_edges" "member_forest f" "t_base (tier_of f) = Some (layered_routing (lb_new b))"
    and b: "serves b small_snapshot [(3, 7), (5, 7)] True" using tracked_stack .
  obtain t where "table_ready t (pb_mmap b) (snap_global small_snapshot)" using serves_shared [OF b] .
  then have "pb_mmap b \<noteq> []" by (auto simp: table_ready_def table_holds_def reads_as_def small_snapshot_def)
  with members_lists_component [OF f(1,2), of 5 7 9] f(3) show ?thesis by auto
qed

section \<open>Two limits of the query\<close>

text \<open>
  C30: the cap at the end of the machine word. The walk fetches one child more than its cap; at the largest
  cap this budget wraps around to zero, so the query reports, as a complete answer, only the lowest
  node of the component, however large the component is.
\<close>

theorem largest_cap_reports_one_member:
  assumes "forest_represents f es" and "member_forest f"
  shows "\<exists>f'. members_of f s x (- 1) = Some (Some (Complete [lowest (visible_edges es s) x]), f')"
  using members_of_starved [OF assms(1) member_forestD [OF assms(2)]] .

theorem largest_cap_reports_one_member_witness:
  "\<exists>f f' v. members_of f 7 9 (- 1) = Some (Some (Complete [v]), f') \<and> {9, 5, 3} \<subseteq> component two_edges 7 9"
proof -
  obtain f where f: "forest_represents f two_edges" "member_forest f" using tracked_stack by metis
  have "(9, 5) \<in> conn (visible_edges two_edges 7)" "(5, 3) \<in> conn (visible_edges two_edges 7)"
    by (rule conn_edge, force simp: two_edges_def visible_edges_def)+
  then have "{9, 5, 3} \<subseteq> component two_edges 7 9" by (auto simp: component_def intro: conn_trans)
  with largest_cap_reports_one_member [OF f, of 7 9] show ?thesis by blast
qed

text \<open>
  C29: a file that hides its index. A file written with the member index, whose shared table joins no two
  nodes, serves the children of every overlay but reports that it carries no index: the report looks
  at the shared half alone, and the writer leaves out an empty half. A forest over any stack
  that holds such a file then refuses every members query, as if the file had been written
  without the index.
\<close>

theorem overlay_only_file_refuses_members:
  assumes "json_ok js (footer_of (file_blobs seq opts snap es) fprops)"
    and "puffin_write js (file_blobs seq opts snap es) fprops = Some data" and "length data < 2 ^ 38"
    and "file_ok snap es" and "sorted_wrt (<) (map fst (snap_scopes snap))" and "es = [] \<Longrightarrow> snap_scopes snap = []"
    and "wo_member_index opts" and "\<forall>p \<in> set (snap_global snap). fst p = snd p"
  shows "\<exists>b. open_with_reader js (Some data) reader = Inr b \<and>
    (\<forall>s p limit acc. pb_overlay_children b s p limit acc = Some (acc @ take limit (children_in (scope_pairs snap s) p))) \<and>
    (\<forall>f lb s x c. t_base (tier_of f) = Some (layered_routing lb) \<longrightarrow> b \<in> set (lb_layers lb) \<longrightarrow>
       members_of f s x c = Some (None, f))"
proof -
  obtain b where b: "open_with_reader js (Some data) reader = Inr b" "serves b snap es (wo_member_index opts)"
    using open_written [OF assms(1-6)] .
  have m: "answers_members b snap" using serves_answers(2) [OF b(2)] assms(7) by simp
  have "filter (\<lambda>(node, parent). node \<noteq> parent) (snap_global snap) = []" using assms(8) by (auto simp: filter_empty_conv)
  then have "child_pairs (snap_global snap) = []" by (simp add: child_pairs_def)
  with m have "\<not> pb_has_member_index b" by (simp add: answers_members_def)
  then have "members_of f s x c = Some (None, f)"
    if "t_base (tier_of f) = Some (layered_routing lb)" and "b \<in> set (lb_layers lb)" for f lb s x c
    using that by (auto simp: members_of_def layered_routing_def lb_has_member_index_def list_all_iff)
  with b(1) m show ?thesis by (auto simp: answers_members_def)
qed

definition scoped_snapshot :: forest_snapshot where
  "scoped_snapshot = \<lparr>snap_global = [], snap_scopes = [(7, [(5, 3)])]\<rparr>"

lemma scoped_file_blobs:
  "file_blobs 1 small_options scoped_snapshot [(3, 7), (5, 7)] =
     [make_blob 1 GLOBAL_BLOB_TYPE (counted pair_bytes []) [],
      make_blob 1 SCOPE_BLOB_TYPE (counted pair_bytes [(5, 3)]) (scope_props 7),
      make_blob 1 FLAT_BLOB_TYPE (u64_to_le_bytes 2 @ entry_bytes (3, 7) @ entry_bytes (5, 7)) [],
      make_blob 1 OVERLAY_FLAT_BLOB_TYPE (u64_to_le_bytes 1 @ pair_bytes (3, 5)) (scope_props 7)]"
  by (simp add: file_blobs_def table_blobs_def index_blobs_def registry_blobs_def encode_registry_def
      rw_new_def rw_with_block_size_def rw_push_def rw_finish_def filter_blobs_def key_filters_def member_filters_def
      named_filters_def build_with_def clamp_filter_bits_def member_blob_def member_payload_def
      child_pairs_def mw_new_def mw_with_block_size_def mw_push_def mw_finish_def small_options_def scoped_snapshot_def
      scope_blob_def entry_bytes_def pair_bytes_def Let_def)

lemma scoped_file:
  "length (to_vec plain_json (footer_of (file_blobs 1 small_options scoped_snapshot [(3, 7), (5, 7)]) [])) < 1000"
  "length (concat (map blob_data (file_blobs 1 small_options scoped_snapshot [(3, 7), (5, 7)]))) < 1000"
proof -
  have d: "length (scope_to_string 7) = 1" by (simp add: scope_to_string_def decimal.simps)
  show "length (to_vec plain_json (footer_of (file_blobs 1 small_options scoped_snapshot [(3, 7), (5, 7)]) [])) < 1000"
    using d by (simp add: scoped_file_blobs footer_of_def plain_json_def enc_pair_def enc_list_def enc_metadata_def metadata_fields_def
        metadata_of_def enc_char_def scope_props_def SCOPE_ID_PROP_def blob_types comp_def make_blob_def length_concat sum_list_triv)
  show "length (concat (map blob_data (file_blobs 1 small_options scoped_snapshot [(3, 7), (5, 7)]))) < 1000"
    by (simp add: scoped_file_blobs length_counted [of _ 16])
qed

theorem overlay_only_file_refuses_members_witness:
  "\<exists>data b. open_with_reader plain_json (Some data) Buffered = Inr b \<and> pb_overlay_children b 7 3 10 [] = Some [5] \<and>
     members_of ((forest_tracking_members forest_new)\<lparr>tier_of := \<lparr>t_base = Some (layered_routing (lb_new b)), mem = memtable_new True\<rparr>\<rparr>) 7 3 10 =
       Some (None, (forest_tracking_members forest_new)\<lparr>tier_of := \<lparr>t_base = Some (layered_routing (lb_new b)), mem = memtable_new True\<rparr>\<rparr>)"
proof -
  let ?es = "[(3, 7), (5, 7)] :: (node_id \<times> scope_id) list"
  obtain data where d: "puffin_write plain_json (file_blobs 1 small_options scoped_snapshot ?es) [] = Some data"
    "length data < 20 + 1000 + length (concat (map blob_data (file_blobs 1 small_options scoped_snapshot ?es)))"
    using puffin_write_small [OF scoped_file(1)] by auto
  then have "length data < 2 ^ 38" using scoped_file(2) by simp
  moreover have "file_ok scoped_snapshot ?es" "sorted_wrt (<) (map fst (snap_scopes scoped_snapshot))"
    by (simp_all add: file_ok_def scoped_snapshot_def snapshot_ok_def)
  ultimately obtain b where b: "open_with_reader plain_json (Some data) Buffered = Inr b"
    "\<forall>s p limit acc. pb_overlay_children b s p limit acc = Some (acc @ take limit (children_in (scope_pairs scoped_snapshot s) p))"
    "\<forall>f lb s x c. t_base (tier_of f) = Some (layered_routing lb) \<longrightarrow> b \<in> set (lb_layers lb) \<longrightarrow> members_of f s x c = Some (None, f)"
    using overlay_only_file_refuses_members [OF plain_json_ok d(1), of Buffered] by (auto simp: small_options_def scoped_snapshot_def)
  have "children_in (scope_pairs scoped_snapshot 7) 3 = [5]"
    by (simp add: children_in_def child_pairs_def scope_pairs_def scoped_snapshot_def)
  with b show ?thesis by (auto simp: lb_new_def intro!: exI [of _ data])
qed

end
