(* ===== verification/Spec2Isabelle.thy ===== *)
theory Spec2Isabelle
  imports Dsu_Race Stream_Position Tier Member_Query
begin

text \<open>
  A verification development for \<^verbatim>\<open>blaze\<close>, a streaming engine that keeps the connected components of a
  graph of edge events, for a shared view and for many tenant scopes, serves lookups from memory and
  from memory-mapped files, and commits its state to object storage.

  \<^bold>\<open>The program.\<close> Events (\<^verbatim>\<open>src/core/types.rs\<close>) enter the scoped forest (\<^verbatim>\<open>src/core/scoped.rs\<close>): a shared
  union-find (\<^verbatim>\<open>src/core/dsu.rs\<close>) and a sparse overlay per scope, together the memtable, in front of an
  immutable routing base (\<^verbatim>\<open>src/core/base.rs\<close>). The flush loop folds the memtable into a Puffin file
  (\<^verbatim>\<open>src/storage/puffin.rs\<close>, \<^verbatim>\<open>codec.rs\<close>, \<^verbatim>\<open>registry.rs\<close>, \<^verbatim>\<open>members.rs\<close>, \<^verbatim>\<open>filter.rs\<close>), maps the file
  (\<^verbatim>\<open>base.rs\<close>) and pushes it on a stack of layers (\<^verbatim>\<open>layered.rs\<close>), which becomes the new base.

  \<^bold>\<open>Conventions.\<close> Machine integers are words of their width; a concurrent or ordered map is a finite
  map; a vector is a list. Code that panics returns \<^term>\<open>None\<close>, code that fails returns a
  \<^verbatim>\<open>storage_error\<close> on the left of a sum. Loops are recursive functions with a termination proof,
  except the walks of the union-find, which end only on acyclic maps: they are partial functions to
  option, and the theorems state that they return. No definition uses fuel. Reads of a mapped file
  are ranges of a byte list, so an access outside the mapping is \<^term>\<open>None\<close>.

  \<^bold>\<open>Theories.\<close>
  \<^item> \<^verbatim>\<open>Blaze_Prelude\<close>: parent functions, their roots, layered parent functions, representatives of a
    graph; \<^verbatim>\<open>Types\<close>: identifiers, visibility, events.
  \<^item> \<^verbatim>\<open>Dsu\<close>: the union-find, run sequentially: lookups return the lowest id of a component, snapshots
    round-trip. \<^verbatim>\<open>Dsu_Race\<close>: the same code one map operation at a time, with the queries of any number of
    threads racing the writer.
  \<^item> \<^verbatim>\<open>Stream_Position\<close>: positions in the input stream; merging is the least upper bound.
  \<^item> \<^verbatim>\<open>Routing_Base\<close>: the trait and its laws. \<^verbatim>\<open>Forest_Spec\<close>: what a scope sees and what two layers of
    representatives must satisfy to track it. \<^verbatim>\<open>Scoped_Forest\<close>: the forest is an instance, so every answer
    is the lowest node of the component of the visible graph, and events a scope cannot see do not
    leak. \<^verbatim>\<open>Forest_Fold\<close>: compactions, folds, snapshots, hydration and the installation of a base leave
    every answer as it was. \<^verbatim>\<open>Forest_Members\<close>: the members query, over any base whose children are the
    inverse of its parents.
  \<^item> \<^verbatim>\<open>Byte_Codec\<close>, \<^verbatim>\<open>Pair_Table\<close>, \<^verbatim>\<open>Blocked_Table\<close>, \<^verbatim>\<open>Registry_Codec\<close>, \<^verbatim>\<open>Member_Codec\<close>, \<^verbatim>\<open>Member_Filter\<close>, \<^verbatim>\<open>Puffin\<close>:
    the file format, byte for byte, with round trips and bounds of every read.
  \<^item> \<^verbatim>\<open>Codec\<close>, \<^verbatim>\<open>Codec_Paths\<close>: both ways from a forest to blobs give the same blobs, and decoding returns the
    snapshot, sorted. \<^verbatim>\<open>Table_Scan\<close>: sweeps and the single-pass index build. \<^verbatim>\<open>Puffin_Base\<close>, \<^verbatim>\<open>Puffin_Open\<close>: opening a
    file, and that what was written is what is served.
  \<^item> \<^verbatim>\<open>Layered_Base\<close>: the stack of layers; the locale \<open>layer_tables\<close> states what it needs of a layer and
    proves lookup and merge over it. \<^verbatim>\<open>Layered_Fold\<close>: files written by a fold, stacked, satisfy the contract
    the forest asks of its base.
  \<^item> \<^verbatim>\<open>Tier\<close>: the merge policy, and that following it comes to rest. \<^verbatim>\<open>Compact\<close>: storage-side compaction
    (\<^verbatim>\<open>src/storage/compact.rs\<close>) writes what a compaction from scratch would. \<^verbatim>\<open>Stack_Splice\<close>: pushing,
    starting over and splicing keep the invariant of the stack, and a merge in the background
    changes no answer. \<^verbatim>\<open>Member_Query\<close>: a stack of files that carry the member index serves the children the
    query needs, so the query lists the component end to end; and where the query stops doing so, at the
    largest cap and over a file whose index has no shared half.

  \<^bold>\<open>Bounds.\<close> A written file is assumed shorter than \<^term>\<open>2 ^ 38 :: nat\<close> bytes and a table shorter than
  \<^term>\<open>2 ^ 59 :: nat\<close> pairs where a length is stored in a machine word: past that the checks of the
  code wrap around, as one of the theorems shows. The cap of the members query is a machine word; the two
  largest words are excluded where the answer is stated, because the code adds one to the cap, and a
  theorem of its own states what the largest cap answers.

  \<^bold>\<open>Parameters.\<close> The JSON codec of the Puffin footer is third-party code: an argument of the
  definitions, with the hypothesis \<open>json_ok\<close> that it reads back the footer that was written, and a
  concrete codec in the witnesses.

  \<^bold>\<open>Not modelled.\<close> The code around object storage: the flush loop (\<^verbatim>\<open>src/storage/flush.rs\<close>, of which only
  \<^verbatim>\<open>merged_level\<close> is modelled, in \<^verbatim>\<open>Tier\<close>), the catalog of commits (\<^verbatim>\<open>catalog.rs\<close>), retention
  (\<^verbatim>\<open>retention.rs\<close>) and the start-up check of the store (\<^verbatim>\<open>conformance.rs\<close>). Ingestion (\<^verbatim>\<open>src/ingest\<close>:
  sources, pipeline, logs and the event buffer) and leader election (\<^verbatim>\<open>src/ha\<close>), asynchronous code over
  brokers, files and the cluster's lease service. The transport layers (\<^verbatim>\<open>src/api\<close>, \<^verbatim>\<open>src/grpc\<close>), which
  translate requests into the calls modelled here; command line and process setup
  (\<^verbatim>\<open>src/main.rs\<close>); Parquet encoding (\<^verbatim>\<open>src/storage/parquet_io.rs\<close>), a call into a library. Inside the modules
  that are modelled: logging, debug assertions, memory estimates that only feed metrics and advice to
  the kernel, which change no value.
\<close>

end
